(* ===== verification/Prelude.thy ===== *)
theory Prelude
  imports Main "HOL-Library.Word" "HOL-Library.List_Lexorder"
begin

text \<open>
  Shared vocabulary of the development: machine words, byte strings with Rust's slice order,
  fallible computations (\<open>Result\<close> and panics), little-endian integers, slices that panic out of
  range, the sorted map behind \<open>BTreeMap\<close> and the binary search of the standard library.
  A \<open>usize\<close> is modelled by \<^typ>\<open>nat\<close> (64-bit targets; sizes of in-memory objects never reach
  \<open>2 ^ 64\<close>); every narrower integer keeps its width.
\<close>

subsection \<open>Words, bytes and faults\<close>

type_synonym u8 = "8 word"
type_synonym u16 = "16 word"
type_synonym u32 = "32 word"
type_synonym u64 = "64 word"
type_synonym bytes = "u8 list"
type_synonym entry = "bytes \<times> bytes"

named_theorems codec_simps \<open>lengths and round trips of the byte codecs\<close>
named_theorems size_simps \<open>sizes of encoded objects\<close>

subsection \<open>Fallible computations\<close>

definition and_then :: "'e + 'a \<Rightarrow> ('a \<Rightarrow> 'e + 'b) \<Rightarrow> 'e + 'b" where
  "and_then r f = (case r of Inl e \<Rightarrow> Inl e | Inr x \<Rightarrow> f x)"

lemma and_then_simps [simp]:
  "and_then (Inl e) f = Inl e"
  "and_then (Inr x) f = f x"
  by (simp_all add: and_then_def)

lemma and_then_Inr_iff:
  "and_then r f = Inr y \<longleftrightarrow> (\<exists>x. r = Inr x \<and> f x = Inr y)"
  by (cases r) simp_all

lemma and_then_cong [fundef_cong]:
  "r = r' \<Longrightarrow> (\<And>x. r' = Inr x \<Longrightarrow> f x = g x) \<Longrightarrow> and_then r f = and_then r' g"
  by (cases r') simp_all

subsection \<open>Little-endian integers\<close>

text \<open>\<open>le_bytes n x\<close> is \<open>to_le_bytes\<close> of an \<open>n\<close>-byte integer, \<open>le_val\<close> is \<open>from_le_bytes\<close>
  read as a number.\<close>

fun le_bytes :: "nat \<Rightarrow> nat \<Rightarrow> bytes" where
  "le_bytes 0 x = []"
| "le_bytes (Suc n) x = word_of_nat x # le_bytes n (x div 256)"

fun le_val :: "bytes \<Rightarrow> nat" where
  "le_val [] = 0"
| "le_val (b # bs) = unat b + 256 * le_val bs"

lemma length_le_bytes [simp, size_simps]: "length (le_bytes n x) = n"
  by (induction n arbitrary: x) auto

lemma le_val_le_bytes_mod: "le_val (le_bytes n x) = x mod 256 ^ n"
proof (induction n arbitrary: x)
  case 0
  then show ?case by simp
next
  case (Suc n)
  have "x mod (256 * 256 ^ n) = 256 * (x div 256 mod 256 ^ n) + x mod 256"
    by (rule mod_mult2_eq)
  then show ?case
    by (simp add: Suc.IH unat_of_nat)
qed

lemma le_val_le_bytes [codec_simps]: "x < 256 ^ n \<Longrightarrow> le_val (le_bytes n x) = x"
  by (simp add: le_val_le_bytes_mod)

lemma unat_u8_less [simp]: "unat (b :: u8) < 256"
  using unsigned_less [of b, where ?'a = nat] by simp

lemma le_val_bound: "le_val bs < 256 ^ length bs"
proof (induction bs)
  case Nil
  then show ?case by simp
next
  case (Cons b bs)
  have "unat b < 256" by simp
  then have "unat b + 256 * le_val bs < 256 + 256 * le_val bs" by linarith
  also have "\<dots> = 256 * Suc (le_val bs)" by simp
  also have "\<dots> \<le> 256 * 256 ^ length bs" using Cons.IH by (intro mult_le_mono2) simp
  finally show ?case by simp
qed

lemma word_of_nat_mod_u8: "(word_of_nat (x mod 256) :: u8) = word_of_nat x"
  by (simp add: word_of_nat_eq_iff take_bit_eq_mod)

lemma le_bytes_le_val [codec_simps]: "length bs = n \<Longrightarrow> le_bytes n (le_val bs) = bs"
proof (induction bs arbitrary: n)
  case Nil
  then show ?case by simp
next
  case (Cons b bs)
  have "(unat b + 256 * le_val bs) div 256 = le_val bs" by simp
  moreover have "word_of_nat (unat b + 256 * le_val bs) = b"
    using word_of_nat_mod_u8 [of "unat b + 256 * le_val bs"] by simp
  ultimately show ?case using Cons by auto
qed

lemma le_bytes_mod: "le_bytes n (x mod 256 ^ n) = le_bytes n x"
  using le_bytes_le_val [of "le_bytes n x" n] by (simp add: le_val_le_bytes_mod)

text \<open>Integers as the source names them: \<open>u32::to_le_bytes\<close>, \<open>u32::from_le_bytes\<close> and so on. A cast
  \<open>len as u32\<close> is \<^const>\<open>word_of_nat\<close>, which truncates.\<close>

definition u16_le :: "u16 \<Rightarrow> bytes" where "u16_le w = le_bytes 2 (unat w)"
definition u32_le :: "u32 \<Rightarrow> bytes" where "u32_le w = le_bytes 4 (unat w)"
definition u64_le :: "u64 \<Rightarrow> bytes" where "u64_le w = le_bytes 8 (unat w)"
definition u32_of_le :: "bytes \<Rightarrow> u32" where "u32_of_le bs = word_of_nat (le_val bs)"
definition u64_of_le :: "bytes \<Rightarrow> u64" where "u64_of_le bs = word_of_nat (le_val bs)"

lemma length_uN_le [simp, size_simps]:
  "length (u16_le a) = 2" "length (u32_le b) = 4" "length (u64_le c) = 8"
  by (simp_all add: u16_le_def u32_le_def u64_le_def)

lemma unat_u16_less: "unat (w :: u16) < 256 ^ 2"
  using unsigned_less [of w, where ?'a = nat] by simp

lemma unat_u32_less: "unat (w :: u32) < 256 ^ 4"
  using unsigned_less [of w, where ?'a = nat] by simp

lemma unat_u64_less: "unat (w :: u64) < 256 ^ 8"
  using unsigned_less [of w, where ?'a = nat] by simp

lemma le_val_u_le [codec_simps]:
  "le_val (u16_le a) = unat a" "le_val (u32_le b) = unat b" "le_val (u64_le c) = unat c"
  unfolding u16_le_def u32_le_def u64_le_def
  by (rule le_val_le_bytes unat_u16_less unat_u32_less unat_u64_less)+

lemma u_of_le_u_le [codec_simps]:
  "u32_of_le (u32_le b) = b" "u64_of_le (u64_le c) = c"
  by (simp_all add: u32_of_le_def u64_of_le_def le_val_u_le)

lemma unat_word_of_nat_u16 [codec_simps]: "n < 65536 \<Longrightarrow> unat (word_of_nat n :: u16) = n"
  by (simp add: unat_of_nat)

lemma unat_word_of_nat_u32 [codec_simps]: "n < 4294967296 \<Longrightarrow> unat (word_of_nat n :: u32) = n"
  by (simp add: unat_of_nat)

lemma u64_le_inject [simp]: "u64_le a = u64_le b \<longleftrightarrow> a = b"
  by (metis u_of_le_u_le(2))

text \<open>Reading a 32-bit length field at an offset that a length check has already validated.\<close>

definition rd_u32 :: "bytes \<Rightarrow> nat \<Rightarrow> nat" where
  "rd_u32 data pos = le_val (take 4 (drop pos data))"

definition rd_u16 :: "bytes \<Rightarrow> nat \<Rightarrow> nat" where
  "rd_u16 data pos = le_val (take 2 (drop pos data))"

definition rd_u64 :: "bytes \<Rightarrow> nat \<Rightarrow> u64" where
  "rd_u64 data pos = u64_of_le (take 8 (drop pos data))"

lemma rd_at [codec_simps]:
  "pos = length xs \<Longrightarrow> rd_u16 (xs @ u16_le a @ ys) pos = unat a"
  "pos = length xs \<Longrightarrow> rd_u32 (xs @ u32_le b @ ys) pos = unat b"
  "pos = length xs \<Longrightarrow> rd_u64 (xs @ u64_le c @ ys) pos = c"
  by (simp_all add: rd_u16_def rd_u32_def rd_u64_def le_val_u_le u_of_le_u_le)

subsection \<open>Byte-string ranges\<close>

text \<open>The length-prefixed field of the on-disk formats and the raw slice \<open>data[a..b]\<close>.\<close>

definition slice_of :: "bytes \<Rightarrow> nat \<Rightarrow> nat \<Rightarrow> bytes" where
  "slice_of data a b = take (b - a) (drop a data)"

lemma slice_at [codec_simps]:
  "a = length xs \<Longrightarrow> b = length xs + length ys \<Longrightarrow> slice_of (xs @ ys @ zs) a b = ys"
  by (simp add: slice_of_def)

lemma length_slice: "a \<le> b \<Longrightarrow> b \<le> length data \<Longrightarrow> length (slice_of data a b) = b - a"
  by (simp add: slice_of_def)

definition starts_with :: "bytes \<Rightarrow> bytes \<Rightarrow> bool" where
  "starts_with p k \<longleftrightarrow> take (length p) k = p"

end
