(* ===== verification/Errors.thy ===== *)
theory Errors
  imports Prelude
begin

text \<open>
  The unified error type of \<open>src/error.rs\<close>, its \<open>Display\<close> text, and the faults a computation of
  the model can end in: a returned \<open>KvError\<close>, a panic (an index or slice out of range, a failed
  \<open>expect\<close>), undefined behaviour (a dangling or null raw pointer is dereferenced) or a loop that
  exhausts its fuel. The last two occur only in the pointer-level skip list, where they are
  proved impossible.
\<close>

subsection \<open>Decimal and hexadecimal text\<close>

definition digit :: "nat \<Rightarrow> char" where
  "digit d = (if d < 10 then char_of (48 + d) else char_of (87 + d))"

fun dec :: "nat \<Rightarrow> string" where
  "dec n = (if n < 10 then [digit n] else dec (n div 10) @ [digit (n mod 10)])"

declare dec.simps [simp del]

fun hex :: "nat \<Rightarrow> nat \<Rightarrow> string" where
  "hex 0 n = []"
| "hex (Suc w) n = hex w (n div 16) @ [digit (n mod 16)]"

fun commas :: "string list \<Rightarrow> string" where
  "commas [] = []"
| "commas [s] = s"
| "commas (s # ss) = s @ '', '' @ commas ss"

definition debug_bytes :: "bytes \<Rightarrow> string" where
  "debug_bytes bs = ''['' @ commas (map (\<lambda>b. dec (unat b)) bs) @ '']''"

subsection \<open>Errors and faults\<close>

datatype io_kind = NotFound | UnexpectedEof | OtherIo

datatype io_error = IoError io_kind string

datatype kv_error =
    Io io_error
  | Corruption string
  | KeyNotFound bytes
  | InvalidArgument string
  | Closed
  | ChecksumMismatch u32 u32
  | Internal string

datatype fault =
    Fail kv_error
  | Panic string
  | Undefined
  | Diverges

type_synonym 'a res = "fault + 'a"

abbreviation corrupt :: "string \<Rightarrow> 'a res" where
  "corrupt msg \<equiv> Inl (Fail (Corruption msg))"

abbreviation io_fail :: "io_kind \<Rightarrow> string \<Rightarrow> 'a res" where
  "io_fail k msg \<equiv> Inl (Fail (Io (IoError k msg)))"

subsection \<open>Display and source\<close>

text \<open>The text of \<open>impl Display for KvError\<close>. The rendering of a key (lossy UTF-8, then \<open>{:?}\<close>) is an
  argument, since it belongs to \<open>std::string\<close>.\<close>

fun display_io :: "io_error \<Rightarrow> string" where
  "display_io (IoError k msg) = msg"

fun display :: "(bytes \<Rightarrow> string) \<Rightarrow> kv_error \<Rightarrow> string" where
  "display show_key (Io err) = ''IO error: '' @ display_io err"
| "display show_key (Corruption msg) = ''data corruption: '' @ msg"
| "display show_key (KeyNotFound key) = ''key not found: '' @ show_key key"
| "display show_key (InvalidArgument msg) = ''invalid argument: '' @ msg"
| "display show_key Closed = ''database is closed''"
| "display show_key (ChecksumMismatch expected actual) =
     ''checksum mismatch: expected 0x'' @ hex 8 (unat expected) @ '', got 0x'' @ hex 8 (unat actual)"
| "display show_key (Internal msg) = ''internal error: '' @ msg"

fun error_source :: "kv_error \<Rightarrow> io_error option" where
  "error_source (Io err) = Some err"
| "error_source _ = None"

subsection \<open>Facts about the texts\<close>

lemma length_hex [simp]: "length (hex w n) = w"
  by (induction w arbitrary: n) auto

lemma char_of_inject_small:
  "a < 256 \<Longrightarrow> b < 256 \<Longrightarrow> (char_of a = char_of b) = (a = (b :: nat))"
  by (simp add: char_of_eq_iff take_bit_nat_eq_self)

lemma digit_inject: "a < 16 \<Longrightarrow> b < 16 \<Longrightarrow> digit a = digit b \<longleftrightarrow> a = b"
  by (auto simp: digit_def char_of_inject_small)

lemma hex_inject: "a < 16 ^ w \<Longrightarrow> b < 16 ^ w \<Longrightarrow> hex w a = hex w b \<longleftrightarrow> a = b"
proof (induction w arbitrary: a b)
  case 0
  then show ?case by simp
next
  case (Suc w)
  have "a div 16 < 16 ^ w" "b div 16 < 16 ^ w"
    using Suc.prems by (simp_all add: less_mult_imp_div_less mult.commute)
  then have "hex (Suc w) a = hex (Suc w) b \<longleftrightarrow> a div 16 = b div 16 \<and> a mod 16 = b mod 16"
    by (simp add: Suc.IH digit_inject)
  then show ?case by (metis div_mult_mod_eq)
qed

lemma hex8_inject: "hex 8 (unat (a :: u32)) = hex 8 (unat b) \<longleftrightarrow> a = b"
  using hex_inject [of "unat a" 8 "unat b"] unat_u32_less [of a] unat_u32_less [of b]
  by (simp add: word_unat_eq_iff)

end
