(* ===== verification/Ordered.thy ===== *)
theory Ordered
  imports Prelude
begin

text \<open>
  Ordered containers of the standard library that the engine uses: \<open>BTreeMap\<close> as a strictly sorted
  association list with \<open>insert\<close>, and \<open>slice::binary_search_by\<close> as its halving loop. Rust compares
  \<open>[u8]\<close> slices lexicographically, which is the order of \<open>HOL-Library.List_Lexorder\<close> on words.
\<close>

subsection \<open>Strictly sorted association lists\<close>

definition sorted_keys :: "('k::linorder \<times> 'v) list \<Rightarrow> bool" where
  "sorted_keys m \<longleftrightarrow> sorted_wrt (<) (map fst m)"

lemma sorted_keys_Nil [simp]: "sorted_keys []"
  by (simp add: sorted_keys_def)

lemma sorted_keys_Cons:
  "sorted_keys (e # m) \<longleftrightarrow> (\<forall>k \<in> fst ` set m. fst e < k) \<and> sorted_keys m"
  by (auto simp: sorted_keys_def)

lemma sorted_keys_append:
  "sorted_keys (xs @ ys) \<longleftrightarrow>
     sorted_keys xs \<and> sorted_keys ys \<and> (\<forall>x \<in> fst ` set xs. \<forall>y \<in> fst ` set ys. x < y)"
  by (auto simp: sorted_keys_def sorted_wrt_append)

lemma sorted_keys_distinct: "sorted_keys m \<Longrightarrow> distinct (map fst m)"
  by (simp add: sorted_keys_def strict_sorted_iff)

lemma sorted_keys_filter: "sorted_keys m \<Longrightarrow> sorted_keys (filter P m)"
  by (induction m) (auto simp: sorted_keys_Cons)

lemma sorted_keys_eqI:
  assumes "sorted_keys xs" "sorted_keys ys" "map_of xs = map_of ys"
  shows "xs = ys"
proof (rule map_sorted_distinct_set_unique [of fst])
  show "set xs = set ys"
    using assms by (simp add: sorted_keys_distinct flip: map_of_inject_set)
  then show "inj_on fst (set xs \<union> set ys)"
    using sorted_keys_distinct [OF assms(1)] by (simp add: distinct_map)
qed (use assms in \<open>simp_all add: sorted_keys_def strict_sorted_iff\<close>)

lemma sorted_keys_lookup_lt:
  "sorted_keys m \<Longrightarrow> \<forall>x \<in> fst ` set m. k < x \<Longrightarrow> map_of m k = None"
  by (metis less_irrefl map_of_eq_None_iff)

subsection \<open>BTreeMap\<close>

text \<open>A \<open>BTreeMap<K, V>\<close> is a strictly sorted association list: \<open>insert\<close> replaces the value of a key
  that is present, \<open>into_iter\<close> yields the list.\<close>

fun bt_insert :: "'k::linorder \<Rightarrow> 'v \<Rightarrow> ('k \<times> 'v) list \<Rightarrow> ('k \<times> 'v) list" where
  "bt_insert k v [] = [(k, v)]"
| "bt_insert k v (e # m) =
     (if k = fst e then (k, v) # m
      else if k < fst e then (k, v) # e # m
      else e # bt_insert k v m)"

text \<open>\<open>for (k, v) in es { map.insert(k, v); }\<close>\<close>

definition bt_extend :: "('k::linorder \<times> 'v) list \<Rightarrow> ('k \<times> 'v) list \<Rightarrow> ('k \<times> 'v) list" where
  "bt_extend es m = fold (\<lambda>(k, v). bt_insert k v) es m"

lemma bt_extend_simps [simp]:
  "bt_extend [] m = m"
  "bt_extend ((k, v) # es) m = bt_extend es (bt_insert k v m)"
  by (simp_all add: bt_extend_def)

lemma map_of_bt_insert [simp]: "map_of (bt_insert k v m) = (map_of m)(k \<mapsto> v)"
  by (induction m) (auto simp: fun_eq_iff)

lemma keys_bt_insert [simp]: "fst ` set (bt_insert k v m) = insert k (fst ` set m)"
  by (induction m) auto

lemma set_bt_insert: "set (bt_insert k v m) \<subseteq> insert (k, v) (set m)"
  by (induction m) auto

lemma bt_insert_not_Nil [simp]: "bt_insert k v m \<noteq> []"
  by (cases m) auto

lemma sorted_bt_insert [simp]: "sorted_keys m \<Longrightarrow> sorted_keys (bt_insert k v m)"
  by (induction m) (auto simp: sorted_keys_Cons)

lemma sorted_bt_extend [simp]: "sorted_keys m \<Longrightarrow> sorted_keys (bt_extend es m)"
  by (induction es arbitrary: m) auto

lemma map_of_bt_extend: "map_of (bt_extend es m) = map_of m ++ map_of (rev es)"
  by (induction es arbitrary: m) (auto simp: map_add_def fun_eq_iff split: option.splits)

lemma map_of_bt_extend_sorted:
  "sorted_keys es \<Longrightarrow> map_of (bt_extend es m) = map_of m ++ map_of es"
  using map_of_inject_set [of "rev es" es]
  by (simp add: map_of_bt_extend sorted_keys_distinct flip: rev_map)

lemma map_of_filter_key:
  "map_of (filter (\<lambda>e. P (fst e)) m) k = (if P k then map_of m k else None)"
  by (induction m) auto

lemma map_of_range:
  "map_of (filter (\<lambda>e. lo \<le> fst e \<and> fst e < hi) m) k = (if lo \<le> k \<and> k < hi then map_of m k else None)"
  by (rule map_of_filter_key)

lemma map_of_filter_entry:
  "sorted_keys m \<Longrightarrow> map_of (filter P m) k =
     (case map_of m k of None \<Rightarrow> None | Some v \<Rightarrow> if P (k, v) then Some v else None)"
proof (induction m)
  case Nil
  then show ?case by simp
next
  case (Cons e m)
  then have "map_of m (fst e) = None"
    by (auto simp: sorted_keys_Cons intro!: sorted_keys_lookup_lt)
  with Cons show ?case
    by (cases e) (auto simp: sorted_keys_Cons split: option.splits)
qed

lemma map_of_map_value:
  "map_of (map (\<lambda>(k, v). (k, f k v)) m) k = map_option (f k) (map_of m k)"
  by (induction m) auto

lemma sorted_keys_range:
  "sorted_keys es \<Longrightarrow> sorted_keys (filter (\<lambda>e. lo \<le> fst e \<and> fst e < hi) es)"
  by (rule sorted_keys_filter)

lemma takeWhile_below:
  "sorted_keys es \<Longrightarrow> takeWhile (\<lambda>e. fst e < hi) es = filter (\<lambda>e. fst e < hi) es"
proof (induction es)
  case Nil
  then show ?case by simp
next
  case (Cons e es)
  have "\<not> fst e < hi \<Longrightarrow> filter (\<lambda>e. fst e < hi) es = []"
    using Cons.prems by (fastforce simp: sorted_keys_Cons filter_empty_conv)
  with Cons show ?case by (auto simp: sorted_keys_Cons)
qed

text \<open>A sorted scan that stops at the first key past the end of the range is the range filter.\<close>

lemma takeWhile_dropWhile_range:
  "sorted_keys es \<Longrightarrow>
     takeWhile (\<lambda>e. fst e < hi) (dropWhile (\<lambda>e. fst e < lo) es) =
     filter (\<lambda>e. lo \<le> fst e \<and> fst e < hi) es"
proof (induction es)
  case Nil
  then show ?case by simp
next
  case (Cons e es)
  show ?case
  proof (cases "fst e < lo")
    case True
    with Cons show ?thesis by (auto simp: sorted_keys_Cons not_le)
  next
    case False
    then have ge: "\<forall>x \<in> set es. lo \<le> fst x"
      using Cons.prems by (fastforce simp: sorted_keys_Cons)
    have tw: "takeWhile (\<lambda>e. fst e < hi) es = filter (\<lambda>e. fst e < hi) es"
      using Cons.prems by (simp add: sorted_keys_Cons takeWhile_below)
    have flt: "filter (\<lambda>e. lo \<le> fst e \<and> fst e < hi) es = filter (\<lambda>e. fst e < hi) es"
      using ge by (auto intro: filter_cong)
    have none: "hi \<le> fst e \<Longrightarrow> filter (\<lambda>e. fst e < hi) es = []"
      using Cons.prems by (fastforce simp: sorted_keys_Cons filter_empty_conv)
    show ?thesis
      using False tw flt none by (auto simp: not_less)
  qed
qed

subsection \<open>Binary search\<close>

text \<open>The loop of \<open>slice::binary_search_by\<close>: \<open>sz\<close> candidates from \<open>base\<close> on are halved until one is
  left. \<open>Inr i\<close> is \<open>Ok(i)\<close>, \<open>Inl i\<close> is \<open>Err(i)\<close> with the insertion point.\<close>

function bsearch_loop :: "('k::linorder) list \<Rightarrow> 'k \<Rightarrow> nat \<Rightarrow> nat \<Rightarrow> nat" where
  "bsearch_loop xs k base sz =
     (if sz \<le> 1 then base
      else bsearch_loop xs k
             (if k < xs ! (base + sz div 2) then base else base + sz div 2)
             (sz - sz div 2))"
  by pat_completeness auto
termination
  by (relation "measure (\<lambda>(xs, k, base, sz). sz)") auto

declare bsearch_loop.simps [simp del]

definition binary_search :: "('k::linorder) list \<Rightarrow> 'k \<Rightarrow> nat + nat" where
  "binary_search xs k =
     (if xs = [] then Inl 0
      else let base = bsearch_loop xs k 0 (length xs)
           in if xs ! base = k then Inr base
              else Inl (base + (if xs ! base < k then 1 else 0)))"

lemma sorted_wrt_nth_le:
  "sorted_wrt (<) xs \<Longrightarrow> i \<le> j \<Longrightarrow> j < length xs \<Longrightarrow> xs ! i \<le> (xs ! j :: 'k::linorder)"
  by (metis le_neq_implies_less less_imp_le order_refl sorted_wrt_nth_less)

lemma bsearch_loop_spec:
  assumes "sorted_wrt (<) xs" "1 \<le> sz" "base + sz \<le> length xs"
    and "base = 0 \<or> xs ! base \<le> k"
    and "\<And>j. base + sz \<le> j \<Longrightarrow> j < length xs \<Longrightarrow> k < xs ! j"
  shows "let b = bsearch_loop xs k base sz in
           b < length xs \<and> (b = 0 \<or> xs ! b \<le> k) \<and> (\<forall>j. b < j \<longrightarrow> j < length xs \<longrightarrow> k < xs ! j)"
  using assms
proof (induction xs k base sz rule: bsearch_loop.induct)
  case (1 xs k base sz)
  show ?case
  proof (cases "sz \<le> 1")
    case True
    then have "bsearch_loop xs k base sz = base"
      by (simp add: bsearch_loop.simps [of xs k base sz])
    moreover have "sz = 1" using True "1.prems" by simp
    ultimately show ?thesis using "1.prems" by (auto simp: Let_def Suc_le_eq)
  next
    case False
    define mid where "mid = base + sz div 2"
    have mid: "mid < length xs" using False "1.prems" by (simp add: mid_def)
    define base' where "base' = (if k < xs ! mid then base else mid)"
    have eq: "bsearch_loop xs k base sz = bsearch_loop xs k base' (sz - sz div 2)"
      using False by (simp add: bsearch_loop.simps [of xs k base sz] base'_def mid_def)
    have above: "k < xs ! j" if "base' + (sz - sz div 2) \<le> j" "j < length xs" for j
    proof (cases "k < xs ! mid")
      case True
      have "mid \<le> j" using that True by (simp add: base'_def mid_def)
      then show ?thesis
        using True sorted_wrt_nth_le [OF "1.prems"(1)] that(2) by fastforce
    next
      case False
      then show ?thesis using that "1.prems"(5) [of j] by (simp add: base'_def mid_def)
    qed
    show ?thesis
      unfolding eq
    proof (rule "1.IH" [OF False, folded mid_def, folded base'_def])
      show "base' + (sz - sz div 2) \<le> length xs" "1 \<le> sz - sz div 2"
        using "1.prems"(3) False by (auto simp: base'_def mid_def)
      show "base' = 0 \<or> xs ! base' \<le> k"
        using "1.prems"(4) by (simp add: base'_def not_less)
    qed (use "1.prems"(1) above in simp_all)
  qed
qed

lemma binary_search_cases:
  assumes "sorted_wrt (<) xs"
  obtains (Found) i where "binary_search xs k = Inr i" "i < length xs" "xs ! i = k"
  | (Missing) i where "binary_search xs k = Inl i" "k \<notin> set xs" "i \<le> length xs"
      "\<forall>j < i. xs ! j < k" "\<forall>j. i \<le> j \<longrightarrow> j < length xs \<longrightarrow> k < xs ! j"
proof (cases "xs = []")
  case True
  then show ?thesis using that(2) [of 0] by (simp add: binary_search_def)
next
  case False
  define b where "b = bsearch_loop xs k 0 (length xs)"
  have b: "b < length xs" "b = 0 \<or> xs ! b \<le> k" "\<forall>j. b < j \<longrightarrow> j < length xs \<longrightarrow> k < xs ! j"
    using bsearch_loop_spec [OF assms, of "length xs" 0 k] False
    by (simp_all add: b_def Let_def Suc_le_eq)
  have eq: "binary_search xs k =
      (if xs ! b = k then Inr b else Inl (b + (if xs ! b < k then 1 else 0)))"
    using False by (simp add: binary_search_def b_def Let_def)
  consider "xs ! b = k" | "xs ! b < k" | "k < xs ! b" by fastforce
  then show ?thesis
  proof cases
    case 1
    then show ?thesis using that(1) [of b] b(1) eq by simp
  next
    case 2
    then have below: "\<forall>j < Suc b. xs ! j < k"
      using sorted_wrt_nth_le [OF assms, of _ b] b(1) by (fastforce simp: less_Suc_eq_le)
    have above: "\<forall>j. Suc b \<le> j \<longrightarrow> j < length xs \<longrightarrow> k < xs ! j"
      using b(3) by (simp add: Suc_le_eq)
    have "k \<notin> set xs"
      using below above by (metis in_set_conv_nth less_irrefl not_less_eq_eq not_less)
    with 2 below above b(1) eq show ?thesis by (intro that(2) [of "Suc b"]) auto
  next
    case 3
    then have "b = 0" using b(2) by auto
    have above: "\<forall>j. 0 \<le> j \<longrightarrow> j < length xs \<longrightarrow> k < xs ! j"
      using b(3) 3 \<open>b = 0\<close> by (metis gr0I)
    have "k \<notin> set xs"
      using above by (metis in_set_conv_nth less_irrefl le0)
    with 3 above \<open>b = 0\<close> eq show ?thesis by (intro that(2) [of 0]) auto
  qed
qed

text \<open>Searching the keys of a strictly sorted association list is \<^const>\<open>map_of\<close>.\<close>

lemma binary_search_map_of:
  assumes "sorted_keys es"
  shows "(case binary_search (map fst es) k of Inr i \<Rightarrow> Some (snd (es ! i)) | Inl _ \<Rightarrow> None) = map_of es k"
proof (rule binary_search_cases [of "map fst es" k], goal_cases)
  case 1
  then show ?case using assms by (simp add: sorted_keys_def)
next
  case (2 i)
  then have "(k, snd (es ! i)) \<in> set es"
    by (metis length_map nth_map nth_mem prod.collapse)
  then have "map_of es k = Some (snd (es ! i))"
    by (rule map_of_is_SomeI [OF sorted_keys_distinct [OF assms]])
  with 2 show ?case by simp
next
  case (3 i)
  then show ?case by simp (metis map_of_eq_None_iff)
qed

end
