(* ===== verification/Disk.thy ===== *)
theory Disk
  imports Errors "HOL-Library.Sublist"
begin

text \<open>
  The file system and \<open>std::io::BufWriter\<close> as the engine sees them. A disk maps paths to contents;
  \<open>durable\<close> holds what an \<open>fsync\<close> has made survive a power failure. Every system call consults a
  fault plan: call number \<open>n\<close> fails when \<open>faults n = Some k\<close>, and a failing write leaves its first
  \<open>k\<close> bytes behind (a torn write). Theorems quantify over all plans, so every \<open>?\<close> of the source on an
  I/O operation is a real branch; a plan that fails from some call on describes a crash there.
\<close>

subsection \<open>State passing with faults\<close>

type_synonym ('s, 'a) prog = "'s \<Rightarrow> 'a res \<times> 's"

definition st_return :: "'a \<Rightarrow> ('s, 'a) prog" where
  "st_return x s = (Inr x, s)"

definition st_bind :: "('s, 'a) prog \<Rightarrow> ('a \<Rightarrow> ('s, 'b) prog) \<Rightarrow> ('s, 'b) prog" where
  "st_bind m f s = (case m s of (Inl e, s') \<Rightarrow> (Inl e, s') | (Inr x, s') \<Rightarrow> f x s')"

definition st_lift :: "'a res \<Rightarrow> ('s, 'a) prog" where
  "st_lift r s = (r, s)"

definition st_modify :: "('s \<Rightarrow> 's) \<Rightarrow> ('s, unit) prog" where
  "st_modify f s = (Inr (), f s)"

definition st_gets :: "('s \<Rightarrow> 'a) \<Rightarrow> ('s, 'a) prog" where
  "st_gets f s = (Inr (f s), s)"

text \<open>\<open>let _ = op;\<close> runs an operation and drops its result.\<close>

definition st_ignore :: "('s, 'a) prog \<Rightarrow> ('s, unit) prog" where
  "st_ignore m s = (Inr (), snd (m s))"

lemmas st_simps = st_return_def st_lift_def st_modify_def st_gets_def st_ignore_def

lemma st_bind_Inr_iff:
  "st_bind m f s = (Inr y, s') \<longleftrightarrow> (\<exists>x t. m s = (Inr x, t) \<and> f x t = (Inr y, s'))"
  by (cases "m s" rule: prod.exhaust; cases "fst (m s)") (auto simp: st_bind_def)

lemma st_bind_eq:
  "m s = (Inr x, t) \<Longrightarrow> st_bind m f s = f x t"
  "m s = (Inl e, t) \<Longrightarrow> st_bind m f s = (Inl e, t)"
  by (simp_all add: st_bind_def)

lemma st_bind_assoc: "st_bind (st_bind m f) g = st_bind m (\<lambda>x. st_bind (f x) g)"
  by (simp add: st_bind_def fun_eq_iff split: prod.splits sum.splits)

lemma st_bind_simps [simp]:
  "st_bind (st_return x) f s = f x s"
  "st_bind (st_lift (Inr x)) f s = f x s"
  "st_bind (st_lift (Inl e)) f s = (Inl e, s)"
  "st_bind (st_modify g) h s = h () (g s)"
  "st_bind (st_gets p) f s = f (p s) s"
  "st_bind (st_ignore m) h s = h () (snd (m s))"
  by (simp_all add: st_bind_def st_simps)

text \<open>\<open>st_ok m s\<close>: the program returns from state \<open>s\<close>, neither failing nor panicking.\<close>

definition st_ok :: "('s, 'a) prog \<Rightarrow> 's \<Rightarrow> bool" where
  "st_ok m s \<longleftrightarrow> (\<exists>x s'. m s = (Inr x, s'))"

lemma st_okI: "m s = (Inr x, s') \<Longrightarrow> st_ok m s"
  by (auto simp: st_ok_def)

lemma st_okE:
  assumes "st_ok m s"
  obtains x s' where "m s = (Inr x, s')"
  using assms by (auto simp: st_ok_def)

lemma st_ok_bind:
  "st_ok m s \<Longrightarrow> (\<And>x s'. m s = (Inr x, s') \<Longrightarrow> st_ok (f x) s') \<Longrightarrow> st_ok (st_bind m f) s"
  by (auto simp: st_ok_def st_bind_def)

lemma st_ok_simps [simp]:
  "st_ok (st_return x) s" "st_ok (st_gets p) s" "st_ok (st_modify g) s" "st_ok (st_ignore m) s"
  "st_ok (st_lift (Inr y)) s"
  by (simp_all add: st_ok_def st_simps)

lemma st_ok_bind_simps [simp]:
  "st_ok (st_bind (st_return x) f) s = st_ok (f x) s"
  "st_ok (st_bind (st_lift (Inr x)) f) s = st_ok (f x) s"
  "st_ok (st_bind (st_gets p) f) s = st_ok (f (p s)) s"
  "st_ok (st_bind (st_modify g) h) s = st_ok (h ()) (g s)"
  by (simp_all add: st_ok_def)

text \<open>A fold of fallible steps: a \<open>for\<close> loop whose body ends in \<open>?\<close>.\<close>

fun st_for :: "'a list \<Rightarrow> ('a \<Rightarrow> ('s, unit) prog) \<Rightarrow> ('s, unit) prog" where
  "st_for [] body = st_return ()"
| "st_for (x # xs) body = st_bind (body x) (\<lambda>_. st_for xs body)"

subsection \<open>Files\<close>

type_synonym path = string

record disk =
  files :: "path \<Rightarrow> bytes option"
  durable :: "path \<Rightarrow> bytes option"
  faults :: "nat \<Rightarrow> nat option"
  io_count :: nat

definition tick :: "disk \<Rightarrow> disk" where
  "tick d = d\<lparr>io_count := Suc (io_count d)\<rparr>"

definition fault_now :: "disk \<Rightarrow> nat option" where
  "fault_now d = faults d (io_count d)"

definition set_file :: "path \<Rightarrow> bytes option \<Rightarrow> disk \<Rightarrow> disk" where
  "set_file p c d = d\<lparr>files := (files d)(p := c)\<rparr>"

abbreviation io_err :: "'a res" where
  "io_err \<equiv> io_fail OtherIo ''I/O error''"

text \<open>\<open>fs::read\<close>\<close>

definition read_file :: "path \<Rightarrow> (disk, bytes) prog" where
  "read_file p d =
     (case fault_now d of
        Some _ \<Rightarrow> (io_err, tick d)
      | None \<Rightarrow> (case files d p of
                   None \<Rightarrow> (io_fail NotFound ''No such file or directory'', tick d)
                 | Some c \<Rightarrow> (Inr c, tick d)))"

text \<open>\<open>OpenOptions::new().create(true).write(true).truncate(true).open\<close> and \<open>File::create\<close>\<close>

definition create_file :: "path \<Rightarrow> (disk, unit) prog" where
  "create_file p d =
     (case fault_now d of Some _ \<Rightarrow> (io_err, tick d) | None \<Rightarrow> (Inr (), set_file p (Some []) (tick d)))"

text \<open>\<open>OpenOptions::new().create(true).append(true).read(true).open\<close>\<close>

definition open_append :: "path \<Rightarrow> (disk, unit) prog" where
  "open_append p d =
     (case fault_now d of
        Some _ \<Rightarrow> (io_err, tick d)
      | None \<Rightarrow> (Inr (), (case files d p of None \<Rightarrow> set_file p (Some []) (tick d) | Some _ \<Rightarrow> tick d)))"

text \<open>\<open>write_all\<close> on an open file handle; the result is the number of bytes left unwritten.\<close>

definition write_file :: "path \<Rightarrow> bytes \<Rightarrow> disk \<Rightarrow> (unit res \<times> nat) \<times> disk" where
  "write_file p bs d =
     (let old = (case files d p of None \<Rightarrow> [] | Some c \<Rightarrow> c) in
      case fault_now d of
        None \<Rightarrow> ((Inr (), length bs), set_file p (Some (old @ bs)) (tick d))
      | Some k \<Rightarrow> ((io_err, min k (length bs)), set_file p (Some (old @ take k bs)) (tick d)))"

text \<open>\<open>sync_all\<close> and \<open>sync_data\<close>\<close>

definition sync_file :: "path \<Rightarrow> (disk, unit) prog" where
  "sync_file p d =
     (case fault_now d of
        Some _ \<Rightarrow> (io_err, tick d)
      | None \<Rightarrow> (Inr (), (tick d)\<lparr>durable := (durable d)(p := files d p)\<rparr>))"

text \<open>\<open>fs::remove_file\<close>\<close>

definition remove_file :: "path \<Rightarrow> (disk, unit) prog" where
  "remove_file p d =
     (case fault_now d of
        Some _ \<Rightarrow> (io_err, tick d)
      | None \<Rightarrow> (case files d p of
                   None \<Rightarrow> (io_fail NotFound ''No such file or directory'', tick d)
                 | Some _ \<Rightarrow> (Inr (), (set_file p None (tick d))\<lparr>durable := (durable d)(p := None)\<rparr>)))"

definition exists_file :: "path \<Rightarrow> disk \<Rightarrow> bool" where
  "exists_file p d \<longleftrightarrow> files d p \<noteq> None"

subsection \<open>BufWriter\<close>

text \<open>\<open>std::io::BufWriter\<close> with its default capacity of 8 KiB: a write that fits goes to the buffer, one
  that does not flushes it first, and one at least as large as the buffer bypasses it. A failed
  flush keeps the unwritten tail in the buffer. Dropping the writer flushes and ignores errors.\<close>

record bufw =
  bw_path :: path
  bw_buf :: bytes

definition bw_capacity :: nat where
  "bw_capacity = 8192"

definition bw_flush_buf :: "(bufw \<times> disk, unit) prog" where
  "bw_flush_buf = (\<lambda>(w, d).
     if bw_buf w = [] then (Inr (), (w, d))
     else (case write_file (bw_path w) (bw_buf w) d of
             ((r, n), d') \<Rightarrow> (r, (w\<lparr>bw_buf := drop n (bw_buf w)\<rparr>, d'))))"

definition bw_write_all :: "bytes \<Rightarrow> (bufw \<times> disk, unit) prog" where
  "bw_write_all bs = (\<lambda>(w, d).
     if length bs < bw_capacity - length (bw_buf w)
     then (Inr (), (w\<lparr>bw_buf := bw_buf w @ bs\<rparr>, d))
     else st_bind
            (\<lambda>(w, d). if bw_capacity - length (bw_buf w) < length bs then bw_flush_buf (w, d) else (Inr (), (w, d)))
            (\<lambda>_ (w, d).
               if bw_capacity \<le> length bs
               then (case write_file (bw_path w) bs d of ((r, n), d') \<Rightarrow> (r, (w, d')))
               else (Inr (), (w\<lparr>bw_buf := bw_buf w @ bs\<rparr>, d)))
            (w, d))"

definition bw_drop :: "bufw \<Rightarrow> disk \<Rightarrow> disk" where
  "bw_drop w d = snd (snd (bw_flush_buf (w, d)))"

subsection \<open>What a writer has written\<close>

definition file_bytes :: "disk \<Rightarrow> path \<Rightarrow> bytes" where
  "file_bytes d p = (case files d p of None \<Rightarrow> [] | Some c \<Rightarrow> c)"

definition bw_content :: "bufw \<Rightarrow> disk \<Rightarrow> bytes" where
  "bw_content w d = file_bytes d (bw_path w) @ bw_buf w"

text \<open>\<open>only_file p d d'\<close>: the step from \<open>d\<close> to \<open>d'\<close> touches no file other than \<open>p\<close>.\<close>

definition only_file :: "path \<Rightarrow> disk \<Rightarrow> disk \<Rightarrow> bool" where
  "only_file p d d' \<longleftrightarrow> faults d' = faults d \<and>
     (\<forall>q. q \<noteq> p \<longrightarrow> files d' q = files d q \<and> durable d' q = durable d q)"

lemma only_file_refl [simp]: "only_file p d d"
  by (simp add: only_file_def)

lemma only_file_trans: "only_file p d d' \<Longrightarrow> only_file p d' d'' \<Longrightarrow> only_file p d d''"
  by (simp add: only_file_def)

lemma only_fileD: "only_file p d d' \<Longrightarrow> q \<noteq> p \<Longrightarrow> files d' q = files d q"
  by (simp add: only_file_def)

lemma set_file_simps [simp]:
  "files (set_file p c d) = (files d)(p := c)"
  "durable (set_file p c d) = durable d"
  "faults (set_file p c d) = faults d"
  "files (tick d) = files d" "durable (tick d) = durable d" "faults (tick d) = faults d"
  by (simp_all add: set_file_def tick_def)

lemma file_bytes_set_file [simp]:
  "file_bytes (set_file p (Some c) d) q = (if q = p then c else file_bytes d q)"
  "file_bytes (tick d) q = file_bytes d q"
  by (simp_all add: file_bytes_def)

lemma write_file_ok:
  assumes "write_file p bs d = ((Inr (), n), d')"
  shows "file_bytes d' p = file_bytes d p @ bs" "n = length bs" "only_file p d d'"
    "files d' p \<noteq> None" "durable d' = durable d"
  using assms
  by (auto simp: write_file_def Let_def file_bytes_def only_file_def split: option.splits)

lemma write_file_any:
  assumes "write_file p bs d = ((r, n), d')"
  shows "file_bytes d' p = file_bytes d p @ take n bs" "n \<le> length bs" "only_file p d d'"
    "durable d' = durable d"
  using assms
  by (auto simp: write_file_def Let_def file_bytes_def only_file_def min_def split: option.splits)

lemma bw_flush_buf_any:
  assumes "bw_flush_buf (w, d) = (r, (w', d'))"
  shows "bw_content w' d' = bw_content w d" "bw_path w' = bw_path w" "only_file (bw_path w) d d'"
    "durable d' = durable d" "prefix (file_bytes d (bw_path w)) (file_bytes d' (bw_path w))"
proof -
  obtain r1 n d1 where wr: "write_file (bw_path w) (bw_buf w) d = ((r1, n), d1)"
    by (metis surj_pair)
  note any = write_file_any [OF wr]
  have cases: "bw_buf w = [] \<and> w' = w \<and> d' = d \<or> w' = w\<lparr>bw_buf := drop n (bw_buf w)\<rparr> \<and> d' = d1"
    using assms wr by (auto simp: bw_flush_buf_def split: if_splits)
  then show "bw_content w' d' = bw_content w d" "bw_path w' = bw_path w" "only_file (bw_path w) d d'"
    "durable d' = durable d"
    using any by (auto simp: bw_content_def)
  show "prefix (file_bytes d (bw_path w)) (file_bytes d' (bw_path w))"
    using cases any(1) by auto
qed

lemma bw_flush_buf_ok:
  assumes "bw_flush_buf (w, d) = (Inr (), (w', d'))"
  shows "bw_buf w' = []" "file_bytes d' (bw_path w) = bw_content w d"
proof -
  show buf: "bw_buf w' = []"
    using assms
    by (auto simp: bw_flush_buf_def write_file_def Let_def split: if_splits option.splits)
  show "file_bytes d' (bw_path w) = bw_content w d"
    using bw_flush_buf_any(1,2) [OF assms] buf by (simp add: bw_content_def)
qed

lemma bw_write_all_any:
  assumes "bw_write_all bs (w, d) = (r, (w', d'))"
  shows "prefix (bw_content w' d') (bw_content w d @ bs) \<and> bw_path w' = bw_path w \<and>
    only_file (bw_path w) d d' \<and> durable d' = durable d \<and>
    prefix (file_bytes d (bw_path w)) (file_bytes d' (bw_path w)) \<and>
    (r = Inr () \<longrightarrow> bw_content w' d' = bw_content w d @ bs)"
proof -
  obtain r1 w1 d1 where fl: "bw_flush_buf (w, d) = (r1, (w1, d1))"
    by (metis surj_pair)
  note f = bw_flush_buf_any [OF fl]
  have direct: "prefix (bw_content w' d') (bw_content w2 d2 @ bs) \<and> bw_path w' = bw_path w2 \<and>
      only_file (bw_path w2) d2 d' \<and> durable d' = durable d2 \<and>
      prefix (file_bytes d2 (bw_path w2)) (file_bytes d' (bw_path w2)) \<and>
      (r = Inr () \<longrightarrow> bw_content w' d' = bw_content w2 d2 @ bs)"
    if "bw_buf w2 = []" "w' = w2" "write_file (bw_path w2) bs d2 = ((r, n), d')" for w2 d2 n
    using write_file_any [OF that(3)] write_file_ok(1,2) [of "bw_path w2" bs d2 n d'] that
    by (auto simp: bw_content_def take_is_prefix)
  have push: "bw_content (w2\<lparr>bw_buf := bw_buf w2 @ bs\<rparr>) d2 = bw_content w2 d2 @ bs" for w2 d2
    by (simp add: bw_content_def)
  consider (fits) "length bs < bw_capacity - length (bw_buf w)"
    | (exact) "\<not> length bs < bw_capacity - length (bw_buf w)" "\<not> bw_capacity - length (bw_buf w) < length bs"
    | (cold) "bw_capacity - length (bw_buf w) < length bs"
    by linarith
  then show ?thesis
  proof cases
    case fits
    with assms have "w' = w\<lparr>bw_buf := bw_buf w @ bs\<rparr>" "d' = d" by (auto simp: bw_write_all_def)
    then show ?thesis using push [of w d] by auto
  next
    case exact
    show ?thesis
    proof (cases "bw_capacity \<le> length bs")
      case True
      with exact have "length (bw_buf w) = 0" unfolding bw_capacity_def by linarith
      then have empty: "bw_buf w = []" by simp
      obtain n where "w' = w" "write_file (bw_path w) bs d = ((r, n), d')"
        using assms exact True by (auto simp: bw_write_all_def st_bind_def split: prod.splits)
      from direct [OF empty this] show ?thesis .
    next
      case False
      with assms exact have "w' = w\<lparr>bw_buf := bw_buf w @ bs\<rparr>" "d' = d"
        by (auto simp: bw_write_all_def st_bind_def)
      then show ?thesis using push [of w d] by auto
    qed
  next
    case cold
    show ?thesis
    proof (cases r1)
      case (Inl e)
      with assms cold fl have "w' = w1" "d' = d1" "r = Inl e"
        by (auto simp: bw_write_all_def st_bind_def)
      then show ?thesis using f by auto
    next
      case (Inr u)
      then have empty: "bw_buf w1 = []" using bw_flush_buf_ok(1) fl by simp
      show ?thesis
      proof (cases "bw_capacity \<le> length bs")
        case True
        obtain n where "w' = w1" "write_file (bw_path w1) bs d1 = ((r, n), d')"
          using assms cold True fl Inr by (auto simp: bw_write_all_def st_bind_def split: prod.splits)
        from direct [OF empty this] show ?thesis
          using f by (auto intro: only_file_trans prefix_order.trans)
      next
        case False
        with assms cold fl Inr have "w' = w1\<lparr>bw_buf := bw_buf w1 @ bs\<rparr>" "d' = d1"
          by (auto simp: bw_write_all_def st_bind_def)
        then show ?thesis using push [of w1 d1] f by auto
      qed
    qed
  qed
qed

lemma bw_drop_content:
  "file_bytes (bw_drop w d) (bw_path w) = bw_content w d \<or>
     prefix (file_bytes (bw_drop w d) (bw_path w)) (bw_content w d)"
  "only_file (bw_path w) d (bw_drop w d)"
proof -
  obtain r w' d' where fl: "bw_flush_buf (w, d) = (r, (w', d'))" by (metis surj_pair)
  then show "only_file (bw_path w) d (bw_drop w d)"
    using bw_flush_buf_any(3) [OF fl] by (simp add: bw_drop_def)
  show "file_bytes (bw_drop w d) (bw_path w) = bw_content w d \<or>
     prefix (file_bytes (bw_drop w d) (bw_path w)) (bw_content w d)"
    using bw_flush_buf_any(1,2) [OF fl] fl
    by (simp add: bw_drop_def) (metis bw_content_def prefixI)
qed

lemma bw_write_all_ok:
  assumes "bw_write_all bs (w, d) = (Inr (), (w', d'))"
  shows "bw_content w' d' = bw_content w d @ bs" "bw_path w' = bw_path w"
    "only_file (bw_path w) d d'" "durable d' = durable d"
  using bw_write_all_any [OF assms] by auto

subsection \<open>Runs without faults\<close>

definition no_faults :: "disk \<Rightarrow> bool" where
  "no_faults d \<longleftrightarrow> (\<forall>n. faults d n = None)"

lemma no_faults_only_file: "no_faults d \<Longrightarrow> only_file p d d' \<Longrightarrow> no_faults d'"
  by (simp add: no_faults_def only_file_def)

lemma no_faults_tick [simp]:
  "no_faults (tick d) = no_faults d" "no_faults (set_file p c d) = no_faults d"
  by (simp_all add: no_faults_def)

lemma write_file_total:
  assumes "no_faults d"
  obtains n d' where "write_file p bs d = ((Inr (), n), d')"
  using assms by (auto simp: write_file_def Let_def no_faults_def fault_now_def)

lemma bw_flush_buf_total:
  assumes "no_faults d"
  obtains w' d' where "bw_flush_buf (w, d) = (Inr (), (w', d'))"
proof -
  have "fst (bw_flush_buf (w, d)) = Inr ()"
    using assms by (simp add: bw_flush_buf_def write_file_def Let_def no_faults_def fault_now_def)
  then show ?thesis using that by (metis prod.collapse)
qed

lemma bw_write_all_total:
  assumes "no_faults d"
  obtains w' d' where "bw_write_all bs (w, d) = (Inr (), (w', d'))"
proof -
  obtain w1 d1 where fl: "bw_flush_buf (w, d) = (Inr (), (w1, d1))"
    by (rule bw_flush_buf_total [OF assms])
  have "no_faults d1" using bw_flush_buf_any(3) [OF fl] assms no_faults_only_file by blast
  then obtain n d2 where w2: "write_file (bw_path w1) bs d1 = ((Inr (), n), d2)"
    by (rule write_file_total)
  obtain n' d3 where w3: "write_file (bw_path w) bs d = ((Inr (), n'), d3)"
    by (rule write_file_total [OF assms])
  have "fst (bw_write_all bs (w, d)) = Inr ()"
    using fl w2 w3 by (simp add: bw_write_all_def st_bind_def)
  then show ?thesis using that by (metis prod.collapse)
qed

text \<open>Concrete disks: an empty one without faults, and one whose system call \<open>k\<close> fails after \<open>n\<close> bytes.\<close>

definition empty_disk :: disk where
  "empty_disk = \<lparr>files = \<lambda>_. None, durable = \<lambda>_. None, faults = \<lambda>_. None, io_count = 0\<rparr>"

definition torn_disk :: "nat \<Rightarrow> nat \<Rightarrow> disk" where
  "torn_disk k n = empty_disk\<lparr>faults := (\<lambda>_. None)(k := Some n)\<rparr>"

lemma file_bytes_concrete [simp]: "file_bytes empty_disk p = []" "file_bytes (torn_disk k n) p = []"
  by (simp_all add: file_bytes_def torn_disk_def empty_disk_def)

lemma no_faults_empty_disk: "no_faults empty_disk"
  by (simp add: no_faults_def empty_disk_def)

end
