(* ===== verification/WalRecord.thy ===== *)
theory WalRecord
  imports Errors
begin

text \<open>
  WAL records (\<open>src/wal/record.rs\<close>): \<open>[len][crc32][op][key_len][key][value_len][value]\<close>. The checksum
  is the function \<open>crc32fast::hash\<close> of a third-party crate; it is the parameter \<open>crc\<close> of every
  definition that uses it, and no theorem assumes anything of it.
\<close>

subsection \<open>Operation types\<close>

datatype op_type = Put | Delete

fun op_code :: "op_type \<Rightarrow> u8" where
  "op_code Put = 1"
| "op_code Delete = 2"

definition op_from_u8 :: "u8 \<Rightarrow> op_type res" where
  "op_from_u8 v =
     (if v = 1 then Inr Put
      else if v = 2 then Inr Delete
      else corrupt (''unknown op type: '' @ dec (unat v)))"

lemma op_from_u8_code [simp]: "op_from_u8 (op_code x) = Inr x"
  by (cases x) (simp_all add: op_from_u8_def)

lemma op_from_u8_Inr: "op_from_u8 v = Inr x \<Longrightarrow> v = op_code x"
  by (auto simp: op_from_u8_def split: if_splits)

subsection \<open>Encoding and decoding\<close>

record wal_record =
  rec_op :: op_type
  rec_key :: bytes
  rec_value :: bytes

type_synonym checksum = "bytes \<Rightarrow> u32"

definition crc_payload :: "wal_record \<Rightarrow> bytes" where
  "crc_payload r =
     op_code (rec_op r) # u32_le (word_of_nat (length (rec_key r))) @ rec_key r @
     u32_le (word_of_nat (length (rec_value r))) @ rec_value r"

definition record_encode :: "checksum \<Rightarrow> wal_record \<Rightarrow> bytes" where
  "record_encode crc r =
     (let payload = crc_payload r; record_len = 4 + length payload
      in u32_le (word_of_nat record_len) @ u32_le (crc payload) @ payload)"

definition record_decode :: "checksum \<Rightarrow> bytes \<Rightarrow> wal_record res" where
  "record_decode crc buf =
     (if length buf < 13
      then corrupt (''WAL record too short: need at least 13 bytes, got '' @ dec (length buf))
      else
        let stored_crc = u32_of_le (slice_of buf 0 4); actual_crc = crc (drop 4 buf) in
        if stored_crc \<noteq> actual_crc then Inl (Fail (ChecksumMismatch stored_crc actual_crc))
        else and_then (op_from_u8 (buf ! 4)) (\<lambda>op.
          let key_len = rd_u32 buf 5; key_start = 9; key_end = key_start + key_len in
          if length buf < key_end + 4 then corrupt ''WAL record truncated in key''
          else
            let key = slice_of buf key_start key_end;
                val_len = rd_u32 buf key_end;
                val_start = key_end + 4;
                val_end = val_start + val_len
            in if length buf < val_end then corrupt ''WAL record truncated in value''
               else Inr \<lparr>rec_op = op, rec_key = key, rec_value = slice_of buf val_start val_end\<rparr>))"

text \<open>A record fits the format when both lengths fit their 32-bit fields, and so does the record
  length in front.\<close>

definition record_fits :: "wal_record \<Rightarrow> bool" where
  "record_fits r \<longleftrightarrow> 13 + length (rec_key r) + length (rec_value r) < 2 ^ 32"

lemma length_crc_payload [size_simps]:
  "length (crc_payload r) = 9 + length (rec_key r) + length (rec_value r)"
  by (simp add: crc_payload_def)

lemma length_record_encode [size_simps]:
  "length (record_encode crc r) = 17 + length (rec_key r) + length (rec_value r)"
  by (simp add: record_encode_def Let_def length_crc_payload)

subsection \<open>Round trip, soundness and rejection\<close>

lemma decode_frame:
  assumes fits: "record_fits r"
  shows "record_decode crc (u32_le stored @ crc_payload r @ trail) =
    (let actual = crc (crc_payload r @ trail)
     in if stored \<noteq> actual then Inl (Fail (ChecksumMismatch stored actual)) else Inr r)"
proof -
  let ?k = "rec_key r" and ?v = "rec_value r"
  let ?buf = "u32_le stored @ crc_payload r @ trail"
  let ?kl = "u32_le (word_of_nat (length ?k))" and ?vl = "u32_le (word_of_nat (length ?v))"
  have bounds: "length ?k < 4294967296" "length ?v < 4294967296"
    using fits by (simp_all add: record_fits_def)
  have shape1: "?buf = (u32_le stored @ [op_code (rec_op r)]) @ ?kl @ (?k @ ?vl @ ?v @ trail)"
    and shape2: "?buf = (u32_le stored @ [op_code (rec_op r)] @ ?kl) @ ?k @ (?vl @ ?v @ trail)"
    and shape3: "?buf = (u32_le stored @ [op_code (rec_op r)] @ ?kl @ ?k) @ ?vl @ (?v @ trail)"
    and shape4: "?buf = (u32_le stored @ [op_code (rec_op r)] @ ?kl @ ?k @ ?vl) @ ?v @ trail"
    by (simp_all add: crc_payload_def)
  have kl: "rd_u32 ?buf 5 = length ?k"
    using bounds by (subst shape1, subst rd_at(2)) (simp_all add: unat_word_of_nat_u32)
  have key: "slice_of ?buf 9 (9 + length ?k) = ?k"
    by (subst shape2, subst slice_at) simp_all
  have vl: "rd_u32 ?buf (9 + length ?k) = length ?v"
    using bounds by (subst shape3, subst rd_at(2)) (simp_all add: unat_word_of_nat_u32)
  have val: "slice_of ?buf (9 + length ?k + 4) (9 + length ?k + 4 + length ?v) = ?v"
    by (subst shape4, subst slice_at) simp_all
  have crc4: "u32_of_le (slice_of ?buf 0 4) = stored" "drop 4 ?buf = crc_payload r @ trail"
    by (simp_all add: slice_of_def codec_simps)
  have op: "?buf ! 4 = op_code (rec_op r)"
    by (simp add: crc_payload_def nth_append)
  have len: "length ?buf = 13 + length ?k + length ?v + length trail"
    by (simp add: length_crc_payload)
  show ?thesis
    unfolding record_decode_def Let_def crc4 op kl key vl val len by simp
qed

lemma record_roundtrip:
  "record_fits r \<Longrightarrow> record_decode crc (drop 4 (record_encode crc r)) = Inr r"
  using decode_frame [of r crc "crc (crc_payload r)" "[]"]
  by (simp add: record_encode_def Let_def)

lemma nth_take_Suc: "n < length xs \<Longrightarrow> take (Suc n) xs = take n xs @ [xs ! n]"
  by (simp add: take_Suc_conv_app_nth)

lemma slice_append_drop: "a \<le> b \<Longrightarrow> slice_of xs a b @ drop b xs = drop a xs"
  by (simp add: slice_of_def flip: drop_drop) (metis add.commute append_take_drop_id drop_drop le_add_diff_inverse2)

lemma rd_u32_slice:
  "pos + 4 \<le> length buf \<Longrightarrow> u32_le (word_of_nat (rd_u32 buf pos)) = slice_of buf pos (pos + 4)"
proof -
  assume len: "pos + 4 \<le> length buf"
  have "rd_u32 buf pos < 256 ^ 4"
    using le_val_bound [of "take 4 (drop pos buf)"] len by (simp add: rd_u32_def)
  then show ?thesis
    using len by (simp add: u32_le_def unat_word_of_nat_u32 rd_u32_def slice_of_def le_bytes_le_val)
qed

text \<open>What \<open>decode\<close> accepts is an encoding: checksum over the rest, then the payload of the record it
  returns, then bytes it ignores.\<close>

lemma decode_sound:
  assumes dec: "record_decode crc buf = Inr r"
  shows "\<exists>trail. buf = u32_le (crc (crc_payload r @ trail)) @ crc_payload r @ trail"
proof -
  from dec have len: "13 \<le> length buf" by (auto simp: record_decode_def split: if_splits)
  from dec len obtain op where crc_ok: "u32_of_le (slice_of buf 0 4) = crc (drop 4 buf)"
    and op: "op_from_u8 (buf ! 4) = Inr op"
    and len1: "9 + rd_u32 buf 5 + 4 \<le> length buf"
    and len2: "9 + rd_u32 buf 5 + 4 + rd_u32 buf (9 + rd_u32 buf 5) \<le> length buf"
    and r: "r = \<lparr>rec_op = op, rec_key = slice_of buf 9 (9 + rd_u32 buf 5),
                 rec_value = slice_of buf (9 + rd_u32 buf 5 + 4)
                   (9 + rd_u32 buf 5 + 4 + rd_u32 buf (9 + rd_u32 buf 5))\<rparr>"
    by (auto simp: record_decode_def Let_def and_then_Inr_iff split: if_splits)
  define e1 where "e1 = 9 + rd_u32 buf 5"
  define e2 where "e2 = e1 + 4 + rd_u32 buf e1"
  have lens: "e1 + 4 \<le> length buf" "e2 \<le> length buf" using len1 len2 by (simp_all add: e1_def e2_def)
  have key: "rec_key r = slice_of buf 9 e1" "length (rec_key r) = rd_u32 buf 5"
    and val: "rec_value r = slice_of buf (e1 + 4) e2" "length (rec_value r) = rd_u32 buf e1"
    and rop: "rec_op r = op"
    using r lens by (simp_all add: e1_def e2_def length_slice)
  have "crc_payload r @ drop e2 buf = drop 4 buf"
  proof -
    have "crc_payload r @ drop e2 buf =
        [buf ! 4] @ slice_of buf 5 9 @ slice_of buf 9 e1 @ slice_of buf e1 (e1 + 4) @ slice_of buf (e1 + 4) e2 @ drop e2 buf"
      unfolding crc_payload_def key(2) val(2)
      using rd_u32_slice [of 5 buf] rd_u32_slice [of e1 buf] len lens
      by (simp add: rop key(1) val(1) op_from_u8_Inr [OF op])
    also have "\<dots> = [buf ! 4] @ drop 5 buf"
      using lens by (simp add: slice_append_drop e1_def e2_def)
    also have "\<dots> = drop 4 buf"
      using len Cons_nth_drop_Suc [of 4 buf] by simp
    finally show ?thesis .
  qed
  moreover have "u32_le (crc (drop 4 buf)) = take 4 buf"
    using rd_u32_slice [of 0 buf] len crc_ok
    by (simp add: slice_of_def u32_of_le_def rd_u32_def)
  ultimately have "buf = u32_le (crc (crc_payload r @ drop e2 buf)) @ crc_payload r @ drop e2 buf"
    by simp
  then show ?thesis by blast
qed

text \<open>A decoder failure is always one of the two errors a caller handles, never a panic.\<close>

lemma decode_error_kind:
  "record_decode crc buf = Inl f \<Longrightarrow>
     (\<exists>msg. f = Fail (Corruption msg)) \<or> (\<exists>a b. f = Fail (ChecksumMismatch a b) \<and> a \<noteq> b)"
  by (auto simp: record_decode_def Let_def op_from_u8_def and_then_def split: if_splits)

lemma decode_rejects_changed_payload:
  assumes "crc tampered \<noteq> crc (crc_payload r)" "9 \<le> length tampered"
  shows "record_decode crc (u32_le (crc (crc_payload r)) @ tampered) =
    Inl (Fail (ChecksumMismatch (crc (crc_payload r)) (crc tampered)))"
  using assms by (simp add: record_decode_def Let_def slice_of_def codec_simps)

end
