(* ===== verification/WalLog.thy ===== *)
theory WalLog
  imports WalRecord Disk
begin

text \<open>
  The log file (\<open>src/wal/writer.rs\<close>): \<open>WALWriter\<close> appends encoded records through a \<open>BufWriter\<close> and
  \<open>flush\<close> makes them durable; \<open>WALReader\<close> iterates over the records of a file and ends at a
  truncated tail.
\<close>

subsection \<open>WALWriter\<close>

definition wal_open :: "path \<Rightarrow> (disk, bufw) prog" where
  "wal_open p = st_bind (open_append p) (\<lambda>_. st_return \<lparr>bw_path = p, bw_buf = []\<rparr>)"

definition wal_append_record :: "checksum \<Rightarrow> wal_record \<Rightarrow> (bufw \<times> disk, unit) prog" where
  "wal_append_record crc r = bw_write_all (record_encode crc r)"

definition wal_append :: "checksum \<Rightarrow> bytes \<Rightarrow> bytes \<Rightarrow> (bufw \<times> disk, unit) prog" where
  "wal_append crc key val =
     bw_write_all (record_encode crc \<lparr>rec_op = Put, rec_key = key, rec_value = val\<rparr>)"

definition wal_flush :: "(bufw \<times> disk, unit) prog" where
  "wal_flush = st_bind bw_flush_buf (\<lambda>_ (w, d).
     (case sync_file (bw_path w) d of (r, d') \<Rightarrow> (r, (w, d'))))"

subsection \<open>WALReader\<close>

text \<open>One call of \<open>next\<close> on the unread bytes: \<open>None\<close> ends the iteration (end of file or a record cut
  short), otherwise a decoded record or its error, and the bytes after it. Read errors of the file
  itself are faults of \<open>read_file\<close>.\<close>

definition wal_next :: "checksum \<Rightarrow> bytes \<Rightarrow> (wal_record res \<times> bytes) option" where
  "wal_next crc rest =
     (if length rest < 4 then None
      else
        let record_len = rd_u32 rest 0; body = drop 4 rest in
        if length body < record_len then None
        else Some (record_decode crc (take record_len body), drop record_len body))"

lemma wal_next_shorter: "wal_next crc rest = Some (r, rest') \<Longrightarrow> length rest' < length rest"
  by (auto simp: wal_next_def Let_def split: if_splits)

function wal_read :: "checksum \<Rightarrow> bytes \<Rightarrow> wal_record res list" where
  "wal_read crc rest =
     (case wal_next crc rest of None \<Rightarrow> [] | Some (r, rest') \<Rightarrow> r # wal_read crc rest')"
  by pat_completeness auto
termination
  by (relation "measure (\<lambda>(crc, rest). length rest)") (auto dest: wal_next_shorter)

declare wal_read.simps [simp del]

text \<open>\<open>reader.collect::<Result<Vec<_>>>()\<close>: the records up to the first error, which is returned.\<close>

fun collect_res :: "'a res list \<Rightarrow> 'a list res" where
  "collect_res [] = Inr []"
| "collect_res (r # rs) = and_then r (\<lambda>x. and_then (collect_res rs) (\<lambda>xs. Inr (x # xs)))"

lemma collect_res_map_Inr [simp]: "collect_res (map Inr xs) = Inr xs"
  by (induction xs) auto

subsection \<open>Reading back what was written\<close>

definition log_bytes :: "checksum \<Rightarrow> wal_record list \<Rightarrow> bytes" where
  "log_bytes crc rs = concat (map (record_encode crc) rs)"

lemma log_bytes_simps [simp]:
  "log_bytes crc [] = []"
  "log_bytes crc (r # rs) = record_encode crc r @ log_bytes crc rs"
  "log_bytes crc (rs @ rs') = log_bytes crc rs @ log_bytes crc rs'"
  by (simp_all add: log_bytes_def)

lemma rd_record_len:
  assumes "record_fits r"
  shows "rd_u32 (record_encode crc r @ ys) 0 = length (record_encode crc r) - 4"
proof -
  define n where "n = 4 + length (crc_payload r)"
  have n: "n < 4294967296" "length (record_encode crc r) = 4 + n"
    using assms by (simp_all add: n_def record_fits_def size_simps)
  have "record_encode crc r @ ys = [] @ u32_le (word_of_nat n) @ (u32_le (crc (crc_payload r)) @ crc_payload r @ ys)"
    by (simp add: record_encode_def Let_def n_def)
  then have "rd_u32 (record_encode crc r @ ys) 0 = unat (word_of_nat n :: u32)"
    using rd_at(2) [of 0 "[]"] by simp
  then show ?thesis
    using n by (simp add: unat_word_of_nat_u32)
qed

lemma wal_next_record:
  assumes "record_fits r"
  shows "wal_next crc (record_encode crc r @ rest) = Some (Inr r, rest)"
  using rd_record_len [OF assms, of crc rest] record_roundtrip [OF assms, of crc]
  by (simp add: wal_next_def Let_def length_record_encode)

lemma wal_read_append:
  assumes "\<forall>r \<in> set rs. record_fits r"
  shows "wal_read crc (log_bytes crc rs @ rest) = map Inr rs @ wal_read crc rest"
  using assms
proof (induction rs)
  case Nil
  then show ?case by simp
next
  case (Cons r rs)
  then show ?case
    by (simp add: wal_read.simps [of crc "record_encode crc r @ _"] wal_next_record)
qed

lemma wal_read_torn:
  assumes "record_fits r" "n < length (record_encode crc r)"
  shows "wal_read crc (take n (record_encode crc r)) = []"
proof -
  have "wal_next crc (take n (record_encode crc r)) = None"
  proof (cases "n < 4")
    case True
    with assms(2) show ?thesis by (simp add: wal_next_def)
  next
    case False
    have "rd_u32 (take n (record_encode crc r)) 0 = rd_u32 (record_encode crc r) 0"
      using False by (simp add: rd_u32_def min_def)
    also have "\<dots> = length (record_encode crc r) - 4"
      using rd_record_len [OF assms(1), of crc "[]"] by simp
    finally show ?thesis using assms(2) False by (simp add: wal_next_def Let_def min_def)
  qed
  then show ?thesis by (simp add: wal_read.simps)
qed

text \<open>A log cut anywhere reads back as the records that are complete in it: recovery loses at most the
  torn tail and never invents a record.\<close>

lemma wal_read_prefix:
  assumes "\<forall>r \<in> set rs. record_fits r"
  shows "\<exists>k \<le> length rs. wal_read crc (take n (log_bytes crc rs)) = map Inr (take k rs) \<and>
           length (log_bytes crc (take k rs)) \<le> n \<and>
           (k < length rs \<longrightarrow> n < length (log_bytes crc (take (Suc k) rs)))"
  using assms
proof (induction rs arbitrary: n)
  case Nil
  show ?case by (simp add: wal_read.simps wal_next_def)
next
  case (Cons r rs)
  show ?case
  proof (cases "n < length (record_encode crc r)")
    case True
    then show ?thesis
      using Cons.prems wal_read_torn [of r n crc] by (intro exI [of _ 0]) simp
  next
    case False
    then obtain k where k: "k \<le> length rs"
      "wal_read crc (take (n - length (record_encode crc r)) (log_bytes crc rs)) = map Inr (take k rs)"
      "length (log_bytes crc (take k rs)) \<le> n - length (record_encode crc r)"
      "k < length rs \<longrightarrow> n - length (record_encode crc r) < length (log_bytes crc (take (Suc k) rs))"
      using Cons.IH [of "n - length (record_encode crc r)"] Cons.prems by auto
    have "wal_read crc (take n (log_bytes crc (r # rs))) = map Inr (take (Suc k) (r # rs))"
      using False k(2) wal_read_append [of "[r]" crc] Cons.prems by simp
    with k False show ?thesis
      by (intro exI [of _ "Suc k"]) (auto split: if_splits)
  qed
qed

subsection \<open>What the writer leaves on disk\<close>

lemma wal_flush_ok:
  assumes "wal_flush (w, d) = (Inr (), (w', d'))"
  shows "bw_buf w' = []" "bw_path w' = bw_path w" "file_bytes d' (bw_path w) = bw_content w d"
    "durable d' (bw_path w) = files d' (bw_path w)" "only_file (bw_path w) d d'"
proof -
  obtain x w1 d1 where x: "bw_flush_buf (w, d) = (x, (w1, d1))" by (metis surj_pair)
  with assms have fl: "bw_flush_buf (w, d) = (Inr (), (w1, d1))"
    and sy: "sync_file (bw_path w1) d1 = (Inr (), d')" and w': "w' = w1"
    by (auto simp: wal_flush_def st_bind_def split: prod.splits sum.splits)
  note any = bw_flush_buf_any [OF fl] and ok = bw_flush_buf_ok [OF fl]
  from sy have d': "d' = (tick d1)\<lparr>durable := (durable d1)(bw_path w1 := files d1 (bw_path w1))\<rparr>"
    by (auto simp: sync_file_def split: option.splits)
  show "bw_buf w' = []" "bw_path w' = bw_path w" using w' any ok by simp_all
  show "file_bytes d' (bw_path w) = bw_content w d"
    using ok d' by (simp add: file_bytes_def)
  show "durable d' (bw_path w) = files d' (bw_path w)"
    using any d' by simp
  show "only_file (bw_path w) d d'"
    using any(2,3) d' by (auto simp: only_file_def)
qed

lemma wal_flush_any:
  assumes "wal_flush (w, d) = (r, (w', d'))"
  shows "bw_content w' d' = bw_content w d" "bw_path w' = bw_path w" "only_file (bw_path w) d d'"
    "prefix (file_bytes d (bw_path w)) (file_bytes d' (bw_path w))"
proof -
  obtain r1 w1 d1 where fl: "bw_flush_buf (w, d) = (r1, (w1, d1))" by (metis surj_pair)
  note any = bw_flush_buf_any [OF fl]
  have w': "w' = w1" and d': "d' = d1 \<or> d' = tick d1 \<or>
      d' = (tick d1)\<lparr>durable := (durable d1)(bw_path w1 := files d1 (bw_path w1))\<rparr>"
    using assms fl by (auto simp: wal_flush_def st_bind_def sync_file_def
        split: sum.splits prod.splits option.splits)
  show "bw_content w' d' = bw_content w d" "bw_path w' = bw_path w"
    "prefix (file_bytes d (bw_path w)) (file_bytes d' (bw_path w))"
    using any w' d' by (auto simp: bw_content_def file_bytes_def)
  show "only_file (bw_path w) d d'"
    using any d' by (auto simp: only_file_def)
qed

lemma wal_append_record_any:
  assumes "wal_append_record crc r (w, d) = (res, (w', d'))"
  shows "prefix (bw_content w' d') (bw_content w d @ record_encode crc r)"
    "bw_path w' = bw_path w" "only_file (bw_path w) d d'"
    "prefix (file_bytes d (bw_path w)) (file_bytes d' (bw_path w))"
    "res = Inr () \<Longrightarrow> bw_content w' d' = bw_content w d @ record_encode crc r"
  using bw_write_all_any assms by (auto simp: wal_append_record_def)

lemma wal_append_is_record:
  "wal_append crc key val = wal_append_record crc \<lparr>rec_op = Put, rec_key = key, rec_value = val\<rparr>"
  by (simp add: wal_append_def wal_append_record_def)

text \<open>Appending one record and flushing it, as \<open>put\<close> and \<open>delete\<close> do when \<open>sync_wal\<close> is set. Whatever
  fails, the file keeps its old content and at most a prefix of the new record.\<close>

definition wal_commit :: "checksum \<Rightarrow> wal_record \<Rightarrow> (bufw \<times> disk, unit) prog" where
  "wal_commit crc r = st_bind (wal_append_record crc r) (\<lambda>_. wal_flush)"

lemma wal_commit_any:
  assumes run: "wal_commit crc r (w, d) = (res, (w', d'))" and buf: "bw_buf w = []"
  shows "prefix (file_bytes d (bw_path w)) (file_bytes d' (bw_path w))"
    "prefix (file_bytes d' (bw_path w)) (file_bytes d (bw_path w) @ record_encode crc r)"
    "only_file (bw_path w) d d'" "bw_path w' = bw_path w"
    "res = Inr () \<Longrightarrow> bw_buf w' = [] \<and>
       files d' (bw_path w) = Some (file_bytes d (bw_path w) @ record_encode crc r) \<and>
       durable d' (bw_path w) = files d' (bw_path w)"
proof -
  obtain r1 w1 d1 where ap: "wal_append_record crc r (w, d) = (r1, (w1, d1))" by (metis surj_pair)
  note a = wal_append_record_any [OF ap]
  have old: "bw_content w d = file_bytes d (bw_path w)" using buf by (simp add: bw_content_def)
  have step: "r1 = Inr () \<and> wal_flush (w1, d1) = (res, (w', d')) \<or>
      r1 \<noteq> Inr () \<and> res = r1 \<and> w' = w1 \<and> d' = d1"
    using run ap by (auto simp: wal_commit_def st_bind_def split: sum.splits)
  then have mid: "bw_content w' d' = bw_content w1 d1 \<and> bw_path w' = bw_path w \<and>
      only_file (bw_path w) d1 d' \<and> prefix (file_bytes d1 (bw_path w)) (file_bytes d' (bw_path w))"
    using wal_flush_any [of w1 d1 res w' d'] a(2) by auto
  show "bw_path w' = bw_path w" "only_file (bw_path w) d d'"
    using mid a(3) by (auto intro: only_file_trans)
  show "prefix (file_bytes d (bw_path w)) (file_bytes d' (bw_path w))"
    using mid a(4) by (auto intro: prefix_order.trans)
  have "prefix (file_bytes d' (bw_path w)) (bw_content w' d')"
    using mid by (simp add: bw_content_def)
  then show "prefix (file_bytes d' (bw_path w)) (file_bytes d (bw_path w) @ record_encode crc r)"
    using mid a(1) old by (auto intro: prefix_order.trans)
  show "bw_buf w' = [] \<and> files d' (bw_path w) = Some (file_bytes d (bw_path w) @ record_encode crc r) \<and>
       durable d' (bw_path w) = files d' (bw_path w)" if "res = Inr ()"
  proof -
    from step that have r1: "r1 = Inr ()" and fl: "wal_flush (w1, d1) = (Inr (), (w', d'))" by auto
    note ok = wal_flush_ok [OF fl]
    have "file_bytes d' (bw_path w) = file_bytes d (bw_path w) @ record_encode crc r"
      using ok(3) a(2,5) r1 old by simp
    moreover have "record_encode crc r \<noteq> []"
      using length_record_encode [of crc r] by auto
    ultimately show ?thesis
      using ok a(2) by (auto simp: file_bytes_def split: option.splits)
  qed
qed

text \<open>Crash consistency of a commit: whatever I/O call fails, reading the file back gives the old
  records, or the old records and the new one; after \<open>Ok\<close> it is the latter.\<close>

lemma wal_read_between:
  assumes fits: "\<forall>x \<in> set (rs @ [r]). record_fits x"
    and "prefix (log_bytes crc rs) bs" "prefix bs (log_bytes crc rs @ record_encode crc r)"
  shows "wal_read crc bs = map Inr rs \<or> wal_read crc bs = map Inr (rs @ [r])"
proof -
  obtain xs where xs: "bs = log_bytes crc rs @ xs" using assms(2) by (auto elim: prefixE)
  then have "prefix xs (record_encode crc r)" using assms(3) by simp
  then have tk: "xs = take (length xs) (record_encode crc r)" by (auto elim: prefixE)
  have eq: "wal_read crc bs = map Inr rs @ wal_read crc xs"
    using fits xs wal_read_append [of rs crc xs] by simp
  show ?thesis
  proof (cases "length xs < length (record_encode crc r)")
    case True
    then have "wal_read crc xs = []"
      using wal_read_torn [of r "length xs" crc] fits tk by simp
    with eq show ?thesis by simp
  next
    case False
    then have "xs = record_encode crc r" using tk by simp
    moreover have "wal_read crc (record_encode crc r) = [Inr r]"
      using wal_read_append [of "[r]" crc "[]"] fits by (simp add: wal_read.simps [of crc "[]"] wal_next_def)
    ultimately show ?thesis using eq by simp
  qed
qed

end
