(* ===== verification/Block.thy ===== *)
theory Block
  imports Errors Ordered
begin

text \<open>
  SSTable data blocks (\<open>src/sstable/block.rs\<close>): sorted entries, serialized with prefix compression
  against the previous key.
\<close>

subsection \<open>Building a block\<close>

record block =
  entries :: "entry list"
  encoded_size :: nat

definition entry_header :: nat where
  "entry_header = 8"

definition block_new :: block where
  "block_new = \<lparr>entries = [], encoded_size = 0\<rparr>"

definition block_add :: "bytes \<Rightarrow> bytes \<Rightarrow> block \<Rightarrow> block" where
  "block_add key val b =
     b\<lparr>encoded_size := encoded_size b + (entry_header + length key + length val),
       entries := entries b @ [(key, val)]\<rparr>"

definition block_is_empty :: "block \<Rightarrow> bool" where
  "block_is_empty b \<longleftrightarrow> entries b = []"

definition block_len :: "block \<Rightarrow> nat" where
  "block_len b = length (entries b)"

definition estimated_size :: "block \<Rightarrow> nat" where
  "estimated_size b = encoded_size b"

definition last_key :: "block \<Rightarrow> bytes res" where
  "last_key b = (if entries b = [] then Inl (Panic ''block is empty'') else Inr (fst (last (entries b))))"

subsection \<open>Serialization\<close>

definition prefix_shared_len :: "bytes \<Rightarrow> bytes \<Rightarrow> nat" where
  "prefix_shared_len a b = length (takeWhile (\<lambda>(x, y). x = y) (zip a b))"

fun encode_entries :: "bytes \<Rightarrow> entry list \<Rightarrow> bytes" where
  "encode_entries prev_key [] = []"
| "encode_entries prev_key ((key, val) # es) =
     (let shared = prefix_shared_len prev_key key; suffix = drop shared key
      in u16_le (word_of_nat shared) @ u16_le (word_of_nat (length suffix)) @ suffix @
         u32_le (word_of_nat (length val)) @ val @ encode_entries key es)"

definition block_encode :: "block \<Rightarrow> bytes" where
  "block_encode b = u32_le (word_of_nat (length (entries b))) @ encode_entries [] (entries b)"

subsection \<open>Deserialization\<close>

text \<open>The loop of \<open>Block::decode\<close>: \<open>n\<close> entries still to read at \<open>offset\<close>. Every length is checked
  before it is used, except \<open>shared\<close>: slicing the previous key past its end panics.\<close>

fun decode_entries :: "nat \<Rightarrow> bytes \<Rightarrow> nat \<Rightarrow> bytes \<Rightarrow> (entry list \<times> nat) res" where
  "decode_entries 0 buf offset prev_key = Inr ([], offset)"
| "decode_entries (Suc n) buf offset prev_key =
     (if length buf < offset + 4 then corrupt ''block truncated in prefix header''
      else
        let shared = rd_u16 buf offset;
            suffix_len = rd_u16 buf (offset + 2);
            offset1 = offset + 4
        in if length buf < offset1 + suffix_len then corrupt ''block truncated in key suffix''
           else if length prev_key < shared then Inl (Panic ''range end index out of range for slice'')
           else
             let key = take shared prev_key @ slice_of buf offset1 (offset1 + suffix_len);
                 offset2 = offset1 + suffix_len
             in if length buf < offset2 + 4 then corrupt ''block truncated in value_len''
                else
                  let value_len = rd_u32 buf offset2; offset3 = offset2 + 4 in
                  if length buf < offset3 + value_len then corrupt ''block truncated in value''
                  else
                    let val = slice_of buf offset3 (offset3 + value_len) in
                    and_then (decode_entries n buf (offset3 + value_len) key)
                      (\<lambda>(es, end). Inr ((key, val) # es, end)))"

definition block_decode :: "bytes \<Rightarrow> block res" where
  "block_decode buf =
     (if length buf < 4 then corrupt ''block too short''
      else and_then (decode_entries (rd_u32 buf 0) buf 4 [])
             (\<lambda>(es, offset). Inr \<lparr>entries = es, encoded_size = offset - 4\<rparr>))"

subsection \<open>Sizes\<close>

definition entry_size :: "entry \<Rightarrow> nat" where
  "entry_size e = entry_header + length (fst e) + length (snd e)"

text \<open>Blocks as they are built: \<open>encoded_size\<close> counts every entry at full length.\<close>

definition block_wf :: "block \<Rightarrow> bool" where
  "block_wf b \<longleftrightarrow> encoded_size b = sum_list (map entry_size (entries b))"

lemma block_wf_new [simp]: "block_wf block_new"
  by (simp add: block_wf_def block_new_def)

lemma entries_new [simp]: "entries block_new = []"
  by (simp add: block_new_def)

lemma block_wf_add [simp]: "block_wf b \<Longrightarrow> block_wf (block_add key val b)"
  by (simp add: block_wf_def block_add_def entry_size_def)

lemma entries_add [simp]: "entries (block_add key val b) = entries b @ [(key, val)]"
  by (simp add: block_add_def)

lemma estimated_size_zero: "block_wf b \<Longrightarrow> estimated_size b = 0 \<longleftrightarrow> entries b = []"
  by (cases "entries b") (auto simp: block_wf_def estimated_size_def entry_size_def entry_header_def)

lemma prefix_shared_len_le: "prefix_shared_len a b \<le> length a" "prefix_shared_len a b \<le> length b"
proof -
  have "length (takeWhile (\<lambda>(x, y). x = y) (zip a b)) \<le> length (zip a b)"
    by (rule length_takeWhile_le)
  then show "prefix_shared_len a b \<le> length a" "prefix_shared_len a b \<le> length b"
    by (simp_all add: prefix_shared_len_def)
qed

lemma prefix_shared_take: "take (prefix_shared_len a b) a = take (prefix_shared_len a b) b"
proof (induction a arbitrary: b)
  case (Cons x a)
  then show ?case by (cases b) (auto simp: prefix_shared_len_def)
qed (simp add: prefix_shared_len_def)

lemma prefix_shared_maximal:
  "prefix_shared_len a b < length a \<Longrightarrow> prefix_shared_len a b < length b \<Longrightarrow>
     a ! prefix_shared_len a b \<noteq> b ! prefix_shared_len a b"
proof (induction a arbitrary: b)
  case (Cons x a)
  then show ?case by (cases b) (auto simp: prefix_shared_len_def)
qed simp

lemma length_encode_entries:
  "length (encode_entries prev es) \<le> sum_list (map entry_size es)"
  "es \<noteq> [] \<Longrightarrow> 8 \<le> length (encode_entries prev es)"
proof (induction prev es rule: encode_entries.induct)
  case (2 prev key val es)
  { case 1 show ?case
      using "2.IH"(1) [OF refl refl] prefix_shared_len_le(2) [of prev key]
      by (simp add: Let_def entry_size_def entry_header_def) }
  { case 2 show ?case by (simp add: Let_def) }
qed simp_all

lemma length_block_encode:
  "block_wf b \<Longrightarrow> length (block_encode b) \<le> 4 + estimated_size b"
  using length_encode_entries(1) [of "[]" "entries b"]
  by (simp add: block_encode_def block_wf_def estimated_size_def)

subsection \<open>Round trip\<close>

text \<open>What the on-disk widths can hold: 16-bit key parts, 32-bit values and entry counts.\<close>

definition entry_fits :: "entry \<Rightarrow> bool" where
  "entry_fits e \<longleftrightarrow> length (fst e) < 2 ^ 16 \<and> length (snd e) < 2 ^ 32"

definition block_fits :: "entry list \<Rightarrow> bool" where
  "block_fits es \<longleftrightarrow> length es < 2 ^ 32 \<and> (\<forall>e \<in> set es. entry_fits e)"

lemma decode_encode_entries:
  assumes "\<forall>e \<in> set es. entry_fits e" "offset = length xs"
  shows "decode_entries (length es) (xs @ encode_entries prev es @ ys) offset prev =
    Inr (es, offset + length (encode_entries prev es))"
  using assms
proof (induction prev es arbitrary: xs offset rule: encode_entries.induct)
  case (1 prev)
  then show ?case by simp
next
  case (2 prev key val es)
  define shared where "shared = prefix_shared_len prev key"
  define suffix where "suffix = drop shared key"
  define rest where "rest = encode_entries key es"
  let ?a = "u16_le (word_of_nat shared)" and ?b = "u16_le (word_of_nat (length suffix))"
  let ?c = "u32_le (word_of_nat (length val))"
  let ?buf = "xs @ ?a @ ?b @ suffix @ ?c @ val @ rest @ ys"
  have le: "shared \<le> length prev" "shared \<le> length key" "take shared prev = take shared key"
    unfolding shared_def by (rule prefix_shared_len_le prefix_shared_take)+
  have fits: "shared < 65536" "length suffix < 65536" "length val < 4294967296"
    using "2.prems"(1) le(2) by (auto simp: entry_fits_def suffix_def)
  have enc: "xs @ encode_entries prev ((key, val) # es) @ ys = ?buf"
    by (simp add: Let_def shared_def suffix_def rest_def)
  have r1: "rd_u16 ?buf offset = shared"
    using "2.prems"(2) fits by (subst rd_at(1)) (simp_all add: unat_word_of_nat_u16)
  have r2: "rd_u16 ?buf (offset + 2) = length suffix"
    using "2.prems"(2) fits rd_at(1) [of "offset + 2" "xs @ ?a" "word_of_nat (length suffix)"]
    by (simp add: unat_word_of_nat_u16)
  have r3: "slice_of ?buf (offset + 4) (offset + 4 + length suffix) = suffix"
    using "2.prems"(2) slice_at [of "offset + 4" "xs @ ?a @ ?b" _ suffix] by simp
  have r4: "rd_u32 ?buf (offset + 4 + length suffix) = length val"
    using "2.prems"(2) fits rd_at(2) [of "offset + 4 + length suffix" "xs @ ?a @ ?b @ suffix" "word_of_nat (length val)"]
    by (simp add: unat_word_of_nat_u32)
  have r5: "slice_of ?buf (offset + 4 + length suffix + 4) (offset + 4 + length suffix + 4 + length val) = val"
    using "2.prems"(2) slice_at [of "offset + 4 + length suffix + 4" "xs @ ?a @ ?b @ suffix @ ?c" _ val] by (simp add: add_ac)
  have key: "take shared prev @ suffix = key"
    using le by (simp add: suffix_def)
  have IH: "decode_entries (length es) ?buf (offset + 4 + length suffix + 4 + length val) key =
      Inr (es, offset + 4 + length suffix + 4 + length val + length rest)"
    using "2.IH" [OF refl refl, of "offset + 4 + length suffix + 4 + length val" "xs @ ?a @ ?b @ suffix @ ?c @ val"] "2.prems"
    by (simp add: rest_def)
  have len: "length ?buf = offset + 4 + length suffix + 4 + length val + length rest + length ys"
    using "2.prems"(2) by simp
  have dec: "decode_entries (Suc (length es)) ?buf offset prev =
      Inr ((key, val) # es, offset + 4 + length suffix + 4 + length val + length rest)"
    unfolding decode_entries.simps Let_def r1 r2 r3 r4 r5 key IH len
    using le(1) by simp
  show ?case
    unfolding enc using dec
    by (simp add: Let_def shared_def [symmetric] suffix_def [symmetric] rest_def [symmetric])
qed

lemma block_roundtrip:
  assumes "block_fits (entries b)"
  shows "block_decode (block_encode b @ ys) =
    Inr \<lparr>entries = entries b, encoded_size = length (block_encode b) - 4\<rparr>"
proof -
  let ?n = "u32_le (word_of_nat (length (entries b)))"
  have n: "rd_u32 (block_encode b @ ys) 0 = length (entries b)"
    using assms rd_at(2) [of 0 "[]" "word_of_nat (length (entries b))" "encode_entries [] (entries b) @ ys"]
    by (simp add: block_encode_def block_fits_def unat_word_of_nat_u32)
  have "decode_entries (length (entries b)) (?n @ encode_entries [] (entries b) @ ys) 4 [] =
      Inr (entries b, 4 + length (encode_entries [] (entries b)))"
    using assms by (intro decode_encode_entries) (simp_all add: block_fits_def)
  with n show ?thesis
    by (simp add: block_decode_def block_encode_def)
qed

end
