(* ===== verification/Bloom.thy ===== *)
theory Bloom
  imports Errors
begin

unbundle bit_operations_syntax

text \<open>
  Bloom filters (\<open>src/filter/bloom.rs\<close>): two seeded FNV-1a hashes combined by double hashing in
  wrapping 32-bit arithmetic, over a bit array of 64-bit words.
\<close>

subsection \<open>Hashing\<close>

fun fnv1a_with_seed :: "bytes \<Rightarrow> u32 \<Rightarrow> u32" where
  "fnv1a_with_seed [] h = h"
| "fnv1a_with_seed (b # key) h = fnv1a_with_seed key ((h XOR ucast b) * 0x01000193)"

definition fnv1a :: "bytes \<Rightarrow> u32" where
  "fnv1a key = fnv1a_with_seed key 0x811c9dc5"

definition double_hash :: "bytes \<Rightarrow> u32 \<times> u32" where
  "double_hash key =
     (let h1 = fnv1a key; h2 = fnv1a_with_seed key (0x811c9dc5 XOR 0x01000193)
      in (h1, h2 * 2 + 1))"

text \<open>\<open>optimal_hashes\<close> rounds \<open>bits_per_key as f64 * LN_2\<close> to the nearest integer. \<open>LN_2\<close> is the double
  \<open>6243314768165359 / 2 ^ 53\<close>; the model rounds the exact product. The double product differs from
  it by a relative \<open>2 ^ -53\<close>, which cannot move the rounding below the clamp at 30, since up to
  \<open>bits_per_key = 44\<close> no product is within \<open>2 ^ -10\<close> of a half-integer.\<close>

definition optimal_hashes :: "nat \<Rightarrow> nat" where
  "optimal_hashes bits_per_key =
     max 1 (min 30 ((2 * (bits_per_key * 6243314768165359) + 2 ^ 53) div 2 ^ 54))"

text \<open>Position of probe \<open>i\<close>: \<open>h1.wrapping_add((i as u32).wrapping_mul(h2)) as usize % num_bits\<close>.\<close>

definition probe :: "u32 \<times> u32 \<Rightarrow> nat \<Rightarrow> nat \<Rightarrow> nat" where
  "probe h num_bits i = unat (fst h + word_of_nat i * snd h) mod num_bits"

subsection \<open>The filter\<close>

record bloom =
  bits :: "u64 list"
  num_hashes :: nat
  num_bits :: nat

definition set_bit_at :: "u64 list \<Rightarrow> nat \<Rightarrow> u64 list" where
  "set_bit_at ws pos = ws[pos div 64 := (ws ! (pos div 64)) OR push_bit (pos mod 64) 1]"

definition test_bit_at :: "u64 list \<Rightarrow> nat \<Rightarrow> bool" where
  "test_bit_at ws pos \<longleftrightarrow> (ws ! (pos div 64)) AND push_bit (pos mod 64) 1 \<noteq> 0"

definition add_key :: "nat \<Rightarrow> nat \<Rightarrow> bytes \<Rightarrow> u64 list \<Rightarrow> u64 list" where
  "add_key hashes nbits key ws =
     (let h = double_hash key in fold (\<lambda>i ws. set_bit_at ws (probe h nbits i)) [0..<hashes] ws)"

definition bloom_build :: "bytes list \<Rightarrow> nat \<Rightarrow> bloom" where
  "bloom_build keys bits_per_key =
     (let n = length keys;
          nbits = max (n * bits_per_key) 64;
          num_words = (nbits + 63) div 64;
          hashes = optimal_hashes bits_per_key
      in \<lparr>bits = fold (add_key hashes nbits) keys (replicate num_words 0),
          num_hashes = hashes, num_bits = nbits\<rparr>)"

text \<open>The probe loop of \<open>may_contain\<close>. Indexing \<open>bits\<close> past its end panics; that can only happen to a
  filter read from a damaged file.\<close>

fun probe_all :: "bloom \<Rightarrow> u32 \<times> u32 \<Rightarrow> nat list \<Rightarrow> bool res" where
  "probe_all f h [] = Inr True"
| "probe_all f h (i # is) =
     (let pos = probe h (num_bits f) i in
      if length (bits f) \<le> pos div 64 then Inl (Panic ''index out of bounds'')
      else if \<not> test_bit_at (bits f) pos then Inr False
      else probe_all f h is)"

definition may_contain :: "bloom \<Rightarrow> bytes \<Rightarrow> bool res" where
  "may_contain f key =
     (if num_bits f = 0 then Inr False
      else probe_all f (double_hash key) [0..<num_hashes f])"

subsection \<open>Serialization\<close>

definition bloom_encode :: "bloom \<Rightarrow> bytes" where
  "bloom_encode f =
     u32_le (word_of_nat (num_hashes f)) @ u32_le (word_of_nat (num_bits f)) @
     u32_le (word_of_nat (length (bits f))) @ concat (map u64_le (bits f))"

definition bloom_decode :: "bytes \<Rightarrow> bloom res" where
  "bloom_decode data =
     (if length data < 12 then corrupt ''bloom filter too short''
      else
        let hashes = rd_u32 data 0;
            nbits = rd_u32 data 4;
            num_words = rd_u32 data 8;
            expected = 12 + num_words * 8
        in if length data < expected then corrupt ''bloom filter data truncated''
           else Inr \<lparr>bits = map (\<lambda>i. rd_u64 data (12 + i * 8)) [0..<num_words],
                     num_hashes = hashes, num_bits = nbits\<rparr>)"

subsection \<open>Bit arrays\<close>

lemma length_set_bit_at [simp]: "length (set_bit_at ws pos) = length ws"
  by (simp add: set_bit_at_def)

lemma test_bit_at_bit: "pos div 64 < length ws \<Longrightarrow> test_bit_at ws pos \<longleftrightarrow> bit (ws ! (pos div 64)) (pos mod 64)"
  by (simp add: test_bit_at_def and_exp_eq_0_iff_not_bit push_bit_eq_mult)

lemma test_set_bit_at:
  assumes "p div 64 < length ws" "q div 64 < length ws"
  shows "test_bit_at (set_bit_at ws p) q \<longleftrightarrow> p = q \<or> test_bit_at ws q"
proof -
  have eq: "p = q \<longleftrightarrow> p div 64 = q div 64 \<and> p mod 64 = q mod 64"
    by (metis div_mult_mod_eq)
  have m: "q mod 64 < 64" by simp
  show ?thesis
    using assms m
    by (auto simp: test_bit_at_bit eq set_bit_at_def nth_list_update bit_or_iff bit_push_bit_iff bit_1_iff bit_exp_iff)
qed

lemma probe_less: "0 < n \<Longrightarrow> probe h n i < n"
  by (simp add: probe_def)

text \<open>\<open>covers ws nbits\<close>: every position below \<open>nbits\<close> has a word.\<close>

definition covers :: "u64 list \<Rightarrow> nat \<Rightarrow> bool" where
  "covers ws nbits \<longleftrightarrow> nbits \<le> 64 * length ws"

lemma covers_div: "covers ws nbits \<Longrightarrow> p < nbits \<Longrightarrow> p div 64 < length ws"
  by (simp add: covers_def less_mult_imp_div_less mult.commute)

lemma length_fold_set_bits [simp]:
  "length (fold (\<lambda>i ws. set_bit_at ws (g i)) is ws) = length ws"
  by (induction "is" arbitrary: ws) auto

lemma length_add_key [simp]: "length (add_key hs nbits key ws) = length ws"
  by (simp add: add_key_def Let_def)

lemma length_fold_add_key [simp]: "length (fold (add_key hs nbits) keys ws) = length ws"
  by (induction keys arbitrary: ws) auto

lemma test_fold_set_bits:
  assumes "covers ws nbits" "0 < nbits" "q < nbits"
  shows "test_bit_at (fold (\<lambda>i ws. set_bit_at ws (probe h nbits i)) is ws) q \<longleftrightarrow>
    test_bit_at ws q \<or> (\<exists>i \<in> set is. probe h nbits i = q)"
  using assms
proof (induction "is" arbitrary: ws)
  case Nil
  then show ?case by simp
next
  case (Cons i "is")
  have "covers (set_bit_at ws (probe h nbits i)) nbits"
    using Cons.prems(1) by (simp add: covers_def)
  then show ?case
    using Cons by (auto simp: test_set_bit_at covers_div probe_less)
qed

lemma test_fold_add_key:
  assumes "covers ws nbits" "0 < nbits" "q < nbits"
  shows "test_bit_at (fold (add_key hs nbits) keys ws) q \<longleftrightarrow>
    test_bit_at ws q \<or> (\<exists>key \<in> set keys. \<exists>i < hs. probe (double_hash key) nbits i = q)"
  using assms
proof (induction keys arbitrary: ws)
  case Nil
  then show ?case by simp
next
  case (Cons key keys)
  have "covers (add_key hs nbits key ws) nbits"
    using Cons.prems(1) by (simp add: covers_def)
  then have "test_bit_at (fold (add_key hs nbits) (key # keys) ws) q \<longleftrightarrow>
      test_bit_at (add_key hs nbits key ws) q \<or>
      (\<exists>key \<in> set keys. \<exists>i < hs. probe (double_hash key) nbits i = q)"
    using Cons.IH Cons.prems by simp
  also have "test_bit_at (add_key hs nbits key ws) q \<longleftrightarrow>
      test_bit_at ws q \<or> (\<exists>i < hs. probe (double_hash key) nbits i = q)"
    using test_fold_set_bits [OF Cons.prems, of "double_hash key" "[0..<hs]"]
    by (auto simp: add_key_def Let_def)
  finally show ?case by auto
qed

subsection \<open>Membership\<close>

lemma probe_all_Inr:
  assumes "covers (bits f) (num_bits f)" "0 < num_bits f"
  shows "probe_all f h is = Inr (\<forall>i \<in> set is. test_bit_at (bits f) (probe h (num_bits f) i))"
  using assms
  by (induction "is") (auto simp: Let_def covers_div probe_less not_le not_less leD)

lemma bloom_build_fields:
  "num_bits (bloom_build keys bpk) = max (length keys * bpk) 64"
  "num_hashes (bloom_build keys bpk) = optimal_hashes bpk"
  "length (bits (bloom_build keys bpk)) = (max (length keys * bpk) 64 + 63) div 64"
  by (simp_all add: bloom_build_def Let_def)

lemma bloom_build_covers: "covers (bits (bloom_build keys bpk)) (num_bits (bloom_build keys bpk))"
  unfolding covers_def bloom_build_fields by (simp add: max_def)

lemma optimal_hashes_range: "1 \<le> optimal_hashes b" "optimal_hashes b \<le> 30"
  by (simp_all add: optimal_hashes_def)

text \<open>The built filter answers exactly: every probe of the key is a probe of some added key.\<close>

lemma may_contain_build:
  "may_contain (bloom_build keys bpk) key = Inr (\<forall>i < optimal_hashes bpk.
     \<exists>k \<in> set keys. \<exists>j < optimal_hashes bpk.
       probe (double_hash k) (max (length keys * bpk) 64) j =
       probe (double_hash key) (max (length keys * bpk) 64) i)"
proof -
  let ?f = "bloom_build keys bpk" and ?n = "max (length keys * bpk) 64"
  have pos: "0 < num_bits ?f" by (simp add: bloom_build_fields)
  have zero: "covers (replicate ((?n + 63) div 64) 0) ?n" by (simp add: covers_def max_def)
  have bit: "test_bit_at (bits ?f) q \<longleftrightarrow>
      (\<exists>k \<in> set keys. \<exists>j < optimal_hashes bpk. probe (double_hash k) ?n j = q)" if "q < ?n" for q
  proof -
    have "test_bit_at (bits ?f) q \<longleftrightarrow> test_bit_at (replicate ((?n + 63) div 64) 0) q \<or>
        (\<exists>k \<in> set keys. \<exists>j < optimal_hashes bpk. probe (double_hash k) ?n j = q)"
      using test_fold_add_key [OF zero _ that, of "optimal_hashes bpk" keys]
      by (simp add: bloom_build_def Let_def)
    moreover have "\<not> test_bit_at (replicate ((?n + 63) div 64) 0) q"
      using covers_div [OF zero that] by (simp add: test_bit_at_def)
    ultimately show ?thesis by simp
  qed
  have "may_contain ?f key = Inr (\<forall>i < optimal_hashes bpk. test_bit_at (bits ?f) (probe (double_hash key) ?n i))"
    using pos probe_all_Inr [OF bloom_build_covers pos]
    by (auto simp: may_contain_def bloom_build_fields)
  then show ?thesis
    by (simp add: bit probe_less)
qed

lemma no_false_negative:
  "key \<in> set keys \<Longrightarrow> may_contain (bloom_build keys bpk) key = Inr True"
  by (auto simp: may_contain_build)

lemma empty_filter_rejects: "may_contain (bloom_build [] bpk) key = Inr False"
  using optimal_hashes_range(1) [of bpk] by (auto simp: may_contain_build Suc_le_eq)

subsection \<open>Round trip\<close>

definition bloom_fits :: "bloom \<Rightarrow> bool" where
  "bloom_fits f \<longleftrightarrow> num_hashes f < 2 ^ 32 \<and> num_bits f < 2 ^ 32 \<and> length (bits f) < 2 ^ 32"

lemma length_concat_u64 [simp]: "length (concat (map u64_le ws)) = 8 * length ws"
  by (induction ws) auto

lemma take_concat_u64: "take (8 * i) (concat (map u64_le ws)) = concat (map u64_le (take i ws))"
proof (induction ws arbitrary: i)
  case (Cons w ws)
  then show ?case by (cases i) auto
qed simp

lemma drop_concat_u64: "drop (8 * i) (concat (map u64_le ws)) = concat (map u64_le (drop i ws))"
proof (induction ws arbitrary: i)
  case (Cons w ws)
  then show ?case by (cases i) auto
qed simp

lemma rd_u64_word:
  assumes "i < length ws" "length xs = 12"
  shows "rd_u64 (xs @ concat (map u64_le ws) @ ys) (12 + i * 8) = ws ! i"
proof -
  have "concat (map u64_le ws) =
      concat (map u64_le (take i ws)) @ u64_le (ws ! i) @ concat (map u64_le (drop (Suc i) ws))"
    using id_take_nth_drop [OF assms(1)] by (metis concat.simps(2) concat_append list.simps(9) map_append)
  then show ?thesis
    using assms rd_at(3) [of "12 + i * 8" "xs @ concat (map u64_le (take i ws))" "ws ! i"]
    by simp
qed

lemma bloom_roundtrip:
  assumes "bloom_fits f"
  shows "bloom_decode (bloom_encode f @ ys) = Inr f"
proof -
  let ?a = "u32_le (word_of_nat (num_hashes f))" and ?b = "u32_le (word_of_nat (num_bits f))"
  let ?c = "u32_le (word_of_nat (length (bits f)))" and ?d = "concat (map u64_le (bits f))"
  let ?data = "?a @ ?b @ ?c @ ?d @ ys"
  have fits: "num_hashes f < 4294967296" "num_bits f < 4294967296" "length (bits f) < 4294967296"
    using assms by (simp_all add: bloom_fits_def)
  have r: "rd_u32 ?data 0 = num_hashes f" "rd_u32 ?data 4 = num_bits f" "rd_u32 ?data 8 = length (bits f)"
    using fits rd_at(2) [of 0 "[]"] rd_at(2) [of 4 ?a] rd_at(2) [of 8 "?a @ ?b"]
    by (simp_all add: unat_word_of_nat_u32)
  have words: "map (\<lambda>i. rd_u64 ?data (12 + i * 8)) [0..<length (bits f)] = bits f"
    using rd_u64_word [of _ "bits f" "?a @ ?b @ ?c" ys] by (intro nth_equalityI) simp_all
  show ?thesis
    using r words by (simp add: bloom_decode_def bloom_encode_def Let_def)
qed

end
