(* ===== verification/Cache.thy ===== *)
theory Cache
  imports Block "HOL-Library.AList"
begin

text \<open>
  The LRU block cache (\<open>src/cache/block_cache.rs\<close>): a \<open>HashMap\<close> from cache keys to blocks with their
  sizes, a \<open>VecDeque\<close> of keys with the most recent one in front, and a running byte count. The
  contract a reader relies on is the locale \<open>block_store\<close>, interpreted on this cache.
\<close>

subsection \<open>The contract\<close>

text \<open>A store may forget blocks but never returns one that was not added under the same key.\<close>

locale block_store =
  fixes find :: "'k \<Rightarrow> 'c \<Rightarrow> 'b option \<times> 'c"
    and add :: "'k \<Rightarrow> 'b \<Rightarrow> 'c \<Rightarrow> 'c"
    and contents :: "'c \<Rightarrow> 'k \<Rightarrow> 'b option"
    and inv :: "'c \<Rightarrow> bool"
  assumes find_result: "inv c \<Longrightarrow> fst (find k c) = contents c k"
    and find_contents: "inv c \<Longrightarrow> contents (snd (find k c)) = contents c"
    and find_inv: "inv c \<Longrightarrow> inv (snd (find k c))"
    and add_same: "inv c \<Longrightarrow> contents (add k b c) k = Some b"
    and add_other: "inv c \<Longrightarrow> k' \<noteq> k \<Longrightarrow> contents (add k b c) k' = Some x \<Longrightarrow> contents c k' = Some x"
    and add_inv: "inv c \<Longrightarrow> inv (add k b c)"
begin

text \<open>\<open>coherent truth c\<close>: what the store holds agrees with the data it caches.\<close>

definition coherent :: "('k \<Rightarrow> 'b \<Rightarrow> bool) \<Rightarrow> 'c \<Rightarrow> bool" where
  "coherent truth c \<longleftrightarrow> inv c \<and> (\<forall>k b. contents c k = Some b \<longrightarrow> truth k b)"

lemma coherent_find: "coherent truth c \<Longrightarrow> coherent truth (snd (find k c))"
  by (simp add: coherent_def find_contents find_inv)

lemma coherent_hit: "coherent truth c \<Longrightarrow> fst (find k c) = Some b \<Longrightarrow> truth k b"
  by (simp add: coherent_def find_result)

lemma coherent_add: "coherent truth c \<Longrightarrow> truth k b \<Longrightarrow> coherent truth (add k b c)"
  unfolding coherent_def by (metis add_inv add_other add_same option.inject)

lemma coherent_mono: "coherent truth c \<Longrightarrow> (\<And>k b. truth k b \<Longrightarrow> truth' k b) \<Longrightarrow> coherent truth' c"
  by (simp add: coherent_def)

end

subsection \<open>The cache\<close>

record cache_key =
  ck_sst_id :: u64
  ck_block_idx :: nat

record block_cache =
  cmap :: "(cache_key \<times> block \<times> nat) list"
  order :: "cache_key list"
  capacity :: nat
  current_size :: nat

definition cache_new :: "nat \<Rightarrow> block_cache" where
  "cache_new cap = \<lparr>cmap = [], order = [], capacity = cap, current_size = 0\<rparr>"

definition cache_get :: "cache_key \<Rightarrow> block_cache \<Rightarrow> block option \<times> block_cache" where
  "cache_get key c =
     (case map_of (cmap c) key of
        Some (b, sz) \<Rightarrow> (Some b, c\<lparr>order := key # filter (\<lambda>k. k \<noteq> key) (order c)\<rparr>)
      | None \<Rightarrow> (None, c))"

text \<open>\<open>while self.current_size + block_size > self.capacity && !self.order.is_empty()\<close>\<close>

definition evict_one :: "block_cache \<Rightarrow> block_cache" where
  "evict_one c =
     (let evict_key = last (order c); c1 = c\<lparr>order := butlast (order c)\<rparr>
      in case map_of (cmap c1) evict_key of
           None \<Rightarrow> c1
         | Some (_, evicted_size) \<Rightarrow>
             c1\<lparr>cmap := AList.delete evict_key (cmap c1),
                current_size := current_size c1 - evicted_size\<rparr>)"

lemma order_evict_one [simp]: "order (evict_one c) = butlast (order c)"
  by (simp add: evict_one_def Let_def split: option.splits)

lemma capacity_evict_one [simp]: "capacity (evict_one c) = capacity c"
  by (simp add: evict_one_def Let_def split: option.splits)

function evict :: "nat \<Rightarrow> block_cache \<Rightarrow> block_cache" where
  "evict block_size c =
     (if capacity c < current_size c + block_size \<and> order c \<noteq> []
      then evict block_size (evict_one c) else c)"
  by pat_completeness auto
termination
  by (relation "measure (\<lambda>(s, c). length (order c))") auto

declare evict.simps [simp del]

definition remove_old :: "cache_key \<Rightarrow> block_cache \<Rightarrow> block_cache" where
  "remove_old key c =
     (case map_of (cmap c) key of
        None \<Rightarrow> c
      | Some (_, old_size) \<Rightarrow>
          c\<lparr>cmap := AList.delete key (cmap c), current_size := current_size c - old_size,
            order := filter (\<lambda>k. k \<noteq> key) (order c)\<rparr>)"

definition cache_put :: "cache_key \<Rightarrow> block \<Rightarrow> block_cache \<Rightarrow> block_cache" where
  "cache_put key b c =
     (let block_size = estimated_size b;
          c1 = evict block_size (remove_old key c)
      in c1\<lparr>current_size := current_size c1 + block_size,
            cmap := AList.update key (b, block_size) (cmap c1),
            order := key # order c1\<rparr>)"

definition cache_size :: "block_cache \<Rightarrow> nat" where
  "cache_size c = current_size c"

definition cache_len :: "block_cache \<Rightarrow> nat" where
  "cache_len c = length (cmap c)"

definition cache_is_empty :: "block_cache \<Rightarrow> bool" where
  "cache_is_empty c \<longleftrightarrow> cmap c = []"

subsection \<open>Invariant\<close>

definition total_size :: "(cache_key \<times> block \<times> nat) list \<Rightarrow> nat" where
  "total_size m = sum_list (map (\<lambda>(k, b, sz). sz) m)"

definition cache_inv :: "block_cache \<Rightarrow> bool" where
  "cache_inv c \<longleftrightarrow> distinct (map fst (cmap c)) \<and> distinct (order c) \<and>
     set (order c) = fst ` set (cmap c) \<and> current_size c = total_size (cmap c) \<and>
     (\<forall>k e. map_of (cmap c) k = Some e \<longrightarrow> snd e = estimated_size (fst e))"

lemma cache_invD:
  assumes "cache_inv c"
  shows "distinct (map fst (cmap c))" "distinct (order c)" "set (order c) = fst ` set (cmap c)"
    "current_size c = total_size (cmap c)"
    "map_of (cmap c) k = Some e \<Longrightarrow> snd e = estimated_size (fst e)"
  using assms unfolding cache_inv_def by blast+

definition cache_contents :: "block_cache \<Rightarrow> cache_key \<Rightarrow> block option" where
  "cache_contents c k = map_option fst (map_of (cmap c) k)"

lemma total_size_delete:
  "distinct (map fst m) \<Longrightarrow> map_of m k = Some (b, sz) \<Longrightarrow>
     total_size m = total_size (AList.delete k m) + sz"
proof (induction m)
  case (Cons e m)
  obtain k' b' sz' where e: "e = (k', b', sz')" by (metis surj_pair)
  show ?case
  proof (cases "k' = k")
    case True
    have "k \<notin> fst ` set m" using Cons.prems(1) e True by simp
    then have "AList.delete k m = m" by (simp add: AList.delete_idem)
    then show ?thesis using Cons.prems(2) e True by (simp add: total_size_def)
  next
    case False
    then show ?thesis using Cons e by (simp add: total_size_def)
  qed
qed simp

lemma total_size_update_new:
  "k \<notin> fst ` set m \<Longrightarrow> total_size (AList.update k (b, sz) m) = total_size m + sz"
  by (induction m) (auto simp: total_size_def)

lemma keys_delete: "fst ` set (AList.delete k m) = fst ` set m - {k}"
  by (metis AList.delete_keys set_map set_removeAll)

text \<open>Removing one entry together with its key in the order list keeps the invariant; both the
  replacement of a present key and an eviction are instances.\<close>

lemma cache_inv_remove:
  assumes inv: "cache_inv c" and k: "map_of (cmap c) k = Some (b, sz)"
    and ord: "distinct ord'" "set ord' = set (order c) - {k}"
  shows "cache_inv (c\<lparr>cmap := AList.delete k (cmap c), current_size := current_size c - sz, order := ord'\<rparr>)"
proof -
  have "current_size c - sz = total_size (AList.delete k (cmap c))"
    using inv total_size_delete [OF _ k] by (simp add: cache_inv_def)
  then show ?thesis
    using inv ord by (auto simp: cache_inv_def distinct_delete keys_delete AList.delete_conv' split: if_splits)
qed

lemma cache_inv_new [simp]: "cache_inv (cache_new cap)"
  by (simp add: cache_inv_def cache_new_def total_size_def)

lemma cache_inv_order_iff: "cache_inv c \<Longrightarrow> k \<in> set (order c) \<longleftrightarrow> map_of (cmap c) k \<noteq> None"
  by (auto simp: cache_inv_def map_of_eq_None_iff)

lemma remove_old_spec:
  assumes inv: "cache_inv c"
  shows "cache_inv (remove_old key c)" "capacity (remove_old key c) = capacity c"
    "order (remove_old key c) = filter (\<lambda>k. k \<noteq> key) (order c)"
    "map_of (cmap (remove_old key c)) = (map_of (cmap c))(key := None)"
proof -
  show "cache_inv (remove_old key c)"
  proof (cases "map_of (cmap c) key")
    case (Some e)
    obtain b sz where e: "e = (b, sz)" by (cases e)
    have "cache_inv (c\<lparr>cmap := AList.delete key (cmap c), current_size := current_size c - sz,
        order := filter (\<lambda>k. k \<noteq> key) (order c)\<rparr>)"
      using inv Some e by (intro cache_inv_remove) (auto simp: cache_inv_def)
    then show ?thesis using Some e by (simp add: remove_old_def)
  qed (use inv in \<open>simp add: remove_old_def\<close>)
  have "map_of (cmap c) key = None \<Longrightarrow> filter (\<lambda>k. k \<noteq> key) (order c) = order c"
    using cache_inv_order_iff [OF inv, of key] by (auto intro: filter_True)
  then show "order (remove_old key c) = filter (\<lambda>k. k \<noteq> key) (order c)"
    by (auto simp: remove_old_def split: option.splits)
  show "capacity (remove_old key c) = capacity c"
    "map_of (cmap (remove_old key c)) = (map_of (cmap c))(key := None)"
    by (auto simp: remove_old_def AList.delete_conv' fun_upd_idem split: option.splits)
qed

lemma evict_one_spec:
  assumes inv: "cache_inv c" and ne: "order c \<noteq> []"
  shows "cache_inv (evict_one c)"
    "map_of (cmap (evict_one c)) = (map_of (cmap c))(last (order c) := None)"
proof -
  obtain b sz where k: "map_of (cmap c) (last (order c)) = Some (b, sz)"
    using cache_inv_order_iff [OF inv, of "last (order c)"] ne by auto
  have eq: "evict_one c = c\<lparr>cmap := AList.delete (last (order c)) (cmap c),
      current_size := current_size c - sz, order := butlast (order c)\<rparr>"
    using k by (simp add: evict_one_def Let_def)
  have dist: "distinct (butlast (order c) @ [last (order c)])"
    using inv ne by (simp add: cache_inv_def)
  have "set (order c) = set (butlast (order c) @ [last (order c)])"
    using ne by (metis append_butlast_last_id)
  with dist have "set (butlast (order c)) = set (order c) - {last (order c)}" by auto
  with dist show "cache_inv (evict_one c)"
    unfolding eq by (intro cache_inv_remove [OF inv k]) auto
  show "map_of (cmap (evict_one c)) = (map_of (cmap c))(last (order c) := None)"
    by (simp add: eq AList.delete_conv')
qed

subsection \<open>Eviction removes least recently used entries only as needed\<close>

text \<open>Bytes held by a list of keys.\<close>

definition bytes_of :: "block_cache \<Rightarrow> cache_key list \<Rightarrow> nat" where
  "bytes_of c ks = sum_list (map (\<lambda>k. case map_of (cmap c) k of None \<Rightarrow> 0 | Some (b, sz) \<Rightarrow> sz) ks)"

lemma bytes_of_cong:
  "(\<And>k. k \<in> set ks \<Longrightarrow> map_of (cmap c) k = map_of (cmap c') k) \<Longrightarrow> bytes_of c ks = bytes_of c' ks"
  unfolding bytes_of_def by (metis (no_types, lifting) map_eq_conv)

lemma total_size_keys:
  "distinct (map fst m) \<Longrightarrow>
     total_size m = sum_list (map (\<lambda>k. case map_of m k of None \<Rightarrow> 0 | Some (b, sz) \<Rightarrow> sz) (map fst m))"
proof (induction m)
  case (Cons e m)
  obtain k b sz where e: "e = (k, b, sz)" by (metis surj_pair)
  have "map (\<lambda>k'. case map_of (e # m) k' of None \<Rightarrow> 0 | Some (b, sz) \<Rightarrow> sz) (map fst m) =
      map (\<lambda>k'. case map_of m k' of None \<Rightarrow> 0 | Some (b, sz) \<Rightarrow> sz) (map fst m)"
    using Cons.prems e by (intro map_cong) auto
  then have "sum_list (map (\<lambda>k'. case map_of (e # m) k' of None \<Rightarrow> 0 | Some (b, sz) \<Rightarrow> sz) (map fst (e # m))) =
      sz + total_size m"
    using Cons by (simp only: list.map sum_list.Cons) (simp add: e)
  then show ?case by (simp add: total_size_def e)
qed (simp add: total_size_def)

lemma current_size_bytes_of:
  assumes "cache_inv c"
  shows "current_size c = bytes_of c (order c)"
proof -
  let ?f = "\<lambda>k. case map_of (cmap c) k of None \<Rightarrow> 0 | Some (b, sz) \<Rightarrow> sz"
  have "current_size c = sum_list (map ?f (map fst (cmap c)))"
    using assms total_size_keys by (simp add: cache_inv_def)
  also have "\<dots> = sum ?f (fst ` set (cmap c))"
    using assms by (subst sum_list_distinct_conv_sum_set) (simp_all add: cache_inv_def)
  also have "\<dots> = sum_list (map ?f (order c))"
    using assms by (subst sum_list_distinct_conv_sum_set) (simp_all add: cache_inv_def)
  finally show ?thesis by (simp add: bytes_of_def)
qed

lemma evict_spec:
  assumes "cache_inv c"
  shows "cache_inv (evict sz c) \<and> capacity (evict sz c) = capacity c \<and>
    (\<exists>n \<le> length (order c). order (evict sz c) = take n (order c) \<and>
       (n = 0 \<or> bytes_of c (take n (order c)) + sz \<le> capacity c) \<and>
       (\<forall>m. n < m \<longrightarrow> m \<le> length (order c) \<longrightarrow> capacity c < bytes_of c (take m (order c)) + sz)) \<and>
    (\<forall>k. map_of (cmap (evict sz c)) k = (if k \<in> set (order (evict sz c)) then map_of (cmap c) k else None))"
  using assms
proof (induction sz c rule: evict.induct)
  case (1 sz c)
  show ?case
  proof (cases "capacity c < current_size c + sz \<and> order c \<noteq> []")
    case False
    then have ev: "evict sz c = c" by (subst evict.simps) (simp only: if_False)
    have "order c = [] \<or> bytes_of c (order c) + sz \<le> capacity c"
      using False current_size_bytes_of [OF "1.prems"] by auto
    moreover have "map_of (cmap c) k = (if k \<in> set (order c) then map_of (cmap c) k else None)" for k
      using cache_inv_order_iff [OF "1.prems", of k] by auto
    ultimately show ?thesis
      using "1.prems" by (auto simp: ev intro!: exI [of _ "length (order c)"])
  next
    case True
    let ?c1 = "evict_one c"
    have ev: "evict sz c = evict sz ?c1" using True by (subst evict.simps) simp
    note one = evict_one_spec [OF "1.prems"]
    have inv1: "cache_inv ?c1" using one True by blast
    have dist: "distinct (butlast (order c) @ [last (order c)])"
      using "1.prems" True by (simp add: cache_inv_def)
    have same: "map_of (cmap ?c1) k = map_of (cmap c) k" if "k \<in> set (butlast (order c))" for k
    proof -
      have "k \<noteq> last (order c)" using that dist by auto
      with one True show ?thesis by simp
    qed
    have take_bl: "take m (butlast (order c)) = take m (order c)" if "m \<le> length (order c) - 1" for m
      using that by (simp add: butlast_conv_take min_absorb1)
    have bytes: "bytes_of ?c1 (take m (butlast (order c))) = bytes_of c (take m (order c))"
      if "m \<le> length (order c) - 1" for m
      using that same by (subst take_bl [symmetric]) (auto intro!: bytes_of_cong dest: in_set_takeD)
    from "1.IH" [OF True inv1] obtain n where IH: "cache_inv (evict sz ?c1)"
      "capacity (evict sz ?c1) = capacity c" "n \<le> length (order c) - 1"
      "order (evict sz ?c1) = take n (butlast (order c))"
      "n = 0 \<or> bytes_of ?c1 (take n (butlast (order c))) + sz \<le> capacity c"
      "\<forall>m. n < m \<longrightarrow> m \<le> length (order c) - 1 \<longrightarrow>
         capacity c < bytes_of ?c1 (take m (butlast (order c))) + sz"
      "\<forall>k. map_of (cmap (evict sz ?c1)) k =
         (if k \<in> set (order (evict sz ?c1)) then map_of (cmap ?c1) k else None)"
      by auto
    have over: "capacity c < bytes_of c (take m (order c)) + sz" if "n < m" "m \<le> length (order c)" for m
    proof (cases "m = length (order c)")
      case True
      then show ?thesis
        using \<open>capacity c < current_size c + sz \<and> _\<close> current_size_bytes_of [OF "1.prems"] by simp
    next
      case False
      with that have le: "m \<le> length (order c) - 1" by simp
      from IH(6) that(1) le have "capacity c < bytes_of ?c1 (take m (butlast (order c))) + sz" by blast
      with bytes [OF le] show ?thesis by simp
    qed
    have maps: "map_of (cmap (evict sz ?c1)) k =
        (if k \<in> set (order (evict sz ?c1)) then map_of (cmap c) k else None)" for k
      using IH(4,7) same by (auto dest: in_set_takeD)
    show ?thesis
      unfolding ev
      using IH(1-5) over maps bytes [of n] take_bl [of n] by (auto intro!: exI [of _ n])
  qed
qed

subsection \<open>Insertion and lookup\<close>

lemma cache_get_spec:
  assumes inv: "cache_inv c"
  shows "fst (cache_get key c) = cache_contents c key"
    "cache_contents (snd (cache_get key c)) = cache_contents c"
    "cache_inv (snd (cache_get key c))"
    "cache_contents c key \<noteq> None \<Longrightarrow>
       order (snd (cache_get key c)) = key # filter (\<lambda>k. k \<noteq> key) (order c)"
  using inv cache_inv_order_iff [OF inv, of key]
  by (auto simp: cache_get_def cache_contents_def cache_inv_def fun_eq_iff split: option.splits)

text \<open>\<open>put\<close> keeps, behind the new key, the longest most-recent part of the order that leaves room.\<close>

lemma cache_put_spec:
  fixes key :: cache_key
  assumes inv: "cache_inv c"
  defines "rest \<equiv> filter (\<lambda>k. k \<noteq> key) (order c)"
  shows "cache_inv (cache_put key b c)" "capacity (cache_put key b c) = capacity c"
    "\<exists>n \<le> length rest. order (cache_put key b c) = key # take n rest \<and>
       (n = 0 \<or> bytes_of c (take n rest) + estimated_size b \<le> capacity c) \<and>
       (\<forall>m. n < m \<longrightarrow> m \<le> length rest \<longrightarrow> capacity c < bytes_of c (take m rest) + estimated_size b)"
    "cache_contents (cache_put key b c) k' =
       (if k' = key then Some b
        else if k' \<in> set (order (cache_put key b c)) then cache_contents c k' else None)"
proof -
  note ro = remove_old_spec [OF inv, of key]
  let ?c0 = "remove_old key c" and ?sz = "estimated_size b"
  let ?c1 = "evict ?sz ?c0"
  note ev = evict_spec [OF ro(1), of ?sz]
  have inv1: "cache_inv ?c1" using ev by blast
  have bytes: "bytes_of ?c0 (take m rest) = bytes_of c (take m rest)" for m
    by (intro bytes_of_cong) (auto simp: ro(4) rest_def dest: in_set_takeD)
  obtain n where n: "n \<le> length rest" "order ?c1 = take n rest"
    "n = 0 \<or> bytes_of c (take n rest) + ?sz \<le> capacity c"
    "\<forall>m. n < m \<longrightarrow> m \<le> length rest \<longrightarrow> capacity c < bytes_of c (take m rest) + ?sz"
    using ev bytes by (auto simp: ro rest_def)
  have put: "cmap (cache_put key b c) = AList.update key (b, ?sz) (cmap ?c1)"
    "order (cache_put key b c) = key # order ?c1"
    "current_size (cache_put key b c) = current_size ?c1 + ?sz"
    "capacity (cache_put key b c) = capacity ?c1"
    by (simp_all add: cache_put_def Let_def)
  have fresh: "key \<notin> set (order ?c1)"
    using n(2) by (auto simp: rest_def dest: in_set_takeD)
  then have fresh': "key \<notin> fst ` set (cmap ?c1)"
    using cache_invD(3) [OF inv1] by simp
  have maps: "map_of (cmap ?c1) k = (if k \<in> set (order ?c1) then map_of (cmap ?c0) k else None)" for k
    using ev by blast
  show "cache_inv (cache_put key b c)"
    unfolding cache_inv_def put
  proof (intro conjI allI impI)
    show "distinct (map fst (AList.update key (b, ?sz) (cmap ?c1)))"
      using cache_invD(1) [OF inv1] by (simp add: distinct_update)
    show "distinct (key # order ?c1)" using fresh cache_invD(2) [OF inv1] by simp
    show "set (key # order ?c1) = fst ` set (AList.update key (b, ?sz) (cmap ?c1))"
      using cache_invD(3) [OF inv1] by (simp add: dom_update)
    show "current_size ?c1 + ?sz = total_size (AList.update key (b, ?sz) (cmap ?c1))"
      using cache_invD(4) [OF inv1] fresh' by (simp add: total_size_update_new)
  next
    fix k e
    assume "map_of (AList.update key (b, ?sz) (cmap ?c1)) k = Some e"
    then show "snd e = estimated_size (fst e)"
      using cache_invD(5) [OF inv1, of k e] by (auto simp: update_conv' split: if_splits)
  qed
  show "capacity (cache_put key b c) = capacity c" using put ev ro by simp
  show "\<exists>n \<le> length rest. order (cache_put key b c) = key # take n rest \<and>
       (n = 0 \<or> bytes_of c (take n rest) + ?sz \<le> capacity c) \<and>
       (\<forall>m. n < m \<longrightarrow> m \<le> length rest \<longrightarrow> capacity c < bytes_of c (take m rest) + ?sz)"
    using n put by auto
  show "cache_contents (cache_put key b c) k' =
       (if k' = key then Some b
        else if k' \<in> set (order (cache_put key b c)) then cache_contents c k' else None)"
    by (simp add: cache_contents_def put update_conv' maps ro(4))
qed

lemma bytes_of_contents:
  assumes "cache_inv c"
  shows "bytes_of c ks =
    sum_list (map (\<lambda>k. case cache_contents c k of None \<Rightarrow> 0 | Some b \<Rightarrow> estimated_size b) ks)"
proof -
  have "(case map_of (cmap c) k of None \<Rightarrow> 0 | Some (b, sz) \<Rightarrow> sz) =
      (case cache_contents c k of None \<Rightarrow> 0 | Some b \<Rightarrow> estimated_size b)" for k
    using assms by (auto simp: cache_contents_def cache_inv_def split: option.splits)
  then show ?thesis by (simp add: bytes_of_def)
qed

lemma cache_put_size:
  assumes "cache_inv c"
  shows "current_size (cache_put key b c) \<le> max (capacity c) (estimated_size b)"
proof -
  note p = cache_put_spec [OF assms, of key b]
  let ?c' = "cache_put key b c"
  obtain n where n: "order ?c' = key # take n (filter (\<lambda>k. k \<noteq> key) (order c))"
    "n = 0 \<or> bytes_of c (take n (filter (\<lambda>k. k \<noteq> key) (order c))) + estimated_size b \<le> capacity c"
    using p(3) by blast
  define kept where "kept = take n (filter (\<lambda>k. k \<noteq> key) (order c))"
  have ne: "k \<noteq> key" if "k \<in> set kept" for k
    using that by (auto simp: kept_def dest: in_set_takeD)
  note ord = n(1) [folded kept_def]
  have "cache_contents ?c' k = cache_contents c k" if "k \<in> set kept" for k
    using that ne [OF that] p(4) [of k] unfolding ord by simp
  then have "bytes_of ?c' kept = bytes_of c kept"
    unfolding bytes_of_contents [OF p(1)] bytes_of_contents [OF assms]
    by (intro arg_cong [where f = sum_list] map_cong) auto
  moreover have "bytes_of ?c' (order ?c') = estimated_size b + bytes_of ?c' kept"
    unfolding bytes_of_contents [OF p(1)] ord using p(4) [of key] by simp
  ultimately show ?thesis
    using current_size_bytes_of [OF p(1)] n(2)
    by (cases "n = 0") (auto simp: kept_def bytes_of_def)
qed

interpretation bc: block_store cache_get cache_put cache_contents cache_inv
proof unfold_locales
  fix c k b k' x
  assume inv: "cache_inv c"
  show "fst (cache_get k c) = cache_contents c k"
    "cache_contents (snd (cache_get k c)) = cache_contents c" "cache_inv (snd (cache_get k c))"
    by (rule cache_get_spec [OF inv])+
  show "cache_contents (cache_put k b c) k = Some b" by (simp add: cache_put_spec(4) [OF inv])
  show "cache_inv (cache_put k b c)" by (rule cache_put_spec [OF inv])
  show "cache_contents c k' = Some x" if "k' \<noteq> k" "cache_contents (cache_put k b c) k' = Some x"
    using that by (simp add: cache_put_spec(4) [OF inv] split: if_splits)
qed

end
