(* ===== verification/Manifest.thy ===== *)
theory Manifest
  imports Errors Disk
begin

text \<open>
  The manifest (\<open>src/manifest.rs\<close>): which SSTable files make up each level, with its binary format
  and its file operations. \<open>src/version.rs\<close> holds an unused placeholder of the same shape.
\<close>

subsection \<open>Data model\<close>

record sst_meta =
  meta_id :: u64
  meta_level :: nat
  min_key :: bytes
  max_key :: bytes

definition sst_meta_new :: "u64 \<Rightarrow> nat \<Rightarrow> bytes \<Rightarrow> bytes \<Rightarrow> sst_meta" where
  "sst_meta_new i lvl mn mx = \<lparr>meta_id = i, meta_level = lvl, min_key = mn, max_key = mx\<rparr>"

record manifest =
  levels :: "sst_meta list list"

definition manifest_new :: manifest where
  "manifest_new = \<lparr>levels = []\<rparr>"

text \<open>\<open>Version\<close> of \<open>src/version.rs\<close>: the same field, only ever created empty.\<close>

record version =
  v_levels :: "sst_meta list list"

definition version_new :: version where
  "version_new = \<lparr>v_levels = []\<rparr>"

definition add_sst :: "nat \<Rightarrow> sst_meta \<Rightarrow> manifest \<Rightarrow> manifest" where
  "add_sst lvl m mf =
     (let ls = levels mf @ replicate (Suc lvl - length (levels mf)) []
      in mf\<lparr>levels := ls[lvl := ls ! lvl @ [m]]\<rparr>)"

fun remove_from :: "u64 \<Rightarrow> sst_meta list list \<Rightarrow> bool \<times> sst_meta list list" where
  "remove_from i [] = (False, [])"
| "remove_from i (l # ls) =
     (let l' = filter (\<lambda>m. meta_id m \<noteq> i) l in
      if length l' < length l then (True, l' # ls)
      else (case remove_from i ls of (found, ls') \<Rightarrow> (found, l' # ls')))"

definition remove_sst :: "u64 \<Rightarrow> manifest \<Rightarrow> bool \<times> manifest" where
  "remove_sst i mf = (case remove_from i (levels mf) of (found, ls) \<Rightarrow> (found, mf\<lparr>levels := ls\<rparr>))"

definition ssts_at_level :: "manifest \<Rightarrow> nat \<Rightarrow> sst_meta list" where
  "ssts_at_level mf lvl = (if lvl < length (levels mf) then levels mf ! lvl else [])"

definition total_ssts :: "manifest \<Rightarrow> nat" where
  "total_ssts mf = sum_list (map length (levels mf))"

subsection \<open>Encoding\<close>

definition magic :: bytes where
  "magic = [75, 86, 68, 66]"

definition format_version :: u32 where
  "format_version = 1"

definition field :: "bytes \<Rightarrow> bytes" where
  "field bs = u32_le (word_of_nat (length bs)) @ bs"

definition encode_meta :: "sst_meta \<Rightarrow> bytes" where
  "encode_meta m = u64_le (meta_id m) @ field (min_key m) @ field (max_key m)"

definition encode_level :: "sst_meta list \<Rightarrow> bytes" where
  "encode_level l = u32_le (word_of_nat (length l)) @ concat (map encode_meta l)"

definition manifest_encode :: "manifest \<Rightarrow> bytes" where
  "manifest_encode mf =
     magic @ u32_le format_version @ u32_le (word_of_nat (length (levels mf))) @
     concat (map encode_level (levels mf))"

subsection \<open>Decoding\<close>

definition decode_bytes :: "string \<Rightarrow> bytes \<Rightarrow> nat \<Rightarrow> (bytes \<times> nat) res" where
  "decode_bytes name data pos =
     (if length data < pos + 4 then corrupt (''manifest truncated at '' @ name @ '' len'')
      else
        let len = rd_u32 data pos; pos1 = pos + 4 in
        if length data < pos1 + len then corrupt (''manifest truncated at '' @ name @ '' data'')
        else Inr (slice_of data pos1 (pos1 + len), pos1 + len))"

text \<open>The decoded \<open>level\<close> is the placeholder 0; no caller sets it afterwards.\<close>

definition decode_sst_meta :: "bytes \<Rightarrow> nat \<Rightarrow> (sst_meta \<times> nat) res" where
  "decode_sst_meta data p =
     (if length data < p + 8 then corrupt ''manifest truncated at sst id''
      else
        let i = rd_u64 data p in
        and_then (decode_bytes ''min_key'' data (p + 8)) (\<lambda>(mn, p1).
        and_then (decode_bytes ''max_key'' data p1) (\<lambda>(mx, p2).
          Inr (\<lparr>meta_id = i, meta_level = 0, min_key = mn, max_key = mx\<rparr>, p2))))"

fun decode_ssts :: "nat \<Rightarrow> bytes \<Rightarrow> nat \<Rightarrow> (sst_meta list \<times> nat) res" where
  "decode_ssts 0 data pos = Inr ([], pos)"
| "decode_ssts (Suc n) data pos =
     and_then (decode_sst_meta data pos) (\<lambda>(m, p).
     and_then (decode_ssts n data p) (\<lambda>(ms, p'). Inr (m # ms, p')))"

definition decode_level :: "bytes \<Rightarrow> nat \<Rightarrow> (sst_meta list \<times> nat) res" where
  "decode_level data pos =
     (if length data < pos + 4 then corrupt ''manifest truncated at level count''
      else decode_ssts (rd_u32 data pos) data (pos + 4))"

fun decode_levels :: "nat \<Rightarrow> bytes \<Rightarrow> nat \<Rightarrow> (sst_meta list list \<times> nat) res" where
  "decode_levels 0 data pos = Inr ([], pos)"
| "decode_levels (Suc n) data pos =
     and_then (decode_level data pos) (\<lambda>(l, p).
     and_then (decode_levels n data p) (\<lambda>(ls, p'). Inr (l # ls, p')))"

definition manifest_decode :: "bytes \<Rightarrow> manifest res" where
  "manifest_decode data =
     (if length data < 12 then corrupt ''manifest too short (need at least 12 bytes)''
      else if slice_of data 0 4 \<noteq> magic
      then corrupt (''invalid manifest magic: '' @ debug_bytes (slice_of data 0 4))
      else
        let version = u32_of_le (slice_of data 4 8) in
        if version \<noteq> format_version
        then corrupt (''unsupported manifest version: '' @ dec (unat version))
        else and_then (decode_levels (rd_u32 data 8) data 12) (\<lambda>(ls, pos). Inr \<lparr>levels = ls\<rparr>))"

subsection \<open>Files\<close>

definition manifest_load :: "path \<Rightarrow> (disk, manifest) prog" where
  "manifest_load p d =
     (if \<not> exists_file p d then (Inr manifest_new, d)
      else st_bind (read_file p) (\<lambda>data. st_lift (manifest_decode data)) d)"

definition manifest_save :: "path \<Rightarrow> manifest \<Rightarrow> (disk, unit) prog" where
  "manifest_save p mf =
     st_bind (create_file p) (\<lambda>_.
     st_bind (\<lambda>d. case write_file p (manifest_encode mf) d of ((r, n), d') \<Rightarrow> (r, d')) (\<lambda>_.
     sync_file p))"

subsection \<open>Updates\<close>

lemma ssts_at_level_add:
  "ssts_at_level (add_sst lvl m mf) l =
     (if l = lvl then ssts_at_level mf lvl @ [m] else ssts_at_level mf l)"
  by (auto simp: add_sst_def ssts_at_level_def Let_def nth_append nth_list_update)

lemma sum_list_update_append:
  "i < length ls \<Longrightarrow> sum_list (map length (ls[i := ls ! i @ [m]])) = Suc (sum_list (map length ls))"
  by (induction ls arbitrary: i) (auto split: nat.splits)

lemma total_ssts_add: "total_ssts (add_sst lvl m mf) = Suc (total_ssts mf)"
  by (simp add: total_ssts_def add_sst_def Let_def sum_list_update_append)

lemma filter_length_less: "length (filter P xs) < length xs \<longleftrightarrow> (\<exists>x \<in> set xs. \<not> P x)"
  by (metis length_filter_less length_filter_le filter_True linorder_not_less nat_neq_iff)

lemma remove_from_not_found:
  "\<not> fst (remove_from i ls) \<Longrightarrow> snd (remove_from i ls) = ls \<and> (\<forall>l \<in> set ls. \<forall>m \<in> set l. meta_id m \<noteq> i)"
proof (induction ls)
  case (Cons l ls)
  have none: "\<forall>m \<in> set l. meta_id m \<noteq> i"
    using Cons.prems by (auto simp: Let_def filter_length_less split: if_splits)
  then have "filter (\<lambda>m. meta_id m \<noteq> i) l = l" by (simp add: filter_True)
  with Cons none show ?case by (auto simp: Let_def split: prod.splits)
qed simp

text \<open>When no two levels share an id, one call removes every entry with that id.\<close>

definition ids_of :: "sst_meta list \<Rightarrow> u64 set" where
  "ids_of l = meta_id ` set l"

definition level_ids_disjoint :: "manifest \<Rightarrow> bool" where
  "level_ids_disjoint mf \<longleftrightarrow> sorted_wrt (\<lambda>l l'. ids_of l \<inter> ids_of l' = {}) (levels mf)"

lemma filter_id_absent: "i \<notin> ids_of l \<Longrightarrow> filter (\<lambda>m. meta_id m \<noteq> i) l = l"
  by (auto simp: ids_of_def intro!: filter_True)

lemma remove_from_filter:
  assumes "sorted_wrt (\<lambda>l l'. ids_of l \<inter> ids_of l' = {}) ls"
  shows "remove_from i ls =
    ((\<exists>l \<in> set ls. i \<in> ids_of l), map (filter (\<lambda>m. meta_id m \<noteq> i)) ls)"
  using assms
proof (induction ls)
  case (Cons l ls)
  then have IH: "remove_from i ls = ((\<exists>l \<in> set ls. i \<in> ids_of l), map (filter (\<lambda>m. meta_id m \<noteq> i)) ls)"
    by simp
  show ?case
  proof (cases "i \<in> ids_of l")
    case True
    have "filter (\<lambda>m. meta_id m \<noteq> i) l' = l'" if "l' \<in> set ls" for l'
      using Cons.prems that True by (intro filter_id_absent) auto
    then have "map (filter (\<lambda>m. meta_id m \<noteq> i)) ls = ls" by (rule map_idI)
    moreover have "length (filter (\<lambda>m. meta_id m \<noteq> i) l) < length l"
      using True by (auto simp: filter_length_less ids_of_def)
    ultimately show ?thesis using True by (simp add: Let_def)
  next
    case False
    then show ?thesis using IH by (simp add: Let_def filter_id_absent)
  qed
qed simp

lemma remove_sst_spec:
  assumes "level_ids_disjoint mf"
  shows "remove_sst i mf = ((\<exists>l \<in> set (levels mf). i \<in> ids_of l),
    mf\<lparr>levels := map (filter (\<lambda>m. meta_id m \<noteq> i)) (levels mf)\<rparr>)"
  using remove_from_filter [of "levels mf" i] assms
  by (simp add: remove_sst_def level_ids_disjoint_def)

subsection \<open>Round trip\<close>

text \<open>Sizes the 32-bit counts and lengths can hold.\<close>

definition meta_fits :: "sst_meta \<Rightarrow> bool" where
  "meta_fits m \<longleftrightarrow> length (min_key m) < 2 ^ 32 \<and> length (max_key m) < 2 ^ 32"

definition manifest_fits :: "manifest \<Rightarrow> bool" where
  "manifest_fits mf \<longleftrightarrow> length (levels mf) < 2 ^ 32 \<and>
     (\<forall>l \<in> set (levels mf). length l < 2 ^ 32 \<and> (\<forall>m \<in> set l. meta_fits m))"

definition forget_levels :: "manifest \<Rightarrow> manifest" where
  "forget_levels mf = \<lparr>levels = map (map (\<lambda>m. m\<lparr>meta_level := 0\<rparr>)) (levels mf)\<rparr>"

text \<open>A decoder reads back the encoding of its object wherever it stands in the buffer.\<close>

definition reads_back :: "(bytes \<Rightarrow> nat \<Rightarrow> ('a \<times> nat) res) \<Rightarrow> bytes \<Rightarrow> 'a \<Rightarrow> bool" where
  "reads_back f enc x \<longleftrightarrow>
     (\<forall>xs ys. f (xs @ enc @ ys) (length xs) = Inr (x, length xs + length enc))"

lemma reads_backD:
  "reads_back f enc x \<Longrightarrow> pos = length xs \<Longrightarrow> data = xs @ enc @ ys \<Longrightarrow>
     f data pos = Inr (x, pos + length enc)"
  by (simp add: reads_back_def)

lemma reads_back_bytes: "length bs < 2 ^ 32 \<Longrightarrow> reads_back (decode_bytes name) (field bs) bs"
  unfolding reads_back_def
proof (intro allI)
  fix xs ys
  assume fits: "length bs < 2 ^ 32"
  let ?n = "u32_le (word_of_nat (length bs))"
  have "rd_u32 (xs @ ?n @ bs @ ys) (length xs) = length bs"
    using fits by (subst rd_at(2)) (simp_all add: unat_word_of_nat_u32)
  moreover have "slice_of (xs @ ?n @ bs @ ys) (length xs + 4) (length xs + 4 + length bs) = bs"
    using slice_at [of "length xs + 4" "xs @ ?n" _ bs ys] by simp
  ultimately show "decode_bytes name (xs @ field bs @ ys) (length xs) = Inr (bs, length xs + length (field bs))"
    by (simp add: decode_bytes_def field_def Let_def)
qed

lemma reads_back_meta:
  assumes "meta_fits m"
  shows "reads_back decode_sst_meta (encode_meta m) (m\<lparr>meta_level := 0\<rparr>)"
  unfolding reads_back_def
proof (intro allI)
  fix xs ys
  let ?data = "xs @ encode_meta m @ ys"
  have i: "rd_u64 ?data (length xs) = meta_id m"
    by (simp add: encode_meta_def rd_at(3))
  have mn: "decode_bytes ''min_key'' ?data (length xs + 8) = Inr (min_key m, length xs + 8 + length (field (min_key m)))"
    using assms by (intro reads_backD [OF reads_back_bytes, where xs = "xs @ u64_le (meta_id m)"])
      (simp_all add: meta_fits_def encode_meta_def)
  have mx: "decode_bytes ''max_key'' ?data (length xs + 8 + length (field (min_key m))) =
      Inr (max_key m, length xs + 8 + length (field (min_key m)) + length (field (max_key m)))"
    using assms
    by (intro reads_backD [OF reads_back_bytes, where xs = "xs @ u64_le (meta_id m) @ field (min_key m)"])
      (simp_all add: meta_fits_def encode_meta_def)
  show "decode_sst_meta ?data (length xs) = Inr (m\<lparr>meta_level := 0\<rparr>, length xs + length (encode_meta m))"
    unfolding decode_sst_meta_def Let_def i mn and_then_simps prod.case mx
    by (cases m) (simp add: encode_meta_def)
qed

lemma reads_back_ssts:
  "\<forall>m \<in> set l. meta_fits m \<Longrightarrow>
     reads_back (decode_ssts (length l)) (concat (map encode_meta l)) (map (\<lambda>m. m\<lparr>meta_level := 0\<rparr>) l)"
proof (induction l)
  case Nil
  then show ?case by (simp add: reads_back_def)
next
  case (Cons m l)
  show ?case unfolding reads_back_def
  proof (intro allI)
    fix xs ys
    let ?data = "xs @ concat (map encode_meta (m # l)) @ ys"
    have 1: "decode_sst_meta ?data (length xs) = Inr (m\<lparr>meta_level := 0\<rparr>, length xs + length (encode_meta m))"
      using Cons.prems by (intro reads_backD [OF reads_back_meta]) simp_all
    have 2: "decode_ssts (length l) ?data (length xs + length (encode_meta m)) =
        Inr (map (\<lambda>m. m\<lparr>meta_level := 0\<rparr>) l, length xs + length (encode_meta m) + length (concat (map encode_meta l)))"
      using Cons by (intro reads_backD [OF Cons.IH, where xs = "xs @ encode_meta m"]) simp_all
    show "decode_ssts (length (m # l)) ?data (length xs) =
        Inr (map (\<lambda>m. m\<lparr>meta_level := 0\<rparr>) (m # l), length xs + length (concat (map encode_meta (m # l))))"
      unfolding list.size decode_ssts.simps add_Suc_right add_0_right 1 by (simp only: and_then_simps prod.case 2) simp
  qed
qed

lemma reads_back_level:
  assumes "length l < 2 ^ 32" "\<forall>m \<in> set l. meta_fits m"
  shows "reads_back decode_level (encode_level l) (map (\<lambda>m. m\<lparr>meta_level := 0\<rparr>) l)"
  unfolding reads_back_def
proof (intro allI)
  fix xs ys
  let ?n = "u32_le (word_of_nat (length l))"
  let ?data = "xs @ encode_level l @ ys"
  have n: "rd_u32 ?data (length xs) = length l"
    using assms(1) by (simp add: encode_level_def rd_at(2) unat_word_of_nat_u32)
  have "decode_ssts (length l) ?data (length xs + 4) =
      Inr (map (\<lambda>m. m\<lparr>meta_level := 0\<rparr>) l, length xs + 4 + length (concat (map encode_meta l)))"
    using assms(2) by (intro reads_backD [OF reads_back_ssts, where xs = "xs @ ?n"])
      (simp_all add: encode_level_def)
  then show "decode_level ?data (length xs) =
      Inr (map (\<lambda>m. m\<lparr>meta_level := 0\<rparr>) l, length xs + length (encode_level l))"
    unfolding decode_level_def n by (simp add: encode_level_def)
qed

lemma reads_back_levels:
  "\<forall>l \<in> set ls. length l < 2 ^ 32 \<and> (\<forall>m \<in> set l. meta_fits m) \<Longrightarrow>
     reads_back (decode_levels (length ls)) (concat (map encode_level ls)) (map (map (\<lambda>m. m\<lparr>meta_level := 0\<rparr>)) ls)"
proof (induction ls)
  case Nil
  then show ?case by (simp add: reads_back_def)
next
  case (Cons l ls)
  show ?case unfolding reads_back_def
  proof (intro allI)
    fix xs ys
    let ?data = "xs @ concat (map encode_level (l # ls)) @ ys"
    have 1: "decode_level ?data (length xs) = Inr (map (\<lambda>m. m\<lparr>meta_level := 0\<rparr>) l, length xs + length (encode_level l))"
      using Cons.prems by (intro reads_backD [OF reads_back_level]) simp_all
    have 2: "decode_levels (length ls) ?data (length xs + length (encode_level l)) =
        Inr (map (map (\<lambda>m. m\<lparr>meta_level := 0\<rparr>)) ls,
          length xs + length (encode_level l) + length (concat (map encode_level ls)))"
      using Cons by (intro reads_backD [OF Cons.IH, where xs = "xs @ encode_level l"]) simp_all
    show "decode_levels (length (l # ls)) ?data (length xs) =
        Inr (map (map (\<lambda>m. m\<lparr>meta_level := 0\<rparr>)) (l # ls), length xs + length (concat (map encode_level (l # ls))))"
      unfolding list.size decode_levels.simps add_Suc_right add_0_right 1 by (simp only: and_then_simps prod.case 2) simp
  qed
qed

definition manifest_header :: "manifest \<Rightarrow> bytes" where
  "manifest_header mf = magic @ u32_le format_version @ u32_le (word_of_nat (length (levels mf)))"

lemma manifest_encode_header:
  "manifest_encode mf = manifest_header mf @ concat (map encode_level (levels mf))"
  by (simp add: manifest_encode_def manifest_header_def)

lemma length_manifest_header [simp]: "length (manifest_header mf) = 12"
  by (simp add: manifest_header_def magic_def)

lemma manifest_header_fields:
  assumes "length (levels mf) < 2 ^ 32"
  shows "slice_of (manifest_header mf @ ys) 0 4 = magic"
    "u32_of_le (slice_of (manifest_header mf @ ys) 4 8) = format_version"
    "rd_u32 (manifest_header mf @ ys) 8 = length (levels mf)"
proof -
  let ?v = "u32_le format_version" and ?n = "u32_le (word_of_nat (length (levels mf)))"
  show "slice_of (manifest_header mf @ ys) 0 4 = magic"
    by (simp add: manifest_header_def slice_of_def magic_def)
  show "u32_of_le (slice_of (manifest_header mf @ ys) 4 8) = format_version"
    using slice_at [of 4 magic 8 ?v "?n @ ys"] by (simp add: manifest_header_def magic_def u_of_le_u_le)
  show "rd_u32 (manifest_header mf @ ys) 8 = length (levels mf)"
    using assms rd_at(2) [of 8 "magic @ ?v" "word_of_nat (length (levels mf))" ys]
    by (simp add: manifest_header_def magic_def unat_word_of_nat_u32)
qed

lemma manifest_roundtrip_levels:
  assumes "manifest_fits mf"
  shows "decode_levels (length (levels mf)) (manifest_encode mf) 12 =
    Inr (levels (forget_levels mf), length (manifest_encode mf))"
  using reads_backD [OF reads_back_levels, of "levels mf" 12 "manifest_header mf" "manifest_encode mf" "[]"] assms
  by (simp add: manifest_encode_header manifest_fits_def forget_levels_def)

lemma manifest_roundtrip:
  assumes "manifest_fits mf"
  shows "manifest_decode (manifest_encode mf) = Inr (forget_levels mf)"
proof -
  have fits: "length (levels mf) < 2 ^ 32" using assms by (simp add: manifest_fits_def)
  note h = manifest_header_fields [OF fits, of "concat (map encode_level (levels mf))",
      folded manifest_encode_header]
  have "12 \<le> length (manifest_encode mf)" by (simp add: manifest_encode_header)
  then show ?thesis
    using h manifest_roundtrip_levels [OF assms]
    by (simp add: manifest_decode_def Let_def forget_levels_def)
qed

subsection \<open>Torn manifests\<close>

text \<open>A decoder is local when it looks only at the bytes it consumes, and reports an input cut before
  their end as corruption.\<close>

definition local_decoder :: "(bytes \<Rightarrow> nat \<Rightarrow> ('a \<times> nat) res) \<Rightarrow> bool" where
  "local_decoder f \<longleftrightarrow> (\<forall>data pos x pos'. f data pos = Inr (x, pos') \<longrightarrow> pos \<le> pos' \<and>
     (\<forall>n. (pos' \<le> n \<longrightarrow> f (take n data) pos = Inr (x, pos')) \<and>
          (pos \<le> n \<and> n < pos' \<longrightarrow> (\<exists>msg. f (take n data) pos = corrupt msg))))"

lemma local_decoderI:
  assumes "\<And>data pos x pos'. f data pos = Inr (x, pos') \<Longrightarrow> pos \<le> pos'"
    and "\<And>data pos x pos' n. f data pos = Inr (x, pos') \<Longrightarrow> pos' \<le> n \<Longrightarrow> f (take n data) pos = Inr (x, pos')"
    and "\<And>data pos x pos' n. f data pos = Inr (x, pos') \<Longrightarrow> pos \<le> n \<Longrightarrow> n < pos' \<Longrightarrow>
           \<exists>msg. f (take n data) pos = corrupt msg"
  shows "local_decoder f"
  using assms unfolding local_decoder_def by blast

lemma local_decoderD:
  assumes "local_decoder f" "f data pos = Inr (x, pos')"
  shows "pos \<le> pos'" "pos' \<le> n \<Longrightarrow> f (take n data) pos = Inr (x, pos')"
    "pos \<le> n \<Longrightarrow> n < pos' \<Longrightarrow> \<exists>msg. f (take n data) pos = corrupt msg"
  using assms unfolding local_decoder_def by blast+

text \<open>Running one local decoder after another is local; all composite decoders are instances.\<close>

lemma local_decoder_then:
  assumes f: "local_decoder f" and g: "\<And>x. local_decoder (g x)"
  shows "local_decoder (\<lambda>data pos. and_then (f data pos) (\<lambda>(x, p).
           and_then (g x data p) (\<lambda>(y, p'). Inr (h x y, p'))))"
    (is "local_decoder ?fg")
proof (rule local_decoderI)
  fix data pos z pos' n
  assume "?fg data pos = Inr (z, pos')"
  then obtain x p y where 1: "f data pos = Inr (x, p)" and 2: "g x data p = Inr (y, pos')" and z: "z = h x y"
    by (auto simp: and_then_Inr_iff)
  note f' = local_decoderD [OF f 1] and g' = local_decoderD [OF g 2]
  show "pos \<le> pos'" using f'(1) g'(1) by simp
  show "?fg (take n data) pos = Inr (z, pos')" if "pos' \<le> n"
    using f'(2) [of n] g'(1) g'(2) [of n] that z by simp
  show "\<exists>msg. ?fg (take n data) pos = corrupt msg" if "pos \<le> n" "n < pos'"
  proof (cases "n < p")
    case True
    then show ?thesis using f'(3) [of n] that by auto
  next
    case False
    then show ?thesis using f'(2) [of n] g'(3) [of n] that by auto
  qed
qed

lemma rd_take:
  "pos + 4 \<le> n \<Longrightarrow> rd_u32 (take n data) pos = rd_u32 data pos"
  "pos + 8 \<le> n \<Longrightarrow> rd_u64 (take n data) pos = rd_u64 data pos"
  by (simp_all add: rd_u32_def rd_u64_def drop_take min_absorb1)

lemma slice_take: "b \<le> n \<Longrightarrow> slice_of (take n data) a b = slice_of data a b"
  by (simp add: slice_of_def drop_take min_absorb1)

lemma local_decode_bytes: "local_decoder (decode_bytes name)"
proof (rule local_decoderI)
  fix data pos x pos' n
  assume ok: "decode_bytes name data pos = Inr (x, pos')"
  then have len: "pos + 4 \<le> length data" "pos + 4 + rd_u32 data pos \<le> length data"
    and res: "pos' = pos + 4 + rd_u32 data pos" "x = slice_of data (pos + 4) pos'"
    by (auto simp: decode_bytes_def Let_def split: if_splits)
  show "pos \<le> pos'" using res by simp
  show "decode_bytes name (take n data) pos = Inr (x, pos')" if "pos' \<le> n"
    using that len res by (simp add: decode_bytes_def Let_def rd_take slice_take)
  show "\<exists>msg. decode_bytes name (take n data) pos = corrupt msg" if "pos \<le> n" "n < pos'"
  proof (cases "n < pos + 4")
    case True
    then have "length (take n data) < pos + 4" by simp
    then show ?thesis unfolding decode_bytes_def by (simp only: if_True) blast
  next
    case False
    then have "rd_u32 (take n data) pos = rd_u32 data pos" by (simp add: rd_take)
    with False that res len show ?thesis by (simp add: decode_bytes_def Let_def)
  qed
qed

text \<open>A fixed-size read in front of a local decoder keeps it local.\<close>

lemma local_decoder_guard:
  assumes f: "\<And>k. local_decoder (f k)"
    and rd: "\<And>data pos n. pos + w \<le> n \<Longrightarrow> rd (take n data) pos = rd data pos"
  shows "local_decoder (\<lambda>data pos. if length data < pos + w then corrupt msg else f (rd data pos) data (pos + w))"
    (is "local_decoder ?g")
proof (rule local_decoderI)
  fix data pos x pos' n
  assume ok: "?g data pos = Inr (x, pos')"
  then have len: "pos + w \<le> length data" and run: "f (rd data pos) data (pos + w) = Inr (x, pos')"
    by (auto split: if_splits)
  note f' = local_decoderD [OF f run]
  show "pos \<le> pos'" using f'(1) by simp
  show "?g (take n data) pos = Inr (x, pos')" if "pos' \<le> n"
    using that f'(1) f'(2) [of n] len rd [of pos n data] by simp
  show "\<exists>m. ?g (take n data) pos = corrupt m" if "pos \<le> n" "n < pos'"
    using that f'(3) [of n] len rd [of pos n data] by (cases "n < pos + w") auto
qed

lemma local_decode_sst_meta: "local_decoder decode_sst_meta"
proof -
  define f where "f = (\<lambda>i data p. and_then (decode_bytes ''min_key'' data p) (\<lambda>(mn, p1).
        and_then (decode_bytes ''max_key'' data p1) (\<lambda>(mx, p2).
          Inr (\<lparr>meta_id = i, meta_level = 0, min_key = mn, max_key = mx\<rparr>, p2))))"
  have "local_decoder (f i)" for i
    unfolding f_def by (rule local_decoder_then [OF local_decode_bytes local_decode_bytes])
  then have "local_decoder (\<lambda>data pos. if length data < pos + 8 then corrupt ''manifest truncated at sst id''
      else f (rd_u64 data pos) data (pos + 8))"
    by (rule local_decoder_guard) (simp add: rd_take)
  also have "(\<lambda>data pos. if length data < pos + 8 then corrupt ''manifest truncated at sst id''
      else f (rd_u64 data pos) data (pos + 8)) = decode_sst_meta"
    unfolding f_def decode_sst_meta_def [abs_def] Let_def by (rule refl)
  finally show ?thesis .
qed

lemma local_decoder_return: "local_decoder (\<lambda>data pos. Inr (x, pos))"
  by (rule local_decoderI) auto

lemma local_decode_ssts: "local_decoder (decode_ssts n)"
proof (induction n)
  case 0
  show ?case using local_decoder_return by (simp add: decode_ssts.simps(1) [abs_def])
next
  case (Suc n)
  have "local_decoder (\<lambda>data pos. and_then (decode_sst_meta data pos) (\<lambda>(m, p).
     and_then (decode_ssts n data p) (\<lambda>(ms, p'). Inr (m # ms, p'))))"
    by (rule local_decoder_then [OF local_decode_sst_meta Suc.IH])
  then show ?case by (simp add: decode_ssts.simps(2) [abs_def])
qed

lemma local_decode_level: "local_decoder decode_level"
  using local_decoder_guard [OF local_decode_ssts, where rd = rd_u32 and w = 4]
  by (simp add: decode_level_def [abs_def] rd_take)

lemma local_decode_levels: "local_decoder (decode_levels n)"
proof (induction n)
  case 0
  show ?case using local_decoder_return by (simp add: decode_levels.simps(1) [abs_def])
next
  case (Suc n)
  have "local_decoder (\<lambda>data pos. and_then (decode_level data pos) (\<lambda>(m, p).
     and_then (decode_levels n data p) (\<lambda>(ms, p'). Inr (m # ms, p'))))"
    by (rule local_decoder_then [OF local_decode_level Suc.IH])
  then show ?case by (simp add: decode_levels.simps(2) [abs_def])
qed

text \<open>No strict prefix of an encoded manifest decodes: a torn file is an error, never a wrong
  list of tables.\<close>

lemma torn_manifest:
  assumes fits: "manifest_fits mf" and n: "n < length (manifest_encode mf)"
  shows "\<exists>msg. manifest_decode (take n (manifest_encode mf)) = corrupt msg"
proof (cases "n < 12")
  case True
  then have "length (take n (manifest_encode mf)) < 12" by simp
  then show ?thesis unfolding manifest_decode_def by (simp only: if_True) blast
next
  case False
  let ?data = "take n (manifest_encode mf)"
  have len: "length (levels mf) < 2 ^ 32" using fits by (simp add: manifest_fits_def)
  have data: "?data = manifest_header mf @ take (n - 12) (concat (map encode_level (levels mf)))"
    using False by (simp add: manifest_encode_header)
  note h = manifest_header_fields [OF len, of "take (n - 12) (concat (map encode_level (levels mf)))",
      folded data]
  obtain msg where "decode_levels (length (levels mf)) ?data 12 = corrupt msg"
    using local_decoderD(3) [OF local_decode_levels manifest_roundtrip_levels [OF fits], of n] False n
    by auto
  then show ?thesis
    using False n h by (simp add: manifest_decode_def Let_def)
qed

end
