(* ===== verification/SkipList.thy ===== *)
theory SkipList
  imports Errors Ordered
begin

unbundle bit_operations_syntax

text \<open>
  The skip list of \<open>src/memtable/skiplist.rs\<close> with its raw pointers: nodes live in an arena, an
  address is an index into it, a freed node is \<open>None\<close>. Dereferencing an address that holds no node is
  the fault \<open>Undefined\<close>, a walk that outlives its fuel is \<open>Diverges\<close>; the representation invariant
  below rules both out. Sizes are those of a 64-bit target: \<open>size_of::<SkipList>() = 24\<close>,
  \<open>size_of::<Node>() = 72\<close>, \<open>size_of::<Vec<u8>>() = 24\<close>, pointers 8.
\<close>

subsection \<open>Nodes and raw pointers\<close>

record node =
  node_key :: bytes
  node_val :: bytes
  node_next :: "nat option list"

type_synonym arena = "node option list"

definition deref :: "arena \<Rightarrow> nat \<Rightarrow> node res" where
  "deref h a =
     (if a < length h then (case h ! a of None \<Rightarrow> Inl Undefined | Some n \<Rightarrow> Inr n) else Inl Undefined)"

definition node_new :: "bytes \<Rightarrow> bytes \<Rightarrow> nat \<Rightarrow> arena \<Rightarrow> nat \<times> arena" where
  "node_new key val lvl h =
     (length h, h @ [Some \<lparr>node_key = key, node_val = val, node_next = replicate (lvl + 1) None\<rparr>])"

definition node_free :: "arena \<Rightarrow> nat \<Rightarrow> arena res" where
  "node_free h a = and_then (deref h a) (\<lambda>_. Inr (h[a := None]))"

definition next_at :: "arena \<Rightarrow> nat \<Rightarrow> nat \<Rightarrow> nat option res" where
  "next_at h a lvl = and_then (deref h a) (\<lambda>n.
     if lvl < length (node_next n) then Inr (node_next n ! lvl) else Inl (Panic ''index out of bounds''))"

definition set_next :: "arena \<Rightarrow> nat \<Rightarrow> nat \<Rightarrow> nat option \<Rightarrow> arena res" where
  "set_next h a lvl target = and_then (deref h a) (\<lambda>n.
     if lvl < length (node_next n)
     then Inr (h[a := Some (n\<lparr>node_next := (node_next n)[lvl := target]\<rparr>)])
     else Inl (Panic ''index out of bounds''))"

definition set_value :: "arena \<Rightarrow> nat \<Rightarrow> bytes \<Rightarrow> arena res" where
  "set_value h a val = and_then (deref h a) (\<lambda>n. Inr (h[a := Some (n\<lparr>node_val := val\<rparr>)]))"

subsection \<open>The list\<close>

record skiplist =
  arena :: arena
  head :: nat
  max_level :: nat
  sl_size :: nat

definition size_of_skiplist :: nat where "size_of_skiplist = 24"
definition size_of_node :: nat where "size_of_node = 72"
definition size_of_vec :: nat where "size_of_vec = 24"
definition size_of_ptr :: nat where "size_of_ptr = 8"

definition sl_new :: "nat \<Rightarrow> skiplist res" where
  "sl_new ml =
     (if \<not> 0 < ml then Inl (Panic ''max_level must be at least 1'')
      else case node_new [] [] (ml - 1) [] of (sentinel, h) \<Rightarrow>
        Inr \<lparr>arena = h, head = sentinel, max_level = ml, sl_size = size_of_skiplist\<rparr>)"

text \<open>The xorshift64 generator and the level it picks; \<open>trailing_zeros\<close> counts up from bit 0.\<close>

definition xorshift :: "u64 \<Rightarrow> u64" where
  "xorshift v0 =
     (let v1 = v0 XOR push_bit 13 v0; v2 = v1 XOR drop_bit 7 v1 in v2 XOR push_bit 17 v2)"

definition trailing_zeros :: "u64 \<Rightarrow> nat" where
  "trailing_zeros v = length (takeWhile (\<lambda>i. \<not> bit v i) [0..<64])"

definition random_level :: "u64 \<Rightarrow> nat \<Rightarrow> nat \<times> u64" where
  "random_level rng ml =
     (let v = xorshift rng; bits = v OR 1 in (min (trailing_zeros bits) (ml - 1), v))"

text \<open>The inner \<open>while\<close>: advance along lane \<open>i\<close> while the next key is smaller than \<open>key\<close>.\<close>

fun walk :: "nat \<Rightarrow> arena \<Rightarrow> nat \<Rightarrow> bytes \<Rightarrow> nat \<Rightarrow> nat res" where
  "walk 0 h i key cur = Inl Diverges"
| "walk (Suc fuel) h i key cur =
     and_then (next_at h cur i) (\<lambda>nx.
       case nx of
         None \<Rightarrow> Inr cur
       | Some b \<Rightarrow> and_then (deref h b) (\<lambda>n.
           if node_key n < key then walk fuel h i key b else Inr cur))"

text \<open>The outer loop \<open>for i in (0..max_level).rev()\<close> of \<open>get\<close> and \<open>scan\<close>, and the one of \<open>insert\<close>, which
  also records the predecessor of every lane.\<close>

fun seek :: "arena \<Rightarrow> bytes \<Rightarrow> nat \<Rightarrow> nat \<Rightarrow> nat res" where
  "seek h key 0 cur = Inr cur"
| "seek h key (Suc i) cur =
     and_then (walk (Suc (length h)) h i key cur) (\<lambda>c. seek h key i c)"

fun seek_update :: "arena \<Rightarrow> bytes \<Rightarrow> nat \<Rightarrow> nat \<Rightarrow> nat list \<Rightarrow> (nat \<times> nat list) res" where
  "seek_update h key 0 cur upd = Inr (cur, upd)"
| "seek_update h key (Suc i) cur upd =
     and_then (walk (Suc (length h)) h i key cur) (\<lambda>c. seek_update h key i c (upd[i := c]))"

text \<open>\<open>for (i, pred) in update.iter().enumerate().take(level + 1)\<close>\<close>

fun splice :: "arena \<Rightarrow> nat \<Rightarrow> nat \<Rightarrow> nat list \<Rightarrow> arena res" where
  "splice h new i [] = Inr h"
| "splice h new i (pred # preds) =
     and_then (next_at h pred i) (\<lambda>nx.
     and_then (set_next h new i nx) (\<lambda>h1.
     and_then (set_next h1 pred i (Some new)) (\<lambda>h2.
       splice h2 new (Suc i) preds)))"

definition key_at :: "arena \<Rightarrow> nat option \<Rightarrow> bytes \<Rightarrow> nat option res" where
  "key_at h p key =
     (case p of
        None \<Rightarrow> Inr None
      | Some a \<Rightarrow> and_then (deref h a) (\<lambda>n. Inr (if node_key n = key then Some a else None)))"

text \<open>\<open>insert\<close> once the level is drawn.\<close>

definition sl_insert_at :: "nat \<Rightarrow> bytes \<Rightarrow> bytes \<Rightarrow> skiplist \<Rightarrow> skiplist res" where
  "sl_insert_at lvl key val s =
     (case node_new key val lvl (arena s) of (new, h1) \<Rightarrow>
      and_then (seek_update h1 key (max_level s) (head s) (replicate (max_level s) (head s))) (\<lambda>(cur, upd).
      and_then (next_at h1 cur 0) (\<lambda>succ.
      and_then (key_at h1 succ key) (\<lambda>existing.
        case existing of
          Some a \<Rightarrow>
            and_then (set_value h1 a val) (\<lambda>h2.
            and_then (node_free h2 new) (\<lambda>h3. Inr (s\<lparr>arena := h3\<rparr>)))
        | None \<Rightarrow>
            and_then (splice h1 new 0 (take (lvl + 1) upd)) (\<lambda>h2.
              Inr (s\<lparr>arena := h2,
                     sl_size := sl_size s + (length key + length val + (lvl + 1) * size_of_ptr +
                                             size_of_node + 2 * size_of_vec)\<rparr>))))))"

definition sl_insert :: "bytes \<Rightarrow> bytes \<Rightarrow> skiplist \<times> u64 \<Rightarrow> (skiplist \<times> u64) res" where
  "sl_insert key val = (\<lambda>(s, rng).
     case random_level rng (max_level s) of (lvl, rng') \<Rightarrow>
       and_then (sl_insert_at lvl key val s) (\<lambda>s'. Inr (s', rng')))"

definition sl_get :: "skiplist \<Rightarrow> bytes \<Rightarrow> bytes option res" where
  "sl_get s key =
     and_then (seek (arena s) key (max_level s) (head s)) (\<lambda>cur.
     and_then (next_at (arena s) cur 0) (\<lambda>candidate.
     and_then (key_at (arena s) candidate key) (\<lambda>hit.
       case hit of
         None \<Rightarrow> Inr None
       | Some a \<Rightarrow> and_then (deref (arena s) a) (\<lambda>n. Inr (Some (node_val n))))))"

text \<open>\<open>ScanIterator\<close> and \<open>FullIterator\<close>, run to their end.\<close>

fun drain :: "nat \<Rightarrow> arena \<Rightarrow> (bytes \<Rightarrow> bool) \<Rightarrow> nat option \<Rightarrow> entry list res" where
  "drain 0 h stop cur = Inl Diverges"
| "drain (Suc fuel) h stop None = Inr []"
| "drain (Suc fuel) h stop (Some a) =
     and_then (deref h a) (\<lambda>n.
       if stop (node_key n) then Inr []
       else and_then (next_at h a 0) (\<lambda>nx.
            and_then (drain fuel h stop nx) (\<lambda>es. Inr ((node_key n, node_val n) # es))))"

definition sl_scan :: "skiplist \<Rightarrow> bytes \<Rightarrow> bytes \<Rightarrow> entry list res" where
  "sl_scan s start end =
     and_then (seek (arena s) start (max_level s) (head s)) (\<lambda>cur.
     and_then (next_at (arena s) cur 0) (\<lambda>first.
       drain (Suc (length (arena s))) (arena s) (\<lambda>k. end \<le> k) first))"

definition sl_iter :: "skiplist \<Rightarrow> entry list res" where
  "sl_iter s =
     and_then (next_at (arena s) (head s) 0) (\<lambda>first.
       drain (Suc (length (arena s))) (arena s) (\<lambda>_. False) first)"

text \<open>\<open>Drop\<close>: the sentinel goes first, then every node of the bottom lane.\<close>

fun free_chain :: "nat \<Rightarrow> arena \<Rightarrow> nat option \<Rightarrow> arena res" where
  "free_chain 0 h cur = Inl Diverges"
| "free_chain (Suc fuel) h None = Inr h"
| "free_chain (Suc fuel) h (Some a) =
     and_then (next_at h a 0) (\<lambda>nx. and_then (node_free h a) (\<lambda>h'. free_chain fuel h' nx))"

definition sl_drop :: "skiplist \<Rightarrow> arena res" where
  "sl_drop s =
     and_then (next_at (arena s) (head s) 0) (\<lambda>first.
     and_then (node_free (arena s) (head s)) (\<lambda>h. free_chain (Suc (length h)) h first))"

end
