(* ===== verification/SkipListCorrect.thy ===== *)
theory SkipListCorrect
  imports SkipList
begin

text \<open>
  Correctness of the pointer-level skip list: the representation invariant (every lane is a null
  terminated path through the nodes tall enough for it, in strictly increasing key order; exactly
  the sentinel and the listed nodes are allocated), its preservation by \<open>insert\<close> at any level, and
  the refinement of \<open>get\<close>, \<open>scan\<close>, \<open>iter\<close> and \<open>drop\<close> to operations on a sorted association list.
\<close>

subsection \<open>Reading the arena\<close>

definition is_node :: "arena \<Rightarrow> nat \<Rightarrow> bool" where
  "is_node h a \<longleftrightarrow> a < length h \<and> h ! a \<noteq> None"

definition the_node :: "arena \<Rightarrow> nat \<Rightarrow> node" where
  "the_node h a = the (h ! a)"

abbreviation nkey :: "arena \<Rightarrow> nat \<Rightarrow> bytes" where "nkey h a \<equiv> node_key (the_node h a)"
abbreviation nval :: "arena \<Rightarrow> nat \<Rightarrow> bytes" where "nval h a \<equiv> node_val (the_node h a)"
abbreviation nht :: "arena \<Rightarrow> nat \<Rightarrow> nat" where "nht h a \<equiv> length (node_next (the_node h a))"

lemma deref_node: "is_node h a \<Longrightarrow> deref h a = Inr (the_node h a)"
  by (auto simp: is_node_def deref_def the_node_def)

lemma next_at_node: "is_node h a \<Longrightarrow> i < nht h a \<Longrightarrow> next_at h a i = Inr (node_next (the_node h a) ! i)"
  by (simp add: next_at_def deref_node)

lemma next_at_Inr: "next_at h a i = Inr t \<Longrightarrow> is_node h a \<and> i < nht h a"
  by (auto simp: next_at_def deref_def is_node_def the_node_def and_then_Inr_iff
      split: if_splits option.splits)

lemma is_node_append: "is_node h a \<Longrightarrow> is_node (h @ [x]) a"
  by (simp add: is_node_def nth_append)

lemma the_node_append: "a < length h \<Longrightarrow> the_node (h @ [x]) a = the_node h a"
  by (simp add: the_node_def nth_append)

lemma next_at_append: "is_node h a \<Longrightarrow> next_at (h @ [x]) a i = next_at h a i"
  by (simp add: next_at_def deref_def is_node_def nth_append)

text \<open>\<open>same_shape h h'\<close>: the same nodes with the same keys, values and heights; only links differ.\<close>

definition same_shape :: "arena \<Rightarrow> arena \<Rightarrow> bool" where
  "same_shape h h' \<longleftrightarrow> length h' = length h \<and>
     (\<forall>a. is_node h' a = is_node h a \<and>
          (is_node h a \<longrightarrow> nkey h' a = nkey h a \<and> nval h' a = nval h a \<and> nht h' a = nht h a))"

lemma same_shape_refl [simp]: "same_shape h h"
  by (simp add: same_shape_def)

lemma same_shape_trans: "same_shape h h' \<Longrightarrow> same_shape h' h'' \<Longrightarrow> same_shape h h''"
  by (simp add: same_shape_def)

lemma set_next_ok:
  assumes "is_node h a" "i < nht h a"
  obtains h' where "set_next h a i t = Inr h'" "same_shape h h'"
    "\<And>b j. next_at h' b j = (if b = a \<and> j = i then Inr t else next_at h b j)"
proof -
  define h' where "h' = h[a := Some ((the_node h a)\<lparr>node_next := (node_next (the_node h a))[i := t]\<rparr>)]"
  have a: "a < length h" "h ! a = Some (the_node h a)"
    using assms(1) by (auto simp: is_node_def the_node_def)
  have "set_next h a i t = Inr h'"
    using assms by (simp add: set_next_def deref_node h'_def)
  moreover have "same_shape h h'"
    using a by (auto simp: same_shape_def h'_def is_node_def the_node_def nth_list_update)
  moreover have "next_at h' b j = (if b = a \<and> j = i then Inr t else next_at h b j)" for b j
    using a assms(2)
    by (cases "b = a") (auto simp: next_at_def deref_def h'_def nth_list_update)
  ultimately show ?thesis by (rule that)
qed

subsection \<open>Lanes\<close>

fun lane :: "arena \<Rightarrow> nat \<Rightarrow> nat \<Rightarrow> nat list \<Rightarrow> bool" where
  "lane h i p [] \<longleftrightarrow> next_at h p i = Inr None"
| "lane h i p (a # as) \<longleftrightarrow> next_at h p i = Inr (Some a) \<and> lane h i a as"

lemma lane_cong:
  "(\<And>b. b \<in> set (p # xs) \<Longrightarrow> next_at h' b i = next_at h b i) \<Longrightarrow> lane h' i p xs = lane h i p xs"
  by (induction xs arbitrary: p) auto

lemma lane_suffix: "lane h i p (us @ q # vs) \<Longrightarrow> lane h i q vs"
  by (induction us arbitrary: p) auto

lemma lane_next:
  "lane h i p (xs @ ys) \<Longrightarrow>
     next_at h (last (p # xs)) i = Inr (case ys of [] \<Rightarrow> None | y # _ \<Rightarrow> Some y)"
  by (induction xs arbitrary: p) (auto split: list.splits)

lemma lane_insert:
  assumes "lane h i p (xs @ ys)" "distinct (p # xs @ ys)" "new \<notin> set (p # xs @ ys)"
    and "next_at h' new i = next_at h (last (p # xs)) i"
    and "next_at h' (last (p # xs)) i = Inr (Some new)"
    and "\<And>b. b \<noteq> new \<Longrightarrow> b \<noteq> last (p # xs) \<Longrightarrow> next_at h' b i = next_at h b i"
  shows "lane h' i p (xs @ new # ys)"
  using assms
proof (induction xs arbitrary: p)
  case Nil
  then show ?case
  proof (cases ys)
    case (Cons y zs)
    have "lane h' i y zs = lane h i y zs"
      using Nil.prems(2,3) Cons by (intro lane_cong, intro Nil.prems(6)) auto
    then show ?thesis using Nil.prems Cons by auto
  qed auto
next
  case (Cons x xs)
  have "lane h' i x (xs @ new # ys)"
    using Cons.prems by (intro Cons.IH) auto
  moreover have "next_at h' p i = next_at h p i"
    using Cons.prems(2,3) by (intro Cons.prems(6)) auto
  ultimately show ?case using Cons.prems(1) by simp
qed

lemma walk_lane:
  assumes "lane h i p (xs @ ys)" "\<forall>a \<in> set (xs @ ys). is_node h a"
    and "\<forall>x \<in> set xs. nkey h x < k" "\<forall>y \<in> set ys. \<not> nkey h y < k" "length xs < fuel"
  shows "walk fuel h i k p = Inr (last (p # xs))"
  using assms
proof (induction xs arbitrary: p fuel)
  case Nil
  then obtain f where "fuel = Suc f" by (cases fuel) auto
  then show ?case using Nil by (cases ys) (auto simp: deref_node)
next
  case (Cons x xs)
  then obtain f where f: "fuel = Suc f" by (cases fuel) auto
  have "walk f h i k x = Inr (last (x # xs))"
    using Cons.prems f by (intro Cons.IH) auto
  then show ?case using Cons.prems f by (auto simp: deref_node)
qed

declare walk.simps [simp del]

subsection \<open>The representation invariant\<close>

text \<open>\<open>lanes_ok h hd ml as\<close>: from the sentinel \<open>hd\<close>, lane \<open>i\<close> visits exactly the nodes of \<open>as\<close> taller than
  \<open>i\<close>, in order; keys strictly increase.\<close>

definition on_lane :: "arena \<Rightarrow> nat \<Rightarrow> nat list \<Rightarrow> nat list" where
  "on_lane h i as = filter (\<lambda>a. i < nht h a) as"

definition lanes_ok :: "arena \<Rightarrow> nat \<Rightarrow> nat \<Rightarrow> nat list \<Rightarrow> bool" where
  "lanes_ok h s ml as \<longleftrightarrow> 0 < ml \<and> distinct (s # as) \<and> (\<forall>a \<in> set (s # as). is_node h a) \<and>
     nht h s = ml \<and> (\<forall>a \<in> set as. 0 < nht h a \<and> nht h a \<le> ml) \<and>
     sorted_wrt (<) (map (nkey h) as) \<and> (\<forall>i < ml. lane h i s (on_lane h i as))"

text \<open>Of a whole list: in addition no other node is allocated, so nothing leaks.\<close>

definition sl_rep :: "skiplist \<Rightarrow> nat list \<Rightarrow> bool" where
  "sl_rep s as \<longleftrightarrow> lanes_ok (arena s) (head s) (max_level s) as \<and>
     (\<forall>a. is_node (arena s) a \<longrightarrow> a = head s \<or> a \<in> set as)"

definition ents :: "arena \<Rightarrow> nat list \<Rightarrow> entry list" where
  "ents h as = map (\<lambda>a. (nkey h a, nval h a)) as"

lemma map_fst_ents [simp]: "map fst (ents h as) = map (nkey h) as"
  by (simp add: ents_def)

lemma lanes_ok_sorted: "lanes_ok h s ml as \<Longrightarrow> sorted_keys (ents h as)"
  by (simp add: lanes_ok_def sorted_keys_def)

lemma on_lane_append [simp]: "on_lane h i (xs @ ys) = on_lane h i xs @ on_lane h i ys"
  by (simp add: on_lane_def)

lemma set_on_lane: "set (on_lane h i as) = {a \<in> set as. i < nht h a}"
  by (auto simp: on_lane_def)

lemma on_lane_0: "lanes_ok h s ml as \<Longrightarrow> on_lane h 0 as = as"
  by (auto simp: lanes_ok_def on_lane_def intro!: filter_True)

lemma length_le_arena:
  assumes "distinct as" "\<forall>a \<in> set as. is_node h a"
  shows "length as \<le> length h"
proof -
  have "set as \<subseteq> {..<length h}" using assms(2) by (auto simp: is_node_def)
  then have "card (set as) \<le> length h" using card_mono [of "{..<length h}"] by fastforce
  then show ?thesis using assms(1) by (simp add: distinct_card)
qed

subsection \<open>Seeking\<close>

text \<open>The keys below \<open>k\<close> form a prefix of the list; the predecessor on lane \<open>i\<close> is the last tall
  enough node of that prefix, or the sentinel.\<close>

definition below :: "arena \<Rightarrow> bytes \<Rightarrow> nat list \<Rightarrow> nat list" where
  "below h k as = takeWhile (\<lambda>a. nkey h a < k) as"

definition from_on :: "arena \<Rightarrow> bytes \<Rightarrow> nat list \<Rightarrow> nat list" where
  "from_on h k as = dropWhile (\<lambda>a. nkey h a < k) as"

definition pred_on :: "arena \<Rightarrow> nat \<Rightarrow> bytes \<Rightarrow> nat list \<Rightarrow> nat \<Rightarrow> nat" where
  "pred_on h s k as i = last (s # on_lane h i (below h k as))"

lemma below_from_on [simp]: "below h k as @ from_on h k as = as"
  by (simp add: below_def from_on_def)

lemma below_less: "a \<in> set (below h k as) \<Longrightarrow> nkey h a < k \<and> a \<in> set as"
  by (auto simp: below_def dest: set_takeWhileD)

lemma from_on_ge:
  assumes "sorted_wrt (<) (map (nkey h) as)" "a \<in> set (from_on h k as)"
  shows "k \<le> nkey h a \<and> a \<in> set as"
proof -
  have "a \<in> set as" using assms(2) by (auto simp: from_on_def dest: set_dropWhileD)
  moreover have "k \<le> nkey h a"
    using assms unfolding from_on_def
  proof (induction as)
    case (Cons x as)
    then show ?case by (cases "nkey h x < k") (fastforce simp: not_less)+
  qed simp
  ultimately show ?thesis by simp
qed

lemma walk_to_pred:
  assumes ok: "lanes_ok h s ml as" and i: "i < ml"
    and cur: "cur = s \<or> cur \<in> set (below h k as) \<and> i < nht h cur"
  shows "walk (Suc (length h)) h i k cur = Inr (pred_on h s k as i)"
proof -
  let ?pre = "on_lane h i (below h k as)" and ?post = "on_lane h i (from_on h k as)"
  have ln: "lane h i s (?pre @ ?post)"
    using ok i by (simp add: lanes_ok_def flip: on_lane_append)
  obtain vs where vs: "lane h i cur (vs @ ?post)" "last (cur # vs) = pred_on h s k as i" "set vs \<subseteq> set ?pre"
    and dvs: "distinct vs"
  proof -
    have dist: "distinct ?pre" using ok by (simp add: lanes_ok_def on_lane_def below_def)
    show thesis
    proof (cases "cur = s")
      case True
      then show thesis using that [of ?pre] ln dist by (simp add: pred_on_def)
    next
      case False
      then have "cur \<in> set ?pre" using cur by (simp add: set_on_lane)
      then obtain us vs where pre: "?pre = us @ cur # vs" by (meson split_list)
      then have "lane h i cur (vs @ ?post)" using ln lane_suffix by fastforce
      then show thesis using pre dist by (intro that [of vs]) (auto simp: pred_on_def)
    qed
  qed
  have nodes: "\<forall>a \<in> set (vs @ ?post). is_node h a"
    using ok vs(3) by (auto simp: lanes_ok_def set_on_lane below_def from_on_def
        dest: set_takeWhileD set_dropWhileD)
  moreover have "\<forall>x \<in> set vs. nkey h x < k"
    using vs(3) by (auto simp: set_on_lane dest: below_less)
  moreover have "\<forall>y \<in> set ?post. \<not> nkey h y < k"
    using ok from_on_ge [of h as _ k] by (auto simp: lanes_ok_def set_on_lane not_less)
  moreover have "length vs < Suc (length h)"
    using length_le_arena [OF dvs, of h] nodes by simp
  ultimately show ?thesis using walk_lane [OF vs(1)] vs(2) by simp
qed

lemma pred_on_cases:
  "pred_on h s k as i = s \<or> pred_on h s k as i \<in> set (below h k as) \<and> i < nht h (pred_on h s k as i)"
proof (cases "on_lane h i (below h k as) = []")
  case False
  then have "pred_on h s k as i \<in> set (on_lane h i (below h k as))" by (simp add: pred_on_def)
  then show ?thesis by (simp add: set_on_lane)
qed (simp add: pred_on_def)

lemma seek_update_spec:
  assumes ok: "lanes_ok h s ml as" and n: "n \<le> ml" "length upd = ml"
    and cur: "cur = s \<or> cur \<in> set (below h k as) \<and> n \<le> nht h cur"
  shows "\<exists>upd'. seek_update h k n cur upd = Inr (if n = 0 then cur else pred_on h s k as 0, upd') \<and>
    length upd' = ml \<and> (\<forall>j < ml. upd' ! j = (if j < n then pred_on h s k as j else upd ! j))"
  using n cur
proof (induction n arbitrary: cur upd)
  case 0
  then show ?case by simp
next
  case (Suc n)
  let ?p = "pred_on h s k as n"
  have w: "walk (Suc (length h)) h n k cur = Inr ?p"
    using Suc.prems by (intro walk_to_pred [OF ok]) auto
  have "?p = s \<or> ?p \<in> set (below h k as) \<and> n \<le> nht h ?p"
    using pred_on_cases [of h s k as n] by auto
  then obtain upd' where IH:
    "seek_update h k n ?p (upd[n := ?p]) = Inr (if n = 0 then ?p else pred_on h s k as 0, upd')"
    "length upd' = ml" "\<forall>j < ml. upd' ! j = (if j < n then pred_on h s k as j else upd[n := ?p] ! j)"
    using Suc.IH [of "upd[n := ?p]" ?p] Suc.prems by auto
  have "seek_update h k (Suc n) cur upd = Inr (pred_on h s k as 0, upd')"
    using w IH(1) by (cases n) simp_all
  then show ?case
    using IH(2,3) Suc.prems by (auto simp: nth_list_update less_Suc_eq)
qed

lemma seek_is_update:
  "seek h k n cur = and_then (seek_update h k n cur upd) (\<lambda>(c, upd). Inr c)"
proof (induction n arbitrary: cur upd)
  case (Suc n)
  show ?case
    by (cases "walk (Suc (length h)) h n k cur") (use Suc.IH in auto)
qed simp

lemma seek_spec:
  assumes ok: "lanes_ok h s ml as"
  shows "seek h k ml s = Inr (pred_on h s k as 0)"
proof -
  have ml: "0 < ml" using ok by (simp add: lanes_ok_def)
  obtain upd' where "seek_update h k ml s (replicate ml s) = Inr (pred_on h s k as 0, upd')"
    using seek_update_spec [OF ok le_refl, of "replicate ml s" s k] ml by auto
  then show ?thesis using seek_is_update [of h k ml s "replicate ml s"] by simp
qed

lemma next_pred_0:
  assumes ok: "lanes_ok h s ml as"
  shows "next_at h (pred_on h s k as 0) 0 =
    Inr (case from_on h k as of [] \<Rightarrow> None | y # _ \<Rightarrow> Some y)"
proof -
  have "lane h 0 s (below h k as @ from_on h k as)"
    using ok on_lane_0 [OF ok] unfolding lanes_ok_def by (metis below_from_on)
  moreover have "on_lane h 0 (below h k as) = below h k as"
    using ok by (auto simp: on_lane_def lanes_ok_def intro!: filter_True dest: below_less)
  ultimately show ?thesis using lane_next by (simp add: pred_on_def)
qed

subsection \<open>Splicing\<close>

text \<open>After the splice loop the new node sits behind its predecessor on every lane of the loop, and no
  other link has changed.\<close>

lemma splice_ok:
  assumes "is_node h new" "i + length preds \<le> nht h new" "new \<notin> set preds"
    and "\<forall>j < length preds. is_node h (preds ! j) \<and> i + j < nht h (preds ! j)"
  shows "\<exists>h'. splice h new i preds = Inr h' \<and> same_shape h h' \<and>
    (\<forall>b l. next_at h' b l =
       (if i \<le> l \<and> l < i + length preds
        then if b = new then next_at h (preds ! (l - i)) l
             else if b = preds ! (l - i) then Inr (Some new) else next_at h b l
        else next_at h b l))"
  using assms
proof (induction preds arbitrary: h i)
  case Nil
  then show ?case by auto
next
  case (Cons p preds)
  have p: "is_node h p" "i < nht h p" "p \<noteq> new" using Cons.prems(3,4) by force+
  define nx where "nx = node_next (the_node h p) ! i"
  have nx: "next_at h p i = Inr nx" using p by (simp add: next_at_node nx_def)
  have inew: "i < nht h new" using Cons.prems(2) by simp
  obtain h1 where h1: "set_next h new i nx = Inr h1" "same_shape h h1"
    "\<And>b j. next_at h1 b j = (if b = new \<and> j = i then Inr nx else next_at h b j)"
    using set_next_ok [OF Cons.prems(1) inew] by blast
  have p1: "is_node h1 p" "i < nht h1 p" using h1(2) p by (simp_all add: same_shape_def)
  obtain h2 where h2: "set_next h1 p i (Some new) = Inr h2" "same_shape h1 h2"
    "\<And>b j. next_at h2 b j = (if b = p \<and> j = i then Inr (Some new) else next_at h1 b j)"
    using set_next_ok [OF p1] by blast
  have sh: "same_shape h h2" using h1(2) h2(2) by (rule same_shape_trans)
  have "\<exists>h'. splice h2 new (Suc i) preds = Inr h' \<and> same_shape h2 h' \<and>
    (\<forall>b l. next_at h' b l =
       (if Suc i \<le> l \<and> l < Suc i + length preds
        then if b = new then next_at h2 (preds ! (l - Suc i)) l
             else if b = preds ! (l - Suc i) then Inr (Some new) else next_at h2 b l
        else next_at h2 b l))"
  proof (rule Cons.IH)
    show "is_node h2 new" "Suc i + length preds \<le> nht h2 new" "new \<notin> set preds"
      using Cons.prems(1-3) sh by (simp_all add: same_shape_def)
    show "\<forall>j < length preds. is_node h2 (preds ! j) \<and> Suc i + j < nht h2 (preds ! j)"
    proof (intro allI impI)
      fix j assume "j < length preds"
      then show "is_node h2 (preds ! j) \<and> Suc i + j < nht h2 (preds ! j)"
        using Cons.prems(4) [rule_format, of "Suc j"] sh by (simp add: same_shape_def)
    qed
  qed
  then obtain h' where h': "splice h2 new (Suc i) preds = Inr h'" "same_shape h2 h'"
    "\<And>b l. next_at h' b l =
       (if Suc i \<le> l \<and> l < Suc i + length preds
        then if b = new then next_at h2 (preds ! (l - Suc i)) l
             else if b = preds ! (l - Suc i) then Inr (Some new) else next_at h2 b l
        else next_at h2 b l)"
    by blast
  have "next_at h' b l =
       (if i \<le> l \<and> l < i + length (p # preds)
        then if b = new then next_at h ((p # preds) ! (l - i)) l
             else if b = (p # preds) ! (l - i) then Inr (Some new) else next_at h b l
        else next_at h b l)" for b l
  proof (cases "l = i")
    case True
    then show ?thesis using h'(3) [of b l] h2(3) h1(3) p(3) nx by auto
  next
    case False
    then have eq2: "next_at h2 c l = next_at h c l" for c using h2(3) h1(3) by simp
    show ?thesis
    proof (cases "Suc i \<le> l")
      case True
      then have "(p # preds) ! (l - i) = preds ! (l - Suc i)"
        by (metis Suc_diff_le diff_Suc_Suc nth_Cons_Suc)
      then show ?thesis using h'(3) [of b l] eq2 True by auto
    next
      case False
      then show ?thesis using h'(3) [of b l] eq2 \<open>l \<noteq> i\<close> by auto
    qed
  qed
  then show ?case
    using h1(1) h2(1) h'(1) nx same_shape_trans [OF sh h'(2)] by auto
qed

subsection \<open>Insertion\<close>

text \<open>A fresh node does not disturb the lanes.\<close>

lemma lanes_ok_transfer:
  assumes ok: "lanes_ok h s ml as"
    and same: "\<And>a. a \<in> set (s # as) \<Longrightarrow> is_node h' a \<and> nkey h' a = nkey h a \<and> nht h' a = nht h a \<and>
      (\<forall>i. next_at h' a i = next_at h a i)"
  shows "lanes_ok h' s ml as"
proof -
  have on: "on_lane h' i as = on_lane h i as" for i
    unfolding on_lane_def using same by (intro filter_cong) auto
  have "lane h' i s (on_lane h i as) = lane h i s (on_lane h i as)" for i
    using same by (intro lane_cong) (auto simp: on_lane_def)
  moreover have maps: "map (nkey h') as = map (nkey h) as" using same by simp
  ultimately show ?thesis
    unfolding lanes_ok_def on maps using ok same by (simp add: lanes_ok_def)
qed

lemma lanes_ok_nodes: "lanes_ok h s ml as \<Longrightarrow> a \<in> set (s # as) \<Longrightarrow> is_node h a"
  by (auto simp: lanes_ok_def)

lemma lanes_ok_alloc:
  assumes ok: "lanes_ok h s ml as"
  shows "lanes_ok (h @ [x]) s ml as" "ents (h @ [x]) as = ents h as"
proof -
  have old: "the_node (h @ [x]) a = the_node h a" if "a \<in> set (s # as)" for a
    using lanes_ok_nodes [OF ok that] by (intro the_node_append) (simp add: is_node_def)
  show "lanes_ok (h @ [x]) s ml as"
    using lanes_ok_nodes [OF ok] old
    by (intro lanes_ok_transfer [OF ok]) (simp add: is_node_append next_at_append)
  show "ents (h @ [x]) as = ents h as" using old by (simp add: ents_def)
qed

lemma bt_insert_between:
  assumes "\<forall>e \<in> set xs. fst e < k" "\<forall>e \<in> set ys. k < fst e"
  shows "bt_insert k v (xs @ ys) = xs @ (k, v) # ys"
proof -
  have "bt_insert k v ys = (k, v) # ys" using assms(2) by (cases ys) auto
  then show ?thesis using assms(1) by (induction xs) auto
qed

lemma bt_insert_present:
  "sorted_keys m \<Longrightarrow> k \<in> fst ` set m \<Longrightarrow>
     bt_insert k v m = map (\<lambda>(k', w). (k', if k' = k then v else w)) m"
proof (induction m)
  case (Cons e m)
  show ?case
  proof (cases "fst e = k")
    case True
    have "map (\<lambda>(k', w). (k', if k' = k then v else w)) m = m"
      using Cons.prems(1) True by (intro map_idI) (auto simp: sorted_keys_Cons)
    then show ?thesis using True by (cases e) simp
  next
    case False
    then have "k \<in> fst ` set m" "\<not> k < fst e" using Cons.prems by (auto simp: sorted_keys_Cons)
    then show ?thesis using Cons False by (cases e) (simp add: sorted_keys_Cons)
  qed
qed simp

lemma ents_split:
  assumes ok: "lanes_ok h s ml as"
  shows "\<forall>e \<in> set (ents h (below h k as)). fst e < k"
    "\<forall>e \<in> set (ents h (from_on h k as)). k \<le> fst e"
    "ents h as = ents h (below h k as) @ ents h (from_on h k as)"
proof -
  show "\<forall>e \<in> set (ents h (below h k as)). fst e < k"
    by (auto simp: ents_def dest: below_less)
  show "\<forall>e \<in> set (ents h (from_on h k as)). k \<le> fst e"
    using ok from_on_ge by (auto simp: ents_def lanes_ok_def)
  show "ents h as = ents h (below h k as) @ ents h (from_on h k as)"
    unfolding ents_def map_append [symmetric] by simp
qed

text \<open>The order of the nodes with a new one between those below its key and those above.\<close>

lemma fresh_order:
  assumes ok: "lanes_ok h s ml as" and new: "new \<notin> set (s # as)" and key: "nkey h new = k"
    and absent: "from_on h k as = [] \<or> k < nkey h (hd (from_on h k as))"
  shows "set (below h k as @ new # from_on h k as) = insert new (set as)"
    "distinct (s # below h k as @ new # from_on h k as)"
    "sorted_wrt (<) (map (nkey h) (below h k as @ new # from_on h k as))"
proof -
  have parts: "set as = set (below h k as) \<union> set (from_on h k as)"
    using below_from_on [of h k as] by (metis set_append)
  then show "set (below h k as @ new # from_on h k as) = insert new (set as)" by auto
  have "distinct as" "s \<notin> set as" using ok by (simp_all add: lanes_ok_def)
  then have "distinct (below h k as)" "distinct (from_on h k as)" "set (below h k as) \<inter> set (from_on h k as) = {}"
    using below_from_on [of h k as] by (metis distinct_append)+
  then show "distinct (s # below h k as @ new # from_on h k as)" using new \<open>s \<notin> set as\<close> parts by auto
  have both: "sorted_wrt (<) (map (nkey h) (below h k as @ from_on h k as))" using ok by (simp add: lanes_ok_def)
  have gt: "k < nkey h a" if "a \<in> set (from_on h k as)" for a
  proof (cases "from_on h k as")
    case (Cons y ys)
    then show ?thesis using both absent that by (auto simp: sorted_wrt_append intro: less_trans simp del: below_from_on)
  qed (use that in simp)
  show "sorted_wrt (<) (map (nkey h) (below h k as @ new # from_on h k as))"
    using gt key below_less both by (auto simp: sorted_wrt_append simp del: below_from_on)
qed

text \<open>Linking a fresh, unlinked node of height \<open>lvl + 1\<close> behind its predecessors.\<close>

lemma insert_fresh:
  assumes ok: "lanes_ok h s ml as" and new: "is_node h new" "new \<notin> set (s # as)"
    and node: "nkey h new = k" "nval h new = v" "nht h new = Suc lvl" and lvl: "lvl < ml"
    and absent: "from_on h k as = [] \<or> k < nkey h (hd (from_on h k as))"
    and preds: "length preds = Suc lvl" "\<forall>j < Suc lvl. preds ! j = pred_on h s k as j"
  shows "\<exists>h'. splice h new 0 preds = Inr h' \<and> same_shape h h' \<and>
    lanes_ok h' s ml (below h k as @ new # from_on h k as)"
proof -
  have pn: "is_node h (preds ! j) \<and> j < nht h (preds ! j) \<and> preds ! j \<in> set (s # as)"
    if "j < Suc lvl" for j
    using pred_on_cases [of h s k as j] ok preds that lvl
    by (auto simp: lanes_ok_def dest: below_less)
  have notin: "new \<notin> set preds"
    using pn new(2) preds(1) by (metis in_set_conv_nth)
  obtain h' where h': "splice h new 0 preds = Inr h'" "same_shape h h'"
    "\<And>b l. next_at h' b l = (if l < Suc lvl then if b = new then next_at h (preds ! l) l
             else if b = preds ! l then Inr (Some new) else next_at h b l else next_at h b l)"
    using splice_ok [of h new 0 preds] new(1) node(3) pn notin preds(1) by auto
  let ?as = "below h k as @ new # from_on h k as"
  have nodes: "is_node h a" if "a \<in> set (s # as)" for a using lanes_ok_nodes [OF ok that] .
  note asplit = fresh_order [OF ok new(2) node(1) absent]
  have nodes': "is_node h a" if "a \<in> set (s # ?as)" for a
  proof -
    have "a = s \<or> a = new \<or> a \<in> set as" using that asplit(1) by (metis insert_iff list.simps(15))
    then show ?thesis using nodes new(1) by auto
  qed
  have shape: "nkey h' a = nkey h a \<and> nht h' a = nht h a \<and> is_node h' a" if "a \<in> set (s # ?as)" for a
    using h'(2) nodes' [OF that] by (simp add: same_shape_def)
  have keys: "map (nkey h') ?as = map (nkey h) ?as"
    using shape by (intro map_cong refl) (metis list.set_intros(2))
  have hts: "\<forall>a \<in> set (s # ?as). nht h' a = nht h a \<and> is_node h' a"
    using shape by blast
  have lanes: "lane h' i s (on_lane h' i ?as)" if i: "i < ml" for i
  proof -
    have on: "on_lane h' i ?as = on_lane h i ?as"
      unfolding on_lane_def using hts by (intro filter_cong) auto
    have old: "lane h i s (on_lane h i (below h k as) @ on_lane h i (from_on h k as))"
      using ok i by (simp add: lanes_ok_def flip: on_lane_append)
    have dist: "distinct (s # on_lane h i (below h k as) @ on_lane h i (from_on h k as))"
      using ok by (simp add: lanes_ok_def on_lane_def flip: filter_append)
    have fresh: "new \<notin> set (s # on_lane h i (below h k as) @ on_lane h i (from_on h k as))"
      using new(2) by (auto simp: on_lane_def simp flip: filter_append)
    show ?thesis
    proof (cases "i < Suc lvl")
      case True
      have "lane h' i s (on_lane h i (below h k as) @ new # on_lane h i (from_on h k as))"
        using True preds(2) h'(3) fresh
        by (intro lane_insert [OF old dist fresh])
          (auto simp: pred_on_def split: if_splits)
      then show ?thesis unfolding on using True node(3) by (simp add: on_lane_def)
    next
      case False
      have "lane h' i s (on_lane h i (below h k as) @ on_lane h i (from_on h k as))"
        using old False h'(3) by (subst lane_cong [where h = h]) auto
      then show ?thesis unfolding on using False node(3) by (simp add: on_lane_def)
    qed
  qed
  have heights: "0 < nht h' a \<and> nht h' a \<le> ml" if "a \<in> set ?as" for a
  proof -
    have "nht h' a = nht h a" using hts that by auto
    moreover have "a = new \<or> a \<in> set as" using that asplit(1) by auto
    ultimately show ?thesis using ok node(3) lvl by (auto simp: lanes_ok_def)
  qed
  have "0 < ml" "nht h s = ml" using ok by (simp_all add: lanes_ok_def)
  then have "lanes_ok h' s ml ?as"
    unfolding lanes_ok_def keys using asplit(2,3) hts lanes heights by simp
  with h' show ?thesis by blast
qed

text \<open>Overwriting the value of a present key in place and freeing the unused new node.\<close>

lemma insert_present:
  assumes ok: "lanes_ok h s ml as" and a: "a \<in> set as" and x: "x \<noteq> None"
  shows "\<exists>h3. and_then (set_value (h @ [x]) a v) (\<lambda>h2. node_free h2 (length h)) = Inr h3 \<and>
    lanes_ok h3 s ml as \<and> (\<forall>b. is_node h3 b = is_node h b) \<and>
    (\<forall>b \<in> set as. nval h3 b = (if b = a then v else nval h b) \<and> nkey h3 b = nkey h b)"
proof -
  have na: "is_node h a" "a < length h" using lanes_ok_nodes [OF ok, of a] a by (auto simp: is_node_def)
  define h3 where "h3 = h[a := Some ((the_node h a)\<lparr>node_val := v\<rparr>)] @ [None]"
  have sv: "set_value (h @ [x]) a v = Inr (h[a := Some ((the_node h a)\<lparr>node_val := v\<rparr>)] @ [x])"
    using na by (simp add: set_value_def deref_node [OF is_node_append] the_node_append list_update_append)
  have fr: "node_free (h[a := Some ((the_node h a)\<lparr>node_val := v\<rparr>)] @ [x]) (length h) = Inr h3"
    using x by (auto simp: node_free_def deref_def h3_def nth_append list_update_append)
  have nodes: "is_node h3 b = is_node h b" for b
    using na by (auto simp: h3_def is_node_def nth_append nth_list_update)
  have the3: "the_node h3 b = (if b = a then (the_node h a)\<lparr>node_val := v\<rparr> else the_node h b)" if "is_node h b" for b
    using that by (auto simp: h3_def the_node_def nth_append nth_list_update is_node_def)
  have nxt: "next_at h3 b i = next_at h b i" if "is_node h b" for b i
    using that nodes [of b] the3 [OF that] by (simp add: next_at_def deref_node)
  have "lanes_ok h3 s ml as"
    using lanes_ok_nodes [OF ok] nodes the3 nxt by (intro lanes_ok_transfer [OF ok]) auto
  moreover have "\<forall>b \<in> set as. nval h3 b = (if b = a then v else nval h b) \<and> nkey h3 b = nkey h b"
    using lanes_ok_nodes [OF ok] the3 by auto
  ultimately show ?thesis using sv fr nodes by auto
qed

lemma key_at_succ:
  assumes ok: "lanes_ok h s ml as"
  shows "key_at h (case from_on h k as of [] \<Rightarrow> None | y # _ \<Rightarrow> Some y) k =
    Inr (case from_on h k as of [] \<Rightarrow> None | y # _ \<Rightarrow> if nkey h y = k then Some y else None)"
proof (cases "from_on h k as")
  case (Cons y ys)
  then have "y \<in> set as" by (metis from_on_def list.set_intros(1) set_dropWhileD)
  then have "is_node h y" using lanes_ok_nodes [OF ok] by auto
  then show ?thesis using Cons by (simp add: key_at_def deref_node)
qed (simp add: key_at_def)

lemma hd_from_on_greater:
  assumes ok: "lanes_ok h s ml as" and "from_on h k as = y # ys" "nkey h y \<noteq> k"
  shows "k < nkey h y"
  using ents_split(2) [OF ok, of k] assms(2,3) by (auto simp: ents_def)

lemma absent_key:
  assumes ok: "lanes_ok h s ml as" and gt: "from_on h k as = [] \<or> k < nkey h (hd (from_on h k as))"
  shows "\<forall>e \<in> set (ents h (from_on h k as)). k < fst e" "k \<notin> fst ` set (ents h as)"
proof -
  show after: "\<forall>e \<in> set (ents h (from_on h k as)). k < fst e"
  proof (cases "from_on h k as")
    case (Cons y ys)
    have "sorted_wrt (<) (map (nkey h) (from_on h k as))"
      using ok below_from_on [of h k as] by (metis lanes_ok_def map_append sorted_wrt_append)
    then show ?thesis using gt Cons by (auto simp: ents_def intro: less_trans)
  qed (simp add: ents_def)
  show "k \<notin> fst ` set (ents h as)"
    using after ents_split(1) [OF ok, of k] ents_split(3) [OF ok, of k] by fastforce
qed

text \<open>The insertion after its search: the node at or behind the key decides between the two cases.\<close>

definition new_weight :: "nat \<Rightarrow> bytes \<Rightarrow> bytes \<Rightarrow> nat" where
  "new_weight lvl k v = length k + length v + (lvl + 1) * size_of_ptr + size_of_node + 2 * size_of_vec"

definition link_or_set :: "nat \<Rightarrow> bytes \<Rightarrow> bytes \<Rightarrow> arena \<Rightarrow> nat list \<Rightarrow> skiplist \<Rightarrow> nat option \<Rightarrow> skiplist res" where
  "link_or_set lvl k v h1 upd s existing =
     (case existing of
        Some a \<Rightarrow> and_then (set_value h1 a v) (\<lambda>h2. and_then (node_free h2 (length (arena s))) (\<lambda>h3. Inr (s\<lparr>arena := h3\<rparr>)))
      | None \<Rightarrow> and_then (splice h1 (length (arena s)) 0 (take (lvl + 1) upd)) (\<lambda>h2.
            Inr (s\<lparr>arena := h2, sl_size := sl_size s + new_weight lvl k v\<rparr>)))"

lemma sl_insert_at_unfold:
  assumes ok: "lanes_ok (arena s) (head s) (max_level s) as" and lvl: "lvl < max_level s"
    and h1: "h1 = arena s @ [Some \<lparr>node_key = k, node_val = v, node_next = replicate (lvl + 1) None\<rparr>]"
  shows "\<exists>upd. length upd = max_level s \<and> (\<forall>j < max_level s. upd ! j = pred_on h1 (head s) k as j) \<and>
    sl_insert_at lvl k v s = and_then (key_at h1 (case from_on h1 k as of [] \<Rightarrow> None | y # _ \<Rightarrow> Some y) k) (link_or_set lvl k v h1 upd s)"
proof -
  have ok1: "lanes_ok h1 (head s) (max_level s) as" unfolding h1 by (rule lanes_ok_alloc [OF ok])
  let ?ml = "max_level s" and ?s = "head s"
  have ml: "?ml \<noteq> 0" using lvl by simp
  obtain upd where upd: "seek_update h1 k ?ml ?s (replicate ?ml ?s) = Inr (pred_on h1 ?s k as 0, upd)"
    "length upd = ?ml" "\<forall>j < ?ml. upd ! j = pred_on h1 ?s k as j"
    using seek_update_spec [OF ok1 le_refl, of "replicate ?ml ?s" ?s k] ml by auto
  have "sl_insert_at lvl k v s = and_then (key_at h1 (case from_on h1 k as of [] \<Rightarrow> None | y # _ \<Rightarrow> Some y) k) (link_or_set lvl k v h1 upd s)"
    unfolding sl_insert_at_def node_new_def prod.case h1 [symmetric] upd(1) and_then_simps next_pred_0 [OF ok1] new_weight_def
      link_or_set_def ..
  then show ?thesis using upd(2,3) by blast
qed

lemma insert_at_present:
  assumes rep: "sl_rep s as" and lvl: "lvl < max_level s" and h1: "h1 = arena s @ [Some \<lparr>node_key = k, node_val = v, node_next = replicate (lvl + 1) None\<rparr>]"
    and y: "from_on h1 k as = y # ys" "nkey h1 y = k"
  shows "\<exists>s'. sl_insert_at lvl k v s = Inr s' \<and> sl_rep s' as \<and> ents (arena s') as = bt_insert k v (ents (arena s) as) \<and>
    head s' = head s \<and> max_level s' = max_level s \<and> sl_size s' = sl_size s \<and> k \<in> fst ` set (ents (arena s) as)"
proof -
  let ?h = "arena s" and ?ml = "max_level s" and ?s = "head s"
  have ok: "lanes_ok ?h ?s ?ml as" and only: "\<forall>a. is_node ?h a \<longrightarrow> a = ?s \<or> a \<in> set as" using rep by (simp_all add: sl_rep_def)
  have ok1: "lanes_ok h1 ?s ?ml as" unfolding h1 by (rule lanes_ok_alloc [OF ok])
  have mem: "y \<in> set as" using y(1) by (metis from_on_def list.set_intros(1) set_dropWhileD)
  obtain h3 where h3: "and_then (set_value h1 y v) (\<lambda>h2. node_free h2 (length ?h)) = Inr h3"
    "lanes_ok h3 ?s ?ml as" "\<forall>b. is_node h3 b = is_node ?h b"
    "\<forall>b \<in> set as. nval h3 b = (if b = y then v else nval ?h b) \<and> nkey h3 b = nkey ?h b"
    using insert_present [OF ok mem, of "Some \<lparr>node_key = k, node_val = v, node_next = replicate (lvl + 1) None\<rparr>" v] unfolding h1 by auto
  have res: "sl_insert_at lvl k v s = Inr (s\<lparr>arena := h3\<rparr>)"
    using sl_insert_at_unfold [OF ok lvl h1] y h3(1) unfolding key_at_succ [OF ok1] by (auto simp: and_then_Inr_iff link_or_set_def)
  have yk: "nkey ?h y = k" using y(2) mem lanes_ok_nodes [OF ok, of y] by (simp add: h1 the_node_append is_node_def)
  have inj: "b = y \<longleftrightarrow> nkey ?h b = k" if "b \<in> set as" for b
  proof -
    have "distinct (map (nkey ?h) as)" using ok by (simp add: lanes_ok_def strict_sorted_iff)
    then show ?thesis using yk that mem by (auto simp: distinct_map dest: inj_onD)
  qed
  have kin: "k \<in> fst ` set (ents ?h as)" using mem yk by (auto simp: ents_def image_iff)
  have "ents h3 as = bt_insert k v (ents ?h as)"
    unfolding bt_insert_present [OF lanes_ok_sorted [OF ok] kin] using h3(4) inj by (simp add: ents_def)
  moreover have "sl_rep (s\<lparr>arena := h3\<rparr>) as" using h3(2,3) only by (simp add: sl_rep_def)
  ultimately show ?thesis using res kin by auto
qed

lemma insert_at_absent:
  assumes rep: "sl_rep s as" and lvl: "lvl < max_level s" and h1: "h1 = arena s @ [Some \<lparr>node_key = k, node_val = v, node_next = replicate (lvl + 1) None\<rparr>]"
    and gt: "from_on h1 k as = [] \<or> k < nkey h1 (hd (from_on h1 k as))"
  shows "\<exists>s' as'. sl_insert_at lvl k v s = Inr s' \<and> sl_rep s' as' \<and> ents (arena s') as' = bt_insert k v (ents (arena s) as) \<and>
    head s' = head s \<and> max_level s' = max_level s \<and> sl_size s' = sl_size s + new_weight lvl k v \<and>
    k \<notin> fst ` set (ents (arena s) as)"
proof -
  let ?h = "arena s" and ?ml = "max_level s" and ?s = "head s" and ?f = "from_on h1 k as"
  let ?as' = "below h1 k as @ length ?h # ?f"
  have ok: "lanes_ok ?h ?s ?ml as" and only: "\<forall>a. is_node ?h a \<longrightarrow> a = ?s \<or> a \<in> set as" using rep by (simp_all add: sl_rep_def)
  have ok1: "lanes_ok h1 ?s ?ml as" and ents1: "ents h1 as = ents ?h as" unfolding h1 by (rule lanes_ok_alloc [OF ok])+
  note absent = absent_key [OF ok1 gt]
  have node: "is_node h1 (length ?h)" "the_node h1 (length ?h) = \<lparr>node_key = k, node_val = v, node_next = replicate (lvl + 1) None\<rparr>" by (simp_all add: h1 is_node_def the_node_def)
  have fresh: "length ?h \<notin> set (?s # as)" using lanes_ok_nodes [OF ok] by (auto simp: is_node_def)
  obtain upd where upd: "length upd = ?ml" "\<forall>j < ?ml. upd ! j = pred_on h1 ?s k as j"
    and start: "sl_insert_at lvl k v s = and_then (key_at h1 (case ?f of [] \<Rightarrow> None | y # _ \<Rightarrow> Some y) k) (link_or_set lvl k v h1 upd s)"
    using sl_insert_at_unfold [OF ok lvl h1] by blast
  obtain h' where h': "splice h1 (length ?h) 0 (take (lvl + 1) upd) = Inr h'" "same_shape h1 h'" "lanes_ok h' ?s ?ml ?as'"
    using insert_fresh [OF ok1 node(1) fresh _ _ _ lvl gt, of v "take (lvl + 1) upd"] node(2) upd lvl by auto
  let ?s' = "s\<lparr>arena := h', sl_size := sl_size s + new_weight lvl k v\<rparr>"
  have res: "sl_insert_at lvl k v s = Inr ?s'"
    unfolding start key_at_succ [OF ok1] link_or_set_def using gt h'(1) by (cases ?f) auto
  have shape: "nkey h' a = nkey h1 a \<and> nval h' a = nval h1 a" if "is_node h1 a" for a
    using h'(2) that by (simp add: same_shape_def)
  have sub: "set (below h1 k as) \<subseteq> set as" "set ?f \<subseteq> set as"
    by (auto simp: below_def from_on_def dest: set_takeWhileD set_dropWhileD)
  have "ents h' ?as' = ents h1 (below h1 k as) @ (k, v) # ents h1 ?f"
    using shape node lanes_ok_nodes [OF ok1] sub by (auto simp: ents_def)
  also have "\<dots> = bt_insert k v (ents h1 as)"
    unfolding ents_split(3) [OF ok1, of k] by (rule bt_insert_between [symmetric, OF ents_split(1) [OF ok1] absent(1)])
  finally have e: "ents h' ?as' = bt_insert k v (ents ?h as)" using ents1 by simp
  have "a = ?s \<or> a \<in> set ?as'" if "is_node h' a" for a
  proof -
    have "is_node h1 a" using h'(2) that by (simp add: same_shape_def)
    then have "a = length ?h \<or> is_node ?h a" by (auto simp: h1 is_node_def nth_append split: if_splits)
    then show ?thesis using only below_from_on [of h1 k as] by (metis Un_iff list.set_intros set_append)
  qed
  then have "sl_rep ?s' ?as'" using h'(3) by (simp add: sl_rep_def)
  then show ?thesis using res e absent(2) ents1 by auto
qed

lemma sl_insert_at_spec:
  assumes rep: "sl_rep s as" and lvl: "lvl < max_level s"
  shows "\<exists>s' as'. sl_insert_at lvl k v s = Inr s' \<and> sl_rep s' as' \<and>
    ents (arena s') as' = bt_insert k v (ents (arena s) as) \<and>
    head s' = head s \<and> max_level s' = max_level s \<and>
    sl_size s' = sl_size s + (if k \<in> fst ` set (ents (arena s) as) then 0
      else length k + length v + (lvl + 1) * size_of_ptr + size_of_node + 2 * size_of_vec)"
proof -
  define h1 where "h1 = arena s @ [Some \<lparr>node_key = k, node_val = v, node_next = replicate (lvl + 1) None\<rparr>]"
  have ok1: "lanes_ok h1 (head s) (max_level s) as"
    unfolding h1_def by (rule lanes_ok_alloc) (use rep in \<open>simp add: sl_rep_def\<close>)
  show ?thesis
  proof (cases "from_on h1 k as \<noteq> [] \<and> nkey h1 (hd (from_on h1 k as)) = k")
    case True
    then obtain y ys where "from_on h1 k as = y # ys" "nkey h1 y = k" by (cases "from_on h1 k as") auto
    from insert_at_present [OF rep lvl h1_def this] show ?thesis by auto
  next
    case False
    then have "from_on h1 k as = [] \<or> k < nkey h1 (hd (from_on h1 k as))"
      using hd_from_on_greater [OF ok1] by (cases "from_on h1 k as") auto
    from insert_at_absent [OF rep lvl h1_def this] show ?thesis by (auto simp: new_weight_def)
  qed
qed

end
