(* ===== verification/SkipListOps.thy ===== *)
theory SkipListOps
  imports SkipListCorrect
begin

text \<open>
  The remaining operations of the skip list against its sorted contents, and the interface the memtable
  relies on: the locale \<open>ordered_store\<close> collects what an ordered key/value store promises, its lemmas are
  proved once, and the skip list with its random generator is an instance.
\<close>

subsection \<open>Creation and lookup\<close>

lemma sl_new_rep:
  assumes "0 < ml"
  shows "\<exists>s. sl_new ml = Inr s \<and> sl_rep s [] \<and> ents (arena s) [] = [] \<and>
    max_level s = ml \<and> sl_size s = size_of_skiplist"
  using assms
  by (auto simp: sl_new_def node_new_def sl_rep_def lanes_ok_def is_node_def the_node_def on_lane_def
      next_at_def deref_def ents_def nth_append)

lemma map_of_ents_hit:
  assumes "lanes_ok h s ml as" "a \<in> set as"
  shows "map_of (ents h as) (nkey h a) = Some (nval h a)"
  using assms lanes_ok_sorted [OF assms(1)]
  by (intro map_of_is_SomeI sorted_keys_distinct) (auto simp: ents_def)

lemma sl_get_spec:
  assumes "sl_rep s as"
  shows "sl_get s k = Inr (map_of (ents (arena s) as) k)"
proof -
  let ?h = "arena s" and ?f = "from_on (arena s) k as"
  have ok: "lanes_ok ?h (head s) (max_level s) as" using assms by (simp add: sl_rep_def)
  have get: "sl_get s k = and_then (key_at ?h (case ?f of [] \<Rightarrow> None | y # _ \<Rightarrow> Some y) k) (\<lambda>hit.
      case hit of None \<Rightarrow> Inr None | Some a \<Rightarrow> and_then (deref ?h a) (\<lambda>n. Inr (Some (node_val n))))"
    unfolding sl_get_def seek_spec [OF ok] next_pred_0 [OF ok] and_then_simps ..
  show ?thesis
  proof (cases "?f \<noteq> [] \<and> nkey ?h (hd ?f) = k")
    case True
    then obtain y ys where y: "?f = y # ys" "nkey ?h y = k" by (cases ?f) auto
    have mem: "y \<in> set as" using y(1) by (metis from_on_def list.set_intros(1) set_dropWhileD)
    then have "is_node ?h y" using lanes_ok_nodes [OF ok] by auto
    then show ?thesis
      unfolding get key_at_succ [OF ok] using y map_of_ents_hit [OF ok mem] by (simp add: deref_node)
  next
    case False
    then have "?f = [] \<or> k < nkey ?h (hd ?f)"
      using hd_from_on_greater [OF ok] by (cases ?f) auto
    then have "map_of (ents ?h as) k = None"
      using absent_key(2) [OF ok] by (simp add: map_of_eq_None_iff)
    then show ?thesis unfolding get key_at_succ [OF ok] using False by (cases ?f) auto
  qed
qed

subsection \<open>Iteration\<close>

lemma drain_lane:
  assumes "case xs of [] \<Rightarrow> True | x # ys \<Rightarrow> lane h 0 x ys" "\<forall>a \<in> set xs. is_node h a" "length xs < fuel"
  shows "drain fuel h stop (case xs of [] \<Rightarrow> None | x # _ \<Rightarrow> Some x) =
    Inr (takeWhile (\<lambda>e. \<not> stop (fst e)) (ents h xs))"
  using assms
proof (induction xs arbitrary: fuel)
  case Nil
  then show ?case by (cases fuel) (auto simp: ents_def)
next
  case (Cons x xs)
  then obtain f where f: "fuel = Suc f" by (cases fuel) auto
  have nx: "next_at h x 0 = Inr (case xs of [] \<Rightarrow> None | y # _ \<Rightarrow> Some y)"
    using Cons.prems(1) by (cases xs) auto
  have "drain f h stop (case xs of [] \<Rightarrow> None | y # _ \<Rightarrow> Some y) =
      Inr (takeWhile (\<lambda>e. \<not> stop (fst e)) (ents h xs))"
    using Cons.prems f by (intro Cons.IH) (auto split: list.splits)
  then show ?case using Cons.prems(2) f nx by (simp add: deref_node ents_def)
qed

lemma lane_0:
  assumes ok: "lanes_ok h s ml as"
  shows "lane h 0 s as" "next_at h s 0 = Inr (case as of [] \<Rightarrow> None | y # _ \<Rightarrow> Some y)"
proof -
  show l: "lane h 0 s as" using ok on_lane_0 [OF ok] unfolding lanes_ok_def by metis
  show "next_at h s 0 = Inr (case as of [] \<Rightarrow> None | y # _ \<Rightarrow> Some y)"
    using l lane_next [of h 0 s "[]" as] by simp
qed

lemma lane_tl: "lane h i p (us @ vs) \<Longrightarrow> case vs of [] \<Rightarrow> True | x # ys \<Rightarrow> lane h i x ys"
  using lane_suffix [of h i p us] by (auto split: list.splits)

lemma sl_iter_spec:
  assumes "sl_rep s as"
  shows "sl_iter s = Inr (ents (arena s) as)"
proof -
  let ?h = "arena s"
  have ok: "lanes_ok ?h (head s) (max_level s) as" using assms by (simp add: sl_rep_def)
  have nodes: "\<forall>a \<in> set as. is_node ?h a" "distinct as" using ok by (simp_all add: lanes_ok_def)
  have "drain (Suc (length ?h)) ?h (\<lambda>_. False) (case as of [] \<Rightarrow> None | y # _ \<Rightarrow> Some y) =
      Inr (takeWhile (\<lambda>e. \<not> False) (ents ?h as))"
    using lane_tl [of ?h 0 "head s" "[]" as] lane_0(1) [OF ok] nodes length_le_arena [OF nodes(2,1)]
    by (intro drain_lane) auto
  then show ?thesis by (simp add: sl_iter_def lane_0(2) [OF ok])
qed

lemma dropWhile_ents: "dropWhile (\<lambda>e. fst e < k) (ents h as) = ents h (from_on h k as)"
  by (induction as) (auto simp: ents_def from_on_def)

lemma sl_scan_spec:
  assumes "sl_rep s as"
  shows "sl_scan s lo hi = Inr (filter (\<lambda>e. lo \<le> fst e \<and> fst e < hi) (ents (arena s) as))"
proof -
  let ?h = "arena s" and ?f = "from_on (arena s) lo as"
  have ok: "lanes_ok ?h (head s) (max_level s) as" using assms by (simp add: sl_rep_def)
  have nodes: "\<forall>a \<in> set ?f. is_node ?h a" "distinct ?f"
    using ok by (auto simp: lanes_ok_def from_on_def dest: set_dropWhileD)
  have "case ?f of [] \<Rightarrow> True | x # ys \<Rightarrow> lane ?h 0 x ys"
    using lane_0(1) [OF ok] by (intro lane_tl [of ?h 0 "head s" "below ?h lo as"]) simp
  then have "drain (Suc (length ?h)) ?h (\<lambda>k. hi \<le> k) (case ?f of [] \<Rightarrow> None | y # _ \<Rightarrow> Some y) =
      Inr (takeWhile (\<lambda>e. \<not> hi \<le> fst e) (ents ?h ?f))"
    using nodes length_le_arena [OF nodes(2,1)] by (intro drain_lane) auto
  moreover have "takeWhile (\<lambda>e. \<not> hi \<le> fst e) (ents ?h ?f) =
      filter (\<lambda>e. lo \<le> fst e \<and> fst e < hi) (ents ?h as)"
    unfolding dropWhile_ents [symmetric] not_le
    by (rule takeWhile_dropWhile_range [OF lanes_ok_sorted [OF ok]])
  ultimately show ?thesis by (simp add: sl_scan_def seek_spec [OF ok] next_pred_0 [OF ok])
qed

subsection \<open>Dropping the list\<close>

lemma free_node:
  assumes "is_node h a"
  shows "node_free h a = Inr (h[a := None])" "length (h[a := None]) = length h"
    "is_node (h[a := None]) b \<longleftrightarrow> is_node h b \<and> b \<noteq> a"
    "b \<noteq> a \<Longrightarrow> next_at (h[a := None]) b i = next_at h b i"
  using assms by (auto simp: node_free_def deref_def is_node_def next_at_def nth_list_update split: option.splits)

lemma free_chain_spec:
  assumes "case xs of [] \<Rightarrow> True | x # ys \<Rightarrow> lane h 0 x ys" "distinct xs"
    and "\<forall>a. is_node h a \<longleftrightarrow> a \<in> set xs" "length xs < fuel"
  shows "free_chain fuel h (case xs of [] \<Rightarrow> None | x # _ \<Rightarrow> Some x) = Inr (replicate (length h) None)"
  using assms
proof (induction xs arbitrary: fuel h)
  case Nil
  then have "h = replicate (length h) None"
    by (auto simp: is_node_def intro!: nth_equalityI)
  then show ?case using Nil by (cases fuel) auto
next
  case (Cons x xs)
  then obtain f where f: "fuel = Suc f" by (cases fuel) auto
  have x: "is_node h x" using Cons.prems(3) by simp
  note fr = free_node [OF x]
  have nx: "next_at h x 0 = Inr (case xs of [] \<Rightarrow> None | y # _ \<Rightarrow> Some y)"
    using Cons.prems(1) by (cases xs) auto
  have "free_chain f (h[x := None]) (case xs of [] \<Rightarrow> None | y # _ \<Rightarrow> Some y) =
      Inr (replicate (length (h[x := None])) None)"
  proof (rule Cons.IH)
    show "case xs of [] \<Rightarrow> True | y # ys \<Rightarrow> lane (h[x := None]) 0 y ys"
    proof (cases xs)
      case (Cons y ys)
      have "lane (h[x := None]) 0 y ys = lane h 0 y ys"
        using Cons.prems(2) Cons by (intro lane_cong fr(4)) auto
      then show ?thesis using Cons.prems(1) Cons by simp
    qed simp
  qed (use Cons.prems f fr(3) in auto)
  then show ?case using f nx fr(1) by simp
qed

lemma sl_drop_spec:
  assumes "sl_rep s as"
  shows "sl_drop s = Inr (replicate (length (arena s)) None)"
proof -
  let ?h = "arena s" and ?h' = "(arena s)[head s := None]"
  have ok: "lanes_ok ?h (head s) (max_level s) as" and only: "\<forall>a. is_node ?h a \<longrightarrow> a = head s \<or> a \<in> set as"
    using assms by (simp_all add: sl_rep_def)
  have hd: "is_node ?h (head s)" and as: "distinct as" "head s \<notin> set as" "\<forall>a \<in> set as. is_node ?h a"
    using ok by (simp_all add: lanes_ok_def)
  note fr = free_node [OF hd]
  have "case as of [] \<Rightarrow> True | x # ys \<Rightarrow> lane ?h' 0 x ys"
  proof (cases as)
    case (Cons x ys)
    have "lane ?h' 0 x ys = lane ?h 0 x ys" using as(2) Cons by (intro lane_cong fr(4)) auto
    then show ?thesis using lane_0(1) [OF ok] Cons by simp
  qed simp
  then have "free_chain (Suc (length ?h')) ?h' (case as of [] \<Rightarrow> None | x # _ \<Rightarrow> Some x) =
      Inr (replicate (length ?h') None)"
    using as only fr(3) length_le_arena [OF as(1,3)] by (intro free_chain_spec) auto
  then show ?thesis by (simp add: sl_drop_def lane_0(2) [OF ok] fr(1))
qed

subsection \<open>The level generator\<close>

lemma trailing_zeros_odd: "bit v 0 \<Longrightarrow> trailing_zeros v = 0"
  unfolding trailing_zeros_def by (subst upt_conv_Cons) simp_all

lemma random_level_zero: "fst (random_level rng ml) = 0"
  by (simp add: random_level_def Let_def trailing_zeros_odd bit_or_iff)

subsection \<open>The ordered store interface\<close>

locale ordered_store =
  fixes ins :: "bytes \<Rightarrow> bytes \<Rightarrow> 's \<Rightarrow> 's res"
    and get :: "'s \<Rightarrow> bytes \<Rightarrow> bytes option res"
    and iter :: "'s \<Rightarrow> entry list res"
    and scan :: "'s \<Rightarrow> bytes \<Rightarrow> bytes \<Rightarrow> entry list res"
    and contents :: "'s \<Rightarrow> entry list"
    and inv :: "'s \<Rightarrow> bool"
  assumes contents_sorted: "inv s \<Longrightarrow> sorted_keys (contents s)"
    and ins_ok: "inv s \<Longrightarrow> \<exists>s'. ins k v s = Inr s' \<and> inv s' \<and> contents s' = bt_insert k v (contents s)"
    and get_ok: "inv s \<Longrightarrow> get s k = Inr (map_of (contents s) k)"
    and iter_ok: "inv s \<Longrightarrow> iter s = Inr (contents s)"
    and scan_ok: "inv s \<Longrightarrow> scan s lo hi = Inr (filter (\<lambda>e. lo \<le> fst e \<and> fst e < hi) (contents s))"
begin

text \<open>A run of insertions, left to right.\<close>

fun ins_all :: "entry list \<Rightarrow> 's \<Rightarrow> 's res" where
  "ins_all [] s = Inr s"
| "ins_all ((k, v) # es) s = and_then (ins k v s) (ins_all es)"

lemma ins_all_ok:
  "inv s \<Longrightarrow> \<exists>s'. ins_all es s = Inr s' \<and> inv s' \<and> contents s' = bt_extend es (contents s)"
proof (induction es arbitrary: s)
  case (Cons e es)
  obtain k v where e: "e = (k, v)" by (cases e)
  obtain s1 where s1: "ins k v s = Inr s1" "inv s1" "contents s1 = bt_insert k v (contents s)"
    using ins_ok [OF Cons.prems] by blast
  show ?case using Cons.IH [OF s1(2)] s1 e by auto
qed simp

lemma get_after_ins_all:
  assumes "inv s" "ins_all es s = Inr s'"
  shows "get s' k = Inr (case map_of (rev es) k of Some v \<Rightarrow> Some v | None \<Rightarrow> map_of (contents s) k)"
proof -
  have "inv s' \<and> contents s' = bt_extend es (contents s)"
    using ins_all_ok [OF assms(1), of es] assms(2) by auto
  then show ?thesis by (simp add: get_ok map_of_bt_extend map_add_def)
qed

lemma scan_get:
  assumes "inv s" "scan s lo hi = Inr es"
  shows "(k, v) \<in> set es \<longleftrightarrow> lo \<le> k \<and> k < hi \<and> get s k = Inr (Some v)"
  using assms contents_sorted [OF assms(1)]
  by (auto simp: scan_ok get_ok map_of_eq_Some_iff [OF sorted_keys_distinct])

end

subsection \<open>The skip list as an ordered store\<close>

text \<open>The contents of a list are what \<open>iter\<close> yields; the state carries the thread-local generator.\<close>

definition sl_contents :: "skiplist \<Rightarrow> entry list" where
  "sl_contents s = (case sl_iter s of Inr es \<Rightarrow> es | Inl _ \<Rightarrow> [])"

definition sl_inv :: "skiplist \<Rightarrow> bool" where
  "sl_inv s \<longleftrightarrow> (\<exists>as. sl_rep s as)"

lemma sl_contents_rep: "sl_rep s as \<Longrightarrow> sl_contents s = ents (arena s) as"
  by (simp add: sl_contents_def sl_iter_spec)

lemma sl_inv_new:
  assumes "0 < ml"
  shows "\<exists>s. sl_new ml = Inr s \<and> sl_inv s \<and> sl_contents s = [] \<and> max_level s = ml \<and> sl_size s = size_of_skiplist"
  using sl_new_rep [OF assms] by (auto simp: sl_inv_def sl_contents_rep)

lemma sl_inv_max_level: "sl_inv s \<Longrightarrow> 0 < max_level s"
  by (auto simp: sl_inv_def sl_rep_def lanes_ok_def)

lemma sl_inv_sorted: "sl_inv s \<Longrightarrow> sorted_keys (sl_contents s)"
  by (auto simp: sl_inv_def sl_contents_rep sl_rep_def intro: lanes_ok_sorted)

text \<open>What \<open>insert\<close> adds to the size of a list: nothing for a key that is present.\<close>

definition grow :: "bytes \<Rightarrow> bytes \<Rightarrow> skiplist \<Rightarrow> nat" where
  "grow k v s = (if k \<in> fst ` set (sl_contents s) then 0
     else length k + length v + size_of_ptr + size_of_node + 2 * size_of_vec)"

lemma sl_insert_spec:
  assumes "sl_inv s"
  shows "\<exists>s'. sl_insert k v (s, rng) = Inr (s', xorshift rng) \<and> sl_inv s' \<and>
    sl_contents s' = bt_insert k v (sl_contents s) \<and> max_level s' = max_level s \<and>
    sl_size s' = sl_size s + grow k v s"
proof -
  obtain as where rep: "sl_rep s as" using assms by (auto simp: sl_inv_def)
  have lvl: "random_level rng (max_level s) = (0, xorshift rng)"
    using random_level_zero [of rng "max_level s"] by (simp add: random_level_def Let_def)
  obtain s' as' where s': "sl_insert_at 0 k v s = Inr s'" "sl_rep s' as'"
    "ents (arena s') as' = bt_insert k v (ents (arena s) as)" "max_level s' = max_level s"
    "sl_size s' = sl_size s + (if k \<in> fst ` set (ents (arena s) as) then 0
      else length k + length v + (0 + 1) * size_of_ptr + size_of_node + 2 * size_of_vec)"
    using sl_insert_at_spec [OF rep sl_inv_max_level [OF assms], of k v] by blast
  have "sl_insert k v (s, rng) = Inr (s', xorshift rng)" using lvl s'(1) by (simp add: sl_insert_def)
  then show ?thesis
    using s' rep by (auto simp: sl_inv_def sl_contents_rep grow_def)
qed

interpretation sl: ordered_store sl_insert "\<lambda>(s, rng). sl_get s" "\<lambda>(s, rng). sl_iter s"
  "\<lambda>(s, rng). sl_scan s" "\<lambda>(s, rng). sl_contents s" "\<lambda>(s, rng). sl_inv s"
proof (unfold_locales, goal_cases)
  case (1 s)
  then show ?case by (auto intro: sl_inv_sorted)
next
  case (2 s k v)
  then obtain l rng where s: "s = (l, rng)" "sl_inv l" by auto
  show ?case using sl_insert_spec [OF s(2), of k v rng] s(1) by auto
next
  case (3 s k)
  then show ?case by (auto simp: sl_inv_def sl_get_spec sl_contents_rep)
next
  case (4 s)
  then show ?case by (auto simp: sl_inv_def sl_iter_spec sl_contents_rep)
next
  case (5 s lo hi)
  then show ?case by (auto simp: sl_inv_def sl_scan_spec sl_contents_rep)
qed

end
