(* ===== verification/MemTable.thy ===== *)
theory MemTable
  imports SkipListOps
begin

text \<open>
  \<open>src/memtable/memtable.rs\<close>: an active skip list that takes the writes and at most one frozen
  (immutable) list that waits to be flushed. The thread-local random state of the skip list is threaded
  next to the table. The abstraction is the finite map \<open>mt_lookup\<close> (active over immutable); the
  proofs use the skip list only through the laws of \<open>ordered_store\<close> and the size law of \<open>insert\<close>.
\<close>

record memtable =
  active :: skiplist
  immutable :: "skiplist option"
  max_size :: nat

definition mt_default_max_size :: nat where
  "mt_default_max_size = 4 * 1024 * 1024"

definition mt_with_max_size :: "nat \<Rightarrow> memtable res" where
  "mt_with_max_size ms = and_then (sl_new 16) (\<lambda>a.
     Inr \<lparr>active = a, immutable = None, max_size = ms\<rparr>)"

definition mt_new :: "memtable res" where
  "mt_new = mt_with_max_size mt_default_max_size"

definition mt_freeze :: "memtable \<Rightarrow> (bool \<times> memtable) res" where
  "mt_freeze m =
     (if immutable m \<noteq> None then Inr (False, m)
      else and_then (sl_new 16) (\<lambda>fresh.
        if sl_size (active m) \<le> size_of_skiplist then Inr (False, m)
        else Inr (True, m\<lparr>active := fresh, immutable := Some (active m)\<rparr>)))"

definition mt_put_no_freeze :: "bytes \<Rightarrow> bytes \<Rightarrow> memtable \<times> u64 \<Rightarrow> (memtable \<times> u64) res" where
  "mt_put_no_freeze key val = (\<lambda>(m, rng).
     and_then (sl_insert key val (active m, rng)) (\<lambda>(a, rng'). Inr (m\<lparr>active := a\<rparr>, rng')))"

definition mt_put :: "bytes \<Rightarrow> bytes \<Rightarrow> memtable \<times> u64 \<Rightarrow> (memtable \<times> u64) res" where
  "mt_put key val = (\<lambda>(m, rng).
     and_then (sl_insert key val (active m, rng)) (\<lambda>(a, rng').
       let m1 = m\<lparr>active := a\<rparr> in
       if max_size m1 < sl_size (active m1)
       then and_then (mt_freeze m1) (\<lambda>(_, m2). Inr (m2, rng'))
       else Inr (m1, rng')))"

definition mt_get :: "memtable \<Rightarrow> bytes \<Rightarrow> bytes option res" where
  "mt_get m key = and_then (sl_get (active m) key) (\<lambda>hit.
     case hit of
       Some v \<Rightarrow> Inr (Some v)
     | None \<Rightarrow> (case immutable m of Some imm \<Rightarrow> sl_get imm key | None \<Rightarrow> Inr None))"

definition mt_scan :: "memtable \<Rightarrow> bytes \<Rightarrow> bytes \<Rightarrow> entry list res" where
  "mt_scan m start end =
     and_then (case immutable m of
                 Some imm \<Rightarrow> and_then (sl_scan imm start end) (\<lambda>es. Inr (bt_extend es []))
               | None \<Rightarrow> Inr []) (\<lambda>older.
     and_then (sl_scan (active m) start end) (\<lambda>es. Inr (bt_extend es older)))"

definition mt_active_size :: "memtable \<Rightarrow> nat" where
  "mt_active_size m = sl_size (active m)"

definition mt_immutable_size :: "memtable \<Rightarrow> nat option" where
  "mt_immutable_size m = map_option sl_size (immutable m)"

definition mt_has_immutable :: "memtable \<Rightarrow> bool" where
  "mt_has_immutable m \<longleftrightarrow> immutable m \<noteq> None"

definition mt_take_immutable :: "memtable \<Rightarrow> skiplist option \<times> memtable" where
  "mt_take_immutable m = (immutable m, m\<lparr>immutable := None\<rparr>)"

subsection \<open>Invariant and abstraction\<close>

text \<open>\<open>freeze\<close> takes a list whose size is that of a new one to be empty; \<open>sl_sized\<close> is why it may.\<close>

definition sl_sized :: "skiplist \<Rightarrow> bool" where
  "sl_sized s \<longleftrightarrow> sl_inv s \<and> size_of_skiplist \<le> sl_size s \<and>
     (sl_size s = size_of_skiplist \<longleftrightarrow> sl_contents s = [])"

definition mt_inv :: "memtable \<Rightarrow> bool" where
  "mt_inv m \<longleftrightarrow> sl_sized (active m) \<and>
     (case immutable m of None \<Rightarrow> True | Some imm \<Rightarrow> sl_sized imm \<and> sl_contents imm \<noteq> [])"

definition imm_contents :: "memtable \<Rightarrow> entry list" where
  "imm_contents m = (case immutable m of None \<Rightarrow> [] | Some imm \<Rightarrow> sl_contents imm)"

definition mt_lookup :: "memtable \<Rightarrow> bytes \<Rightarrow> bytes option" where
  "mt_lookup m = map_of (imm_contents m) ++ map_of (sl_contents (active m))"

lemmas sl_laws = sl.get_ok [of "(s, r)" for s r, simplified] sl.scan_ok [of "(s, r)" for s r, simplified]
  sl.iter_ok [of "(s, r)" for s r, simplified]

lemma sl_sized_new:
  obtains s where "sl_new 16 = Inr s" "sl_sized s" "sl_contents s = []"
  using sl_inv_new [of 16] by (auto simp: sl_sized_def)

lemma sl_sized_insert:
  assumes "sl_sized s"
  obtains s' where "sl_insert k v (s, rng) = Inr (s', xorshift rng)" "sl_sized s'"
    "sl_contents s' = bt_insert k v (sl_contents s)" "sl_size s' = sl_size s + grow k v s"
proof -
  have inv: "sl_inv s" using assms by (simp add: sl_sized_def)
  obtain s' where s': "sl_insert k v (s, rng) = Inr (s', xorshift rng)" "sl_inv s'"
    "sl_contents s' = bt_insert k v (sl_contents s)" "sl_size s' = sl_size s + grow k v s"
    using sl_insert_spec [OF inv, of k v rng] by blast
  have "sl_size s' \<noteq> size_of_skiplist"
  proof (cases "k \<in> fst ` set (sl_contents s)")
    case True
    then have "sl_contents s \<noteq> []" by auto
    then show ?thesis using assms s'(4) by (auto simp: sl_sized_def)
  next
    case False
    then show ?thesis using assms s'(4) by (simp add: grow_def sl_sized_def size_of_node_def)
  qed
  then have "sl_sized s'" using assms s' by (simp add: sl_sized_def)
  then show ?thesis using that s' by blast
qed

lemma mt_new_spec:
  "\<exists>m. mt_with_max_size ms = Inr m \<and> mt_inv m \<and> mt_lookup m = Map.empty \<and> immutable m = None \<and> max_size m = ms"
  by (rule sl_sized_new)
    (auto simp: mt_with_max_size_def mt_inv_def mt_lookup_def imm_contents_def)

lemma mt_freeze_spec:
  assumes "mt_inv m"
  shows "\<exists>b m'. mt_freeze m = Inr (b, m') \<and> mt_inv m' \<and> mt_lookup m' = mt_lookup m \<and>
    max_size m' = max_size m \<and> (b \<longleftrightarrow> immutable m = None \<and> sl_contents (active m) \<noteq> []) \<and>
    (if b then immutable m' = Some (active m) \<and> sl_contents (active m') = [] else m' = m)"
proof -
  obtain fresh where fresh: "sl_new 16 = Inr fresh" "sl_sized fresh" "sl_contents fresh = []"
    by (rule sl_sized_new)
  have sz: "sl_sized (active m)" using assms by (simp add: mt_inv_def)
  then have sz': "sl_size (active m) \<le> size_of_skiplist \<longleftrightarrow> sl_contents (active m) = []"
    by (auto simp: sl_sized_def)
  consider (full) "immutable m \<noteq> None" | (empty) "immutable m = None" "sl_contents (active m) = []"
    | (freeze) "immutable m = None" "sl_contents (active m) \<noteq> []" by blast
  then show ?thesis
  proof cases
    case full
    then show ?thesis using assms by (simp add: mt_freeze_def)
  next
    case empty
    then show ?thesis using assms sz' fresh(1) by (intro exI [of _ False]) (simp add: mt_freeze_def)
  next
    case freeze
    then show ?thesis
      using fresh sz sz' by (intro exI [of _ True]) (simp add: mt_freeze_def mt_inv_def mt_lookup_def imm_contents_def)
  qed
qed

lemma mt_put_no_freeze_spec:
  assumes "mt_inv m"
  shows "\<exists>m'. mt_put_no_freeze k v (m, rng) = Inr (m', xorshift rng) \<and> mt_inv m' \<and>
    mt_lookup m' = (mt_lookup m)(k \<mapsto> v) \<and> immutable m' = immutable m \<and> max_size m' = max_size m \<and>
    sl_contents (active m') = bt_insert k v (sl_contents (active m)) \<and>
    sl_size (active m') = sl_size (active m) + grow k v (active m)"
proof -
  have "sl_sized (active m)" using assms by (simp add: mt_inv_def)
  then obtain a where a: "sl_insert k v (active m, rng) = Inr (a, xorshift rng)" "sl_sized a"
    "sl_contents a = bt_insert k v (sl_contents (active m))" "sl_size a = sl_size (active m) + grow k v (active m)"
    by (rule sl_sized_insert)
  then show ?thesis
    using assms by (simp add: mt_put_no_freeze_def mt_inv_def mt_lookup_def imm_contents_def)
qed

lemma mt_put_via_no_freeze:
  "mt_put k v (m, rng) = and_then (mt_put_no_freeze k v (m, rng)) (\<lambda>(m1, rng').
     if max_size m1 < sl_size (active m1) then and_then (mt_freeze m1) (\<lambda>(_, m2). Inr (m2, rng'))
     else Inr (m1, rng'))"
  by (cases "sl_insert k v (active m, rng)") (auto simp: mt_put_def mt_put_no_freeze_def Let_def)

lemma mt_put_spec:
  assumes "mt_inv m"
  shows "\<exists>m'. mt_put k v (m, rng) = Inr (m', xorshift rng) \<and> mt_inv m' \<and>
    mt_lookup m' = (mt_lookup m)(k \<mapsto> v) \<and> max_size m' = max_size m \<and>
    (immutable m \<noteq> None \<longrightarrow> immutable m' = immutable m) \<and>
    (immutable m = None \<longrightarrow> (immutable m' \<noteq> None \<longleftrightarrow> max_size m < sl_size (active m) + grow k v (active m)) \<and>
       (immutable m' \<noteq> None \<longrightarrow> sl_contents (active m') = []))"
proof -
  obtain m1 where m1: "mt_put_no_freeze k v (m, rng) = Inr (m1, xorshift rng)" "mt_inv m1"
    "mt_lookup m1 = (mt_lookup m)(k \<mapsto> v)" "immutable m1 = immutable m" "max_size m1 = max_size m"
    "sl_contents (active m1) = bt_insert k v (sl_contents (active m))"
    "sl_size (active m1) = sl_size (active m) + grow k v (active m)"
    using mt_put_no_freeze_spec [OF assms, of k v rng] by blast
  obtain b m2 where m2: "mt_freeze m1 = Inr (b, m2)" "mt_inv m2" "mt_lookup m2 = mt_lookup m1"
    "max_size m2 = max_size m1" "b \<longleftrightarrow> immutable m1 = None \<and> sl_contents (active m1) \<noteq> []"
    "if b then immutable m2 = Some (active m1) \<and> sl_contents (active m2) = [] else m2 = m1"
    using mt_freeze_spec [OF m1(2)] by blast
  show ?thesis
    using m1 m2 by (auto simp: mt_put_via_no_freeze split: if_splits)
qed

text \<open>Between flushes nothing is frozen; then a put either stays in the active list or freezes all of it.\<close>

lemma mt_put_frozen:
  assumes "mt_inv m" "immutable m = None"
  shows "\<exists>m'. mt_put k v (m, rng) = Inr (m', xorshift rng) \<and> mt_inv m' \<and> mt_lookup m' = (mt_lookup m)(k \<mapsto> v) \<and>
    max_size m' = max_size m \<and>
    (case immutable m' of
       None \<Rightarrow> sl_contents (active m') = bt_insert k v (sl_contents (active m))
     | Some l \<Rightarrow> sl_contents (active m') = [] \<and> sl_contents l = bt_insert k v (sl_contents (active m)))"
proof -
  obtain m1 where m1: "mt_put_no_freeze k v (m, rng) = Inr (m1, xorshift rng)" "mt_inv m1"
    "mt_lookup m1 = (mt_lookup m)(k \<mapsto> v)" "immutable m1 = immutable m" "max_size m1 = max_size m"
    "sl_contents (active m1) = bt_insert k v (sl_contents (active m))"
    using mt_put_no_freeze_spec [OF assms(1), of k v rng] by blast
  obtain b m2 where m2: "mt_freeze m1 = Inr (b, m2)" "mt_inv m2" "mt_lookup m2 = mt_lookup m1"
    "max_size m2 = max_size m1" "b \<longleftrightarrow> immutable m1 = None \<and> sl_contents (active m1) \<noteq> []"
    "if b then immutable m2 = Some (active m1) \<and> sl_contents (active m2) = [] else m2 = m1"
    using mt_freeze_spec [OF m1(2)] by blast
  show ?thesis
    using m1 m2 assms(2) by (auto simp: mt_put_via_no_freeze split: if_splits)
qed

text \<open>While a frozen list waits, everything goes to the active one, however large it grows.\<close>

lemma mt_put_waiting:
  assumes "mt_inv m" "immutable m = Some l"
  shows "\<exists>m'. mt_put k v (m, rng) = Inr (m', xorshift rng) \<and> mt_inv m' \<and> mt_lookup m' = (mt_lookup m)(k \<mapsto> v) \<and>
    immutable m' = Some l \<and> sl_contents (active m') = bt_insert k v (sl_contents (active m))"
proof -
  obtain m1 where m1: "mt_put_no_freeze k v (m, rng) = Inr (m1, xorshift rng)" "mt_inv m1"
    "mt_lookup m1 = (mt_lookup m)(k \<mapsto> v)" "immutable m1 = immutable m" "max_size m1 = max_size m"
    "sl_contents (active m1) = bt_insert k v (sl_contents (active m))"
    using mt_put_no_freeze_spec [OF assms(1), of k v rng] by blast
  obtain b m2 where m2: "mt_freeze m1 = Inr (b, m2)" "b \<longleftrightarrow> immutable m1 = None \<and> sl_contents (active m1) \<noteq> []"
    "if b then immutable m2 = Some (active m1) \<and> sl_contents (active m2) = [] else m2 = m1"
    using mt_freeze_spec [OF m1(2)] by blast
  show ?thesis
    using m1 m2 assms(2) by (auto simp: mt_put_via_no_freeze split: if_splits)
qed

subsection \<open>Reads\<close>

lemma mt_inv_lists:
  assumes "mt_inv m"
  shows "sl_inv (active m)" "immutable m = Some imm \<Longrightarrow> sl_inv imm"
    "sorted_keys (imm_contents m)" "sorted_keys (sl_contents (active m))"
  using assms by (auto simp: mt_inv_def sl_sized_def imm_contents_def sl_inv_sorted split: option.splits)

lemma mt_get_spec:
  assumes "mt_inv m"
  shows "mt_get m k = Inr (mt_lookup m k)"
  using mt_inv_lists [OF assms]
  by (cases "immutable m"; cases "map_of (sl_contents (active m)) k")
    (auto simp: mt_get_def mt_lookup_def imm_contents_def sl_laws map_add_def)

text \<open>The contents of the table: what a scan of everything would yield.\<close>

definition mt_contents :: "memtable \<Rightarrow> entry list" where
  "mt_contents m = bt_extend (sl_contents (active m)) (imm_contents m)"

lemma mt_contents_spec:
  assumes "mt_inv m"
  shows "sorted_keys (mt_contents m)" "map_of (mt_contents m) = mt_lookup m"
  using mt_inv_lists [OF assms]
  by (simp_all add: mt_contents_def mt_lookup_def map_of_bt_extend_sorted)

lemma bt_extend_sorted_empty: "sorted_keys es \<Longrightarrow> bt_extend es [] = es"
  by (rule sorted_keys_eqI) (simp_all add: map_of_bt_extend_sorted)

lemma mt_scan_spec:
  assumes "mt_inv m"
  shows "mt_scan m lo hi = Inr (filter (\<lambda>e. lo \<le> fst e \<and> fst e < hi) (mt_contents m))"
proof -
  let ?R = "\<lambda>e :: entry. lo \<le> fst e \<and> fst e < hi"
  note inv = mt_inv_lists [OF assms]
  have "mt_scan m lo hi = Inr (bt_extend (filter ?R (sl_contents (active m))) (filter ?R (imm_contents m)))"
    using inv by (cases "immutable m")
      (auto simp: mt_scan_def imm_contents_def sl_laws bt_extend_sorted_empty sorted_keys_filter)
  moreover have "bt_extend (filter ?R (sl_contents (active m))) (filter ?R (imm_contents m)) = filter ?R (mt_contents m)"
    using inv mt_contents_spec(1) [OF assms]
    by (intro sorted_keys_eqI)
      (auto simp: sorted_keys_filter map_of_bt_extend_sorted mt_contents_def fun_eq_iff map_add_def map_of_range
        split: option.splits)
  ultimately show ?thesis by simp
qed

lemma mt_take_immutable_spec:
  assumes "mt_inv m" "mt_take_immutable m = (Some imm, m')"
  shows "mt_inv m'" "immutable m' = None" "sl_iter imm = Inr (sl_contents imm)" "sl_contents imm \<noteq> []"
    "sorted_keys (sl_contents imm)" "mt_lookup m = map_of (sl_contents imm) ++ mt_lookup m'"
  using assms
  by (auto simp: mt_take_immutable_def mt_inv_def mt_lookup_def imm_contents_def sl_sized_def sl_laws sl_inv_sorted)

end
