(* ===== verification/ValueCodec.thy ===== *)
theory ValueCodec
  imports Errors
begin

text \<open>
  The value encoding of \<open>src/engine.rs\<close>: the sequence-number prefix, the tombstone and TTL markers
  inside it, what a read makes of a stored value, and the upper bound of a prefix scan. The clock
  (\<open>SystemTime::now()\<close> in seconds) is the parameter \<open>now\<close>.
\<close>

subsection \<open>Stored values\<close>

definition tombstone :: bytes where
  "tombstone = [0]"

definition encode_with_seq :: "bytes \<Rightarrow> u64 \<Rightarrow> bytes" where
  "encode_with_seq val seq = u64_le seq @ val"

definition decode_with_seq :: "bytes \<Rightarrow> (bytes \<times> u64) option" where
  "decode_with_seq v =
     (if 8 \<le> length v then Some (drop 8 v, rd_u64 v 0) else Some (v, 0))"

text \<open>\<open>[0x01] [expiry: u64 LE] [value]\<close>, built in \<open>put_with_ttl\<close>\<close>

definition ttl_encode :: "u64 \<Rightarrow> bytes \<Rightarrow> bytes" where
  "ttl_encode expiry val = 1 # u64_le expiry @ val"

definition unwrap_ttl :: "u64 \<Rightarrow> bytes \<Rightarrow> bytes option" where
  "unwrap_ttl now v =
     (if 9 \<le> length v \<and> v ! 0 = 1
      then let expiry = rd_u64 v 1 in
           if expiry \<le> now then None else Some (drop 9 v)
      else Some v)"

definition unpack_inner :: "u64 \<Rightarrow> bytes \<Rightarrow> bytes option" where
  "unpack_inner now v = (if v = tombstone then None else unwrap_ttl now v)"

definition unpack_value :: "u64 \<Rightarrow> bytes \<Rightarrow> bytes option" where
  "unpack_value now v =
     (case decode_with_seq v of Some (inner, _) \<Rightarrow> unpack_inner now inner | None \<Rightarrow> None)"

text \<open>The predicate of \<open>scan\<close>'s filter and its \<open>map\<close>, and the predicate of compaction's \<open>retain\<close>.\<close>

definition scan_visible :: "u64 \<Rightarrow> bytes \<Rightarrow> bool" where
  "scan_visible now v =
     (case decode_with_seq v of
        Some (inner, _) \<Rightarrow> if inner = tombstone then False else unwrap_ttl now inner \<noteq> None
      | None \<Rightarrow> True)"

definition scan_display :: "u64 \<Rightarrow> bytes \<Rightarrow> bytes" where
  "scan_display now v =
     (case decode_with_seq v of
        None \<Rightarrow> []
      | Some (inner, _) \<Rightarrow> (case unpack_inner now inner of None \<Rightarrow> [] | Some w \<Rightarrow> w))"

definition compact_retain :: "u64 \<Rightarrow> bytes \<Rightarrow> bool" where
  "compact_retain now v =
     (case decode_with_seq v of
        Some (inner, _) \<Rightarrow> if inner = tombstone then False else unwrap_ttl now inner \<noteq> None
      | None \<Rightarrow> False)"

subsection \<open>What a read sees of what a write stored\<close>

lemma decode_encode_seq [codec_simps]: "decode_with_seq (encode_with_seq v s) = Some (v, s)"
  by (simp add: decode_with_seq_def encode_with_seq_def rd_u64_def u_of_le_u_le)

lemma decode_with_seq_Some: "\<exists>inner seq. decode_with_seq v = Some (inner, seq)"
  by (simp add: decode_with_seq_def)

lemma unwrap_ttl_encode [codec_simps]:
  "unwrap_ttl now (ttl_encode e v) = (if e \<le> now then None else Some v)"
  by (simp add: unwrap_ttl_def ttl_encode_def rd_u64_def u_of_le_u_le Let_def)

text \<open>The values that a plain \<open>put\<close> stores and a read does not return as they are.\<close>

definition marker_like :: "bytes \<Rightarrow> bool" where
  "marker_like v \<longleftrightarrow> v = tombstone \<or> (9 \<le> length v \<and> v ! 0 = 1)"

lemma unpack_plain [codec_simps]:
  "unpack_value now (encode_with_seq v s) =
     (if v = tombstone then None
      else if 9 \<le> length v \<and> v ! 0 = 1 then (if rd_u64 v 1 \<le> now then None else Some (drop 9 v))
      else Some v)"
  by (simp add: unpack_value_def decode_encode_seq unpack_inner_def unwrap_ttl_def Let_def)

lemma unpack_plain_iff: "unpack_value now (encode_with_seq v s) = Some v \<longleftrightarrow> \<not> marker_like v"
proof -
  have "drop 9 v \<noteq> v" if "9 \<le> length v"
  proof
    assume "drop 9 v = v"
    then have "length v - 9 = length v" by (metis length_drop)
    then show False using that by simp
  qed
  then show ?thesis by (auto simp: unpack_plain marker_like_def)
qed

lemma unpack_tombstone [codec_simps]: "unpack_value now (encode_with_seq tombstone s) = None"
  by (simp add: unpack_plain)

lemma unpack_ttl [codec_simps]:
  "unpack_value now (encode_with_seq (ttl_encode e v) s) = (if e \<le> now then None else Some v)"
  by (simp add: unpack_value_def decode_encode_seq unpack_inner_def unwrap_ttl_encode)
    (simp add: ttl_encode_def tombstone_def)

text \<open>The unprefixed values of \<open>write_batch\<close>: eight bytes are taken for a sequence number.\<close>

lemma unpack_unprefixed:
  "unpack_value now v = unpack_inner now (if length v < 8 then v else drop 8 v)"
  by (simp add: unpack_value_def decode_with_seq_def)

lemma scan_visible_iff: "scan_visible now v \<longleftrightarrow> unpack_value now v \<noteq> None"
  using decode_with_seq_Some [of v] by (auto simp: scan_visible_def unpack_value_def unpack_inner_def)

lemma compact_retain_iff: "compact_retain now v \<longleftrightarrow> unpack_value now v \<noteq> None"
  using decode_with_seq_Some [of v] by (auto simp: compact_retain_def unpack_value_def unpack_inner_def)

lemma scan_display_eq: "scan_display now v = (case unpack_value now v of None \<Rightarrow> [] | Some w \<Rightarrow> w)"
  using decode_with_seq_Some [of v] by (auto simp: scan_display_def unpack_value_def)

text \<open>Time only takes values away.\<close>

lemma unpack_value_mono:
  "now \<le> later \<Longrightarrow> unpack_value later v = Some w \<Longrightarrow> unpack_value now v = Some w"
  by (auto simp: unpack_value_def unpack_inner_def unwrap_ttl_def Let_def
      split: option.splits if_splits)

subsection \<open>The upper bound of a prefix scan\<close>

text \<open>The loop runs from the last byte to the first and increments the first byte below \<open>0xFF\<close> it meets;
  what follows that byte stays.\<close>

fun bump :: "nat \<Rightarrow> bytes \<Rightarrow> bytes option" where
  "bump 0 v = None"
| "bump (Suc i) v = (if v ! i < 0xFF then Some (v[i := v ! i + 1]) else bump i v)"

definition next_key :: "bytes \<Rightarrow> bytes" where
  "next_key pre = (case bump (length pre) pre of Some v \<Rightarrow> v | None \<Rightarrow> pre @ [0])"

lemma starts_with_append: "starts_with p k \<longleftrightarrow> (\<exists>s. k = p @ s)"
  by (metis append_eq_conv_conj append_take_drop_id starts_with_def)

lemma succ_u8:
  fixes b :: u8
  assumes "b \<noteq> 0xFF"
  shows "unat (b + 1) = Suc (unat b)" "b < 0xFF"
proof -
  have "unat b \<noteq> unat (0xFF :: u8)" using assms by (metis unsigned_word_eqI)
  then have lt: "unat b < 255" using unat_u8_less [of b] by (simp del: unat_u8_less)
  then show "unat (b + 1) = Suc (unat b)" by (simp add: unat_word_ariths)
  show "b < 0xFF" using lt by (simp add: word_less_nat_alt)
qed

lemma next_key_snoc: "b \<noteq> 0xFF \<Longrightarrow> next_key (p @ [b]) = p @ [b + 1]"
  by (simp add: next_key_def succ_u8)

lemma prefix_le: "(p :: bytes) \<le> p @ s"
proof (induction p)
  case (Cons a p)
  then show ?case by simp
qed simp

lemma append_less_iff: "(p :: bytes) @ x < p @ y \<longleftrightarrow> x < y"
  by (induction p) auto

lemma append_le_iff: "(p :: bytes) @ x \<le> p @ y \<longleftrightarrow> x \<le> y"
  by (induction p) auto

text \<open>A prefix of \<open>0xFF\<close> bytes only, the empty one included, selects itself and nothing else.\<close>

lemma bump_all_ff: "\<forall>j < i. v ! j = 0xFF \<Longrightarrow> bump i v = None"
  by (induction i) auto

lemma between_snoc_zero: "p \<le> k \<Longrightarrow> k < p @ [0 :: u8] \<Longrightarrow> k = p"
proof (induction p arbitrary: k)
  case Nil
  then show ?case by (cases k) auto
next
  case (Cons a p)
  then show ?case by (cases k) auto
qed

lemma next_key_all_ff:
  assumes "\<forall>b \<in> set p. b = 0xFF"
  shows "p \<le> k \<and> k < next_key p \<longleftrightarrow> k = p"
proof -
  have "next_key p = p @ [0]" using bump_all_ff [of "length p" p] assms by (simp add: next_key_def)
  then show ?thesis using between_snoc_zero [of p k] append_less_iff [of p "[]" "[0]"] by auto
qed

text \<open>Every other prefix ends with some bytes \<open>0xFF\<close>, perhaps none, after a smaller one.\<close>

lemma next_key_tail_ff:
  assumes "b \<noteq> (0xFF :: u8)"
  shows "next_key (q @ b # replicate n 0xFF) = q @ (b + 1) # replicate n 0xFF"
proof -
  let ?p = "q @ b # replicate n 0xFF"
  have "m \<le> n \<Longrightarrow> bump (Suc (length q + m)) ?p = Some (q @ (b + 1) # replicate n 0xFF)" for m
    using succ_u8(2) [OF assms] by (induction m) (simp_all add: nth_append)
  from this [of n] show ?thesis by (simp add: next_key_def)
qed

lemma ff_le_iff: "replicate n (0xFF :: u8) \<le> s \<longleftrightarrow> starts_with (replicate n 0xFF) s"
proof (induction n arbitrary: s)
  case (Suc n)
  show ?case
  proof (cases s)
    case (Cons c s')
    have "(0xFF :: u8) = - 1" by simp
    then have "c \<le> 0xFF" by (simp only: word_n1_ge)
    then show ?thesis using Suc.IH [of s'] by (auto simp: Cons starts_with_def)
  qed (simp add: starts_with_def)
qed (simp add: starts_with_def)

lemma between_append: "p @ x \<le> k \<Longrightarrow> k < p @ y \<Longrightarrow> \<exists>z. k = p @ (z :: bytes)"
proof (induction p arbitrary: k)
  case (Cons a p)
  then show ?case by (cases k) auto
qed simp

lemma next_key_range_ff:
  assumes "b \<noteq> (0xFF :: u8)"
  shows "q @ b # replicate n 0xFF \<le> k \<and> k < next_key (q @ b # replicate n 0xFF) \<longleftrightarrow>
    starts_with (q @ b # replicate n 0xFF) k \<or> (\<exists>s. k = q @ (b + 1) # s \<and> s < replicate n 0xFF)"
    (is "?low \<and> ?high \<longleftrightarrow> ?own \<or> ?alien")
proof -
  have succ: "b < c \<longleftrightarrow> b + 1 \<le> c" "c < b + 1 \<longleftrightarrow> c \<le> b" for c
    using succ_u8(1) [OF assms] by (simp_all add: word_less_nat_alt word_le_nat_alt Suc_le_eq less_Suc_eq_le)
  have range: "b # replicate n 0xFF \<le> z \<and> z < (b + 1) # replicate n 0xFF \<longleftrightarrow>
      starts_with (b # replicate n 0xFF) z \<or> (\<exists>s. z = (b + 1) # s \<and> s < replicate n 0xFF)" for z
  proof (cases z)
    case (Cons c s)
    then show ?thesis using succ [of c] succ(1) [of b] ff_le_iff [of n s] by (auto simp: starts_with_def)
  qed (simp add: starts_with_def)
  have own: "starts_with (q @ x) (q @ z) \<longleftrightarrow> starts_with x z" for x z by (simp add: starts_with_def)
  show ?thesis
  proof
    assume "?low \<and> ?high"
    moreover from this obtain z where "k = q @ z" using between_append [of q _ k] by (fastforce simp: next_key_tail_ff [OF assms])
    ultimately show "?own \<or> ?alien"
      using range [of z] own [of "b # replicate n 0xFF" z] by (auto simp: next_key_tail_ff [OF assms] append_less_iff append_le_iff)
  next
    assume "?own \<or> ?alien"
    moreover from this obtain z where "k = q @ z" by (auto simp: starts_with_append)
    ultimately show "?low \<and> ?high"
      using range [of z] own [of "b # replicate n 0xFF" z] by (auto simp: next_key_tail_ff [OF assms] append_less_iff append_le_iff)
  qed
qed

end
