(* ===== verification/SSTableBuilder.thy ===== *)
theory SSTableBuilder
  imports Block Bloom Disk
begin

text \<open>
  \<open>src/sstable/builder.rs\<close>: sorted entries are cut into data blocks that go through a \<open>BufWriter\<close>,
  followed by the index block, the bloom filter and the footer. \<open>bytes_written\<close> is a \<open>u32\<close> whose
  additions are checked (a build with overflow checks panics). \<open>sst_bytes\<close> is the file format as a
  pure function of the blocks; the builder is shown to write exactly that.
\<close>

subsection \<open>The builder\<close>

definition default_block_size :: nat where "default_block_size = 4096"
definition default_bits_per_key :: nat where "default_bits_per_key = 10"

record builder =
  sb_path :: path
  sb_file :: bufw
  sb_block :: block
  sb_index :: "(u32 \<times> bytes) list"
  sb_keys :: "bytes list"
  sb_block_size :: nat
  sb_written :: u32

type_synonym 'a bprog = "(builder \<times> disk, 'a) prog"

definition add_u32 :: "u32 \<Rightarrow> u32 \<Rightarrow> u32 res" where
  "add_u32 a b =
     (if unat a + unat b < 2 ^ 32 then Inr (a + b) else Inl (Panic ''attempt to add with overflow''))"

definition sb_new :: "path \<Rightarrow> nat \<Rightarrow> (disk, builder) prog" where
  "sb_new p bsize = st_bind (create_file p) (\<lambda>_. st_return
     \<lparr>sb_path = p, sb_file = \<lparr>bw_path = p, bw_buf = []\<rparr>, sb_block = block_new, sb_index = [], sb_keys = [],
      sb_block_size = bsize, sb_written = 0\<rparr>)"

text \<open>\<open>self.file.write_all(bytes)\<close>, \<open>self.file.flush()\<close> and \<open>self.bytes_written += n\<close>\<close>

definition sb_write :: "bytes \<Rightarrow> unit bprog" where
  "sb_write bs = (\<lambda>(b, d).
     case bw_write_all bs (sb_file b, d) of (r, (w, d')) \<Rightarrow> (r, (b\<lparr>sb_file := w\<rparr>, d')))"

definition sb_sync :: "unit bprog" where
  "sb_sync = (\<lambda>(b, d).
     case bw_flush_buf (sb_file b, d) of (r, (w, d')) \<Rightarrow> (r, (b\<lparr>sb_file := w\<rparr>, d')))"

definition sb_count :: "u32 \<Rightarrow> unit bprog" where
  "sb_count n = (\<lambda>(b, d).
     case add_u32 (sb_written b) n of
       Inl f \<Rightarrow> (Inl f, (b, d))
     | Inr w \<Rightarrow> (Inr (), (b\<lparr>sb_written := w\<rparr>, d)))"

definition sb_modify :: "(builder \<Rightarrow> builder) \<Rightarrow> unit bprog" where
  "sb_modify f = st_modify (\<lambda>(b, d). (f b, d))"

definition sb_flush_block :: "unit bprog" where
  "sb_flush_block =
     st_bind (st_gets fst) (\<lambda>b0.
     st_bind (st_lift (last_key (sb_block b0))) (\<lambda>key.
     let encoded = block_encode (sb_block b0) in
     st_bind (sb_write encoded) (\<lambda>_.
     st_bind (sb_modify (\<lambda>b. b\<lparr>sb_index := sb_index b @ [(sb_written b, key)]\<rparr>)) (\<lambda>_.
     st_bind (sb_count (word_of_nat (length encoded))) (\<lambda>_.
       sb_modify (\<lambda>b. b\<lparr>sb_block := block_new\<rparr>))))))"

definition sb_add :: "bytes \<Rightarrow> bytes \<Rightarrow> unit bprog" where
  "sb_add key val =
     st_bind (st_gets fst) (\<lambda>b0.
     st_bind (if 0 < estimated_size (sb_block b0) \<and>
                 sb_block_size b0 < estimated_size (sb_block b0) + length key + length val + 8
              then sb_flush_block else st_return ()) (\<lambda>_.
       sb_modify (\<lambda>b. b\<lparr>sb_keys := sb_keys b @ [key], sb_block := block_add key val (sb_block b)\<rparr>)))"

definition sb_write_index_entry :: "u32 \<times> bytes \<Rightarrow> unit bprog" where
  "sb_write_index_entry = (\<lambda>(offset, key).
     st_bind (sb_write (u32_le offset)) (\<lambda>_.
     st_bind (sb_write (u32_le (word_of_nat (length key)))) (\<lambda>_.
     st_bind (sb_write key) (\<lambda>_.
     st_bind (st_lift (add_u32 8 (word_of_nat (length key)))) (\<lambda>n. sb_count n)))))"

definition sb_write_index :: "unit bprog" where
  "sb_write_index =
     st_bind (st_gets (\<lambda>s. sb_index (fst s))) (\<lambda>idx.
     st_bind (sb_write (u32_le (word_of_nat (length idx)))) (\<lambda>_.
     st_bind (sb_count 4) (\<lambda>_.
       st_for idx sb_write_index_entry)))"

definition sb_finish :: "unit bprog" where
  "sb_finish =
     st_bind (st_gets fst) (\<lambda>b0.
     st_bind (if block_is_empty (sb_block b0) then st_return () else sb_flush_block) (\<lambda>_.
     st_bind (st_gets (\<lambda>s. sb_written (fst s))) (\<lambda>index_offset.
     st_bind sb_write_index (\<lambda>_.
     st_bind (st_gets fst) (\<lambda>b1.
     let bloom_data = bloom_encode (bloom_build (sb_keys b1) default_bits_per_key) in
     st_bind (sb_write bloom_data) (\<lambda>_.
     st_bind (sb_count (word_of_nat (length bloom_data))) (\<lambda>_.
     st_bind (sb_write (u32_le index_offset)) (\<lambda>_.
     st_bind (sb_write (u32_le (sb_written b1))) (\<lambda>_.
       sb_sync)))))))))"

text \<open>How the engine uses it: \<open>new\<close>, \<open>add\<close> for every entry, \<open>finish\<close>; on every exit the \<open>BufWriter\<close> is
  dropped.\<close>

definition sst_write :: "path \<Rightarrow> nat \<Rightarrow> entry list \<Rightarrow> (disk, unit) prog" where
  "sst_write p bsize es =
     st_bind (sb_new p bsize) (\<lambda>b d.
       case st_bind (st_for es (\<lambda>(k, v). sb_add k v)) (\<lambda>_. sb_finish) (b, d) of
         (r, (b', d')) \<Rightarrow> (r, bw_drop (sb_file b') d'))"

subsection \<open>The file format\<close>

definition data_bytes :: "block list \<Rightarrow> bytes" where
  "data_bytes bs = concat (map block_encode bs)"

fun index_of :: "nat \<Rightarrow> block list \<Rightarrow> (u32 \<times> bytes) list" where
  "index_of off [] = []"
| "index_of off (b # bs) =
     (word_of_nat off, fst (last (entries b))) # index_of (off + length (block_encode b)) bs"

definition index_entry_bytes :: "u32 \<times> bytes \<Rightarrow> bytes" where
  "index_entry_bytes e = u32_le (fst e) @ u32_le (word_of_nat (length (snd e))) @ snd e"

definition index_bytes :: "(u32 \<times> bytes) list \<Rightarrow> bytes" where
  "index_bytes idx = u32_le (word_of_nat (length idx)) @ concat (map index_entry_bytes idx)"

definition sst_bloom :: "block list \<Rightarrow> bloom" where
  "sst_bloom bs = bloom_build (map fst (concat (map entries bs))) default_bits_per_key"

definition sst_bytes :: "block list \<Rightarrow> bytes" where
  "sst_bytes bs =
     (let data = data_bytes bs; idx = index_bytes (index_of 0 bs)
      in data @ idx @ bloom_encode (sst_bloom bs) @
         u32_le (word_of_nat (length data)) @ u32_le (word_of_nat (length data + length idx)))"

lemma data_bytes_simps [simp]:
  "data_bytes [] = []" "data_bytes (bs @ [b]) = data_bytes bs @ block_encode b"
  "data_bytes (b # bs) = block_encode b @ data_bytes bs"
  by (simp_all add: data_bytes_def)

lemma index_of_snoc [simp]:
  "index_of off (bs @ [b]) =
     index_of off bs @ [(word_of_nat (off + length (data_bytes bs)), fst (last (entries b)))]"
  by (induction bs arbitrary: off) (simp_all add: add.assoc)

lemma length_index_of [simp]: "length (index_of off bs) = length bs"
  by (induction bs arbitrary: off) auto

lemma index_of_nth:
  "i < length bs \<Longrightarrow>
     index_of off bs ! i = (word_of_nat (off + length (data_bytes (take i bs))), fst (last (entries (bs ! i))))"
proof (induction bs arbitrary: off i)
  case (Cons b bs)
  then show ?case by (cases i) (simp_all add: add.assoc)
qed simp

lemma length_index_entry [simp]: "length (index_entry_bytes e) = 8 + length (snd e)"
  by (simp add: index_entry_bytes_def)

subsection \<open>Writing through the buffer\<close>

text \<open>\<open>wrote bs s s'\<close>: the step appended \<open>bs\<close> to what the writer has written and touched no other file.\<close>

definition wrote :: "bytes \<Rightarrow> builder \<times> disk \<Rightarrow> builder \<times> disk \<Rightarrow> bool" where
  "wrote bs s s' \<longleftrightarrow>
     bw_content (sb_file (fst s')) (snd s') = bw_content (sb_file (fst s)) (snd s) @ bs \<and>
     bw_path (sb_file (fst s')) = bw_path (sb_file (fst s)) \<and>
     only_file (bw_path (sb_file (fst s))) (snd s) (snd s') \<and> durable (snd s') = durable (snd s)"

lemma wrote_trans: "wrote bs s s1 \<Longrightarrow> wrote cs s1 s2 \<Longrightarrow> wrote (bs @ cs) s s2"
  by (auto simp: wrote_def intro: only_file_trans)

lemma wrote_no_faults: "wrote bs s s' \<Longrightarrow> no_faults (snd s) \<Longrightarrow> no_faults (snd s')"
  using no_faults_only_file by (auto simp: wrote_def)

lemma sb_write_ok:
  assumes "sb_write bs s = (Inr (), s')"
  shows "wrote bs s s'" "\<exists>w. fst s' = fst s\<lparr>sb_file := w\<rparr>"
  using assms
  by (auto simp: sb_write_def wrote_def bw_write_all_ok split: prod.splits)

lemma sb_write_total:
  assumes "no_faults (snd s)"
  shows "st_ok (sb_write bs) s"
proof -
  obtain b d where s: "s = (b, d)" by (cases s)
  obtain w' d' where "bw_write_all bs (sb_file b, d) = (Inr (), (w', d'))"
    using assms s by (auto intro: bw_write_all_total [of d bs "sb_file b"])
  then show ?thesis by (simp add: st_ok_def sb_write_def s)
qed

lemma st_ok_write:
  assumes "no_faults (snd s)"
    and "\<And>s'. sb_write cs s = (Inr (), s') \<Longrightarrow> no_faults (snd s') \<Longrightarrow> st_ok (f ()) s'"
  shows "st_ok (st_bind (sb_write cs) f) s"
proof (rule st_ok_bind [OF sb_write_total [OF assms(1)]])
  fix x s' assume "sb_write cs s = (Inr x, s')"
  then show "st_ok (f x) s'"
    using assms(2) [of s'] wrote_no_faults [OF sb_write_ok(1) assms(1)] by simp
qed

lemma add_u32_Inr: "add_u32 a b = Inr c \<longleftrightarrow> unat a + unat b < 2 ^ 32 \<and> c = a + b"
  by (auto simp: add_u32_def)

lemma unat_add_u32: "unat a + unat b < 2 ^ 32 \<Longrightarrow> unat (a + b :: u32) = unat a + unat b"
  by (simp add: unat_word_ariths)

lemma sb_count_ok:
  assumes "sb_count n s = (Inr (), s')"
  shows "s' = (fst s\<lparr>sb_written := sb_written (fst s) + n\<rparr>, snd s)"
    "unat (sb_written (fst s')) = unat (sb_written (fst s)) + unat n"
    "unat (sb_written (fst s)) + unat n < 2 ^ 32"
  using assms unat_add_u32
  by (auto simp: sb_count_def add_u32_def split: prod.splits if_splits)

lemma sb_count_total:
  assumes "unat (sb_written (fst s)) + unat n < 2 ^ 32"
  shows "st_ok (sb_count n) s"
  using assms by (auto simp: st_ok_def sb_count_def add_u32_def split: prod.splits)

subsection \<open>The invariant of a builder\<close>

text \<open>Between calls, the flushed blocks \<open>bs\<close> are what has been written and indexed; together with the
  current block they hold the entries added so far. A block over the target size has one entry.\<close>

definition chunk_ok :: "nat \<Rightarrow> block \<Rightarrow> bool" where
  "chunk_ok bsize b \<longleftrightarrow> block_wf b \<and> (length (entries b) \<le> 1 \<or> estimated_size b \<le> bsize)"

definition built :: "nat \<Rightarrow> block list \<Rightarrow> entry list \<Rightarrow> builder \<times> disk \<Rightarrow> bool" where
  "built bsize bs es s \<longleftrightarrow>
     bw_content (sb_file (fst s)) (snd s) = data_bytes bs \<and>
     sb_index (fst s) = index_of 0 bs \<and> sb_block_size (fst s) = bsize \<and>
     unat (sb_written (fst s)) = length (data_bytes bs) \<and>
     (\<forall>b \<in> set bs. chunk_ok bsize b \<and> entries b \<noteq> []) \<and> chunk_ok bsize (sb_block (fst s)) \<and>
     concat (map entries bs) @ entries (sb_block (fst s)) = es \<and> sb_keys (fst s) = map fst es"

text \<open>Room for the entries: an explicit bound on what the offsets must reach.\<close>

definition entry_weight :: "entry \<Rightarrow> nat" where
  "entry_weight e = 22 + 2 * length (fst e) + length (snd e)"

definition sst_fits :: "entry list \<Rightarrow> bool" where
  "sst_fits es \<longleftrightarrow> (\<forall>e \<in> set es. length (fst e) < 2 ^ 16) \<and> 32 + sum_list (map entry_weight es) < 2 ^ 32"

lemma length_block_weight:
  assumes "block_wf b" "entries b \<noteq> []"
  shows "length (block_encode b) + length (fst (last (entries b))) \<le>
    sum_list (map (\<lambda>e. 12 + 2 * length (fst e) + length (snd e)) (entries b))"
proof -
  have "length (block_encode b) \<le> 4 + sum_list (map entry_size (entries b))"
    using length_block_encode [OF assms(1)] assms(1) by (simp add: block_wf_def estimated_size_def)
  moreover have "4 + length (fst (last es)) + sum_list (map entry_size es) \<le>
      sum_list (map (\<lambda>e. 12 + 2 * length (fst e) + length (snd e)) es)" if "es \<noteq> []" for es
    using that by (induction es) (auto simp: entry_size_def entry_header_def)
  ultimately show ?thesis using assms(2) by fastforce
qed

lemma length_layout:
  assumes "\<forall>b \<in> set bs. block_wf b \<and> entries b \<noteq> []"
  shows "length (data_bytes bs) + length (concat (map index_entry_bytes (index_of off bs))) \<le>
    sum_list (map (\<lambda>e. 20 + 2 * length (fst e) + length (snd e)) (concat (map entries bs)))"
  using assms
proof (induction bs arbitrary: off)
  case (Cons b bs)
  have b: "length (block_encode b) + length (fst (last (entries b))) \<le>
      sum_list (map (\<lambda>e. 12 + 2 * length (fst e) + length (snd e)) (entries b))"
    using Cons.prems by (intro length_block_weight) auto
  have "sum_list (map (\<lambda>e. 20 + 2 * length (fst e) + length (snd e)) es) =
      8 * length es + sum_list (map (\<lambda>e. 12 + 2 * length (fst e) + length (snd e)) es)" for es :: "entry list"
    by (induction es) simp_all
  moreover have "1 \<le> length (entries b)" using Cons.prems by (simp add: Suc_le_eq)
  ultimately have "8 + length (block_encode b) + length (fst (last (entries b))) \<le>
      sum_list (map (\<lambda>e. 20 + 2 * length (fst e) + length (snd e)) (entries b))"
    using b by simp
  then show ?case using Cons.IH [of "off + length (block_encode b)"] Cons.prems by simp
qed simp

lemma length_bloom_encode: "length (bloom_encode f) = 12 + 8 * length (bits f)"
  by (simp add: bloom_encode_def)

lemma layout_bound:
  assumes "\<forall>b \<in> set bs. block_wf b \<and> entries b \<noteq> []"
  shows "length (data_bytes bs) + length (index_bytes (index_of 0 bs)) + length (bloom_encode (sst_bloom bs)) \<le>
    32 + sum_list (map entry_weight (concat (map entries bs)))"
proof -
  let ?es = "concat (map entries bs)"
  have "8 * length (bits (sst_bloom bs)) \<le> 16 + 2 * length ?es"
    unfolding sst_bloom_def bloom_build_fields default_bits_per_key_def length_map
    by (simp add: max_def) linarith
  moreover have "sum_list (map entry_weight es) =
      2 * length es + sum_list (map (\<lambda>e. 20 + 2 * length (fst e) + length (snd e)) es)" for es
    by (induction es) (simp_all add: entry_weight_def)
  ultimately show ?thesis
    using length_layout [OF assms, of 0] by (simp add: index_bytes_def length_bloom_encode)
qed

lemma data_bound:
  assumes "sst_fits es" "concat (map entries bs) @ xs = es" "\<forall>b \<in> set bs. block_wf b \<and> entries b \<noteq> []"
  shows "length (data_bytes bs) + length (index_bytes (index_of 0 bs)) + length (bloom_encode (sst_bloom bs)) < 2 ^ 32"
proof -
  have "sum_list (map entry_weight (concat (map entries bs))) \<le> sum_list (map entry_weight es)"
    unfolding assms(2) [symmetric] by simp
  then show ?thesis
    using layout_bound [OF assms(3)] assms(1) by (simp add: sst_fits_def)
qed

lemma written_word: "unat (w :: u32) = n \<Longrightarrow> w = word_of_nat n"
  by auto

lemma built_flush_ok:
  assumes inv: "built bsize bs es s" and ok: "sb_flush_block s = (Inr (), s')" and fits: "sst_fits es"
  shows "built bsize (bs @ [sb_block (fst s)]) es s'" "sb_block (fst s') = block_new"
    "\<exists>cs. wrote cs s s'"
proof -
  obtain b d where s: "s = (b, d)" by (cases s)
  have ne: "entries (sb_block b) \<noteq> []"
    using ok s by (auto simp: sb_flush_block_def last_key_def split: if_splits)
  let ?enc = "block_encode (sb_block b)" and ?key = "fst (last (entries (sb_block b)))"
  obtain b1 d1 b2 d2 where st: "sb_write ?enc (b, d) = (Inr (), (b1, d1))"
    "sb_count (word_of_nat (length ?enc)) (b1\<lparr>sb_index := sb_index b1 @ [(sb_written b1, ?key)]\<rparr>, d1) = (Inr (), (b2, d2))"
    "s' = (b2\<lparr>sb_block := block_new\<rparr>, d2)"
    using ok s ne
    by (auto simp: sb_flush_block_def last_key_def Let_def st_bind_Inr_iff sb_modify_def st_simps split: if_splits)
  note w = sb_write_ok [OF st(1)]
  obtain f where b1: "b1 = b\<lparr>sb_file := f\<rparr>" using w(2) by auto
  note c = sb_count_ok [OF st(2)]
  have d2: "d2 = d1" "b2 = b1\<lparr>sb_index := sb_index b1 @ [(sb_written b1, ?key)],
      sb_written := sb_written b1 + word_of_nat (length ?enc)\<rparr>"
    using c(1) by simp_all
  show "\<exists>cs. wrote cs s s'" using w(1) by (auto simp: wrote_def s st(3) d2 b1)
  show "sb_block (fst s') = block_new" by (simp add: st(3))
  have blocks: "\<forall>x \<in> set (bs @ [sb_block b]). chunk_ok bsize x \<and> entries x \<noteq> []"
    and all: "concat (map entries (bs @ [sb_block b])) = es"
    using inv ne by (auto simp: built_def s)
  have "length (data_bytes (bs @ [sb_block b])) < 2 ^ 32"
    using data_bound [OF fits, of "bs @ [sb_block b]" "[]"] blocks all by (simp add: chunk_ok_def)
  then have len: "length ?enc < 4294967296" by simp
  have wr: "unat (sb_written b) = length (data_bytes bs)" using inv by (simp add: built_def s)
  show "built bsize (bs @ [sb_block (fst s)]) es s'"
    using inv w(1) c(2) blocks all unat_word_of_nat_u32 [OF len] written_word [OF wr]
    by (simp add: built_def wrote_def s st(3) d2 b1 chunk_ok_def block_new_def block_wf_def)
qed

lemma built_flush_total:
  assumes inv: "built bsize bs es s" and fits: "sst_fits es" and nf: "no_faults (snd s)"
    and ne: "entries (sb_block (fst s)) \<noteq> []"
  shows "st_ok sb_flush_block s"
proof -
  obtain b d where s: "s = (b, d)" by (cases s)
  let ?enc = "block_encode (sb_block b)" and ?key = "fst (last (entries (sb_block b)))"
  have blocks: "\<forall>x \<in> set (bs @ [sb_block b]). chunk_ok bsize x \<and> entries x \<noteq> []"
    and all: "concat (map entries (bs @ [sb_block b])) = es"
    using inv ne by (auto simp: built_def s)
  have tot: "length (data_bytes (bs @ [sb_block b])) < 2 ^ 32"
    using data_bound [OF fits, of "bs @ [sb_block b]" "[]"] blocks all by (simp add: chunk_ok_def)
  then have len: "unat (word_of_nat (length ?enc) :: u32) = length ?enc"
    by (intro unat_word_of_nat_u32) simp
  have room: "unat (sb_written b) + length ?enc < 2 ^ 32"
    using tot inv by (simp add: built_def s)
  have "st_ok (sb_count (word_of_nat (length ?enc))) (b1\<lparr>sb_index := sb_index b1 @ [(sb_written b1, ?key)]\<rparr>, d1)"
    if "sb_write ?enc (b, d) = (Inr (), (b1, d1))" for b1 d1
    using sb_write_ok(2) [OF that] room len by (intro sb_count_total) auto
  then show ?thesis
    using ne nf s
    by (auto simp: sb_flush_block_def last_key_def Let_def sb_modify_def st_simps
        intro!: st_ok_bind sb_write_total)
qed

lemma sst_fits_append: "sst_fits (es @ es') \<Longrightarrow> sst_fits es"
  by (auto simp: sst_fits_def)

lemma built_add:
  assumes "built bsize bs es s"
    and "length (entries (sb_block (fst s))) = 0 \<or>
      estimated_size (sb_block (fst s)) + length k + length v + 8 \<le> bsize"
  shows "built bsize bs (es @ [(k, v)])
    (fst s\<lparr>sb_keys := sb_keys (fst s) @ [k], sb_block := block_add k v (sb_block (fst s))\<rparr>, snd s)"
  using assms
  by (auto simp: built_def chunk_ok_def block_add_def estimated_size_def entry_header_def block_wf_def entry_size_def)

lemma sb_add_ok:
  assumes inv: "built bsize bs es s" and ok: "sb_add k v s = (Inr (), s')" and fits: "sst_fits es"
  shows "\<exists>bs'. built bsize bs' (es @ [(k, v)]) s'" "\<exists>cs. wrote cs s s'"
proof -
  let ?b = "sb_block (fst s)"
  let ?full = "0 < estimated_size ?b \<and> sb_block_size (fst s) < estimated_size ?b + length k + length v + 8"
  obtain s1 where s1: "(if ?full then sb_flush_block else st_return ()) s = (Inr (), s1)"
    "s' = (fst s1\<lparr>sb_keys := sb_keys (fst s1) @ [k], sb_block := block_add k v (sb_block (fst s1))\<rparr>, snd s1)"
    using ok by (auto simp: sb_add_def st_bind_Inr_iff sb_modify_def st_simps split: prod.splits)
  have wf: "block_wf ?b" "sb_block_size (fst s) = bsize" using inv by (simp_all add: built_def chunk_ok_def)
  have "\<exists>bs' cs. built bsize bs' es s1 \<and> wrote cs s s1 \<and> (length (entries (sb_block (fst s1))) = 0 \<or>
      estimated_size (sb_block (fst s1)) + length k + length v + 8 \<le> bsize)"
  proof (cases ?full)
    case True
    then have "sb_flush_block s = (Inr (), s1)" using s1(1) by simp
    from built_flush_ok [OF inv this fits] show ?thesis by (auto simp: block_new_def)
  next
    case False
    then have "s1 = s" using s1(1) by (simp only: if_False st_simps prod.inject)
    moreover have "wrote [] s s" by (simp add: wrote_def)
    ultimately show ?thesis
      using False inv wf estimated_size_zero [OF wf(1)] by (auto intro!: exI [of _ "[]"] exI [of _ bs])
  qed
  then obtain bs' cs where st: "built bsize bs' es s1" "wrote cs s s1"
    "length (entries (sb_block (fst s1))) = 0 \<or>
       estimated_size (sb_block (fst s1)) + length k + length v + 8 \<le> bsize" by blast
  show "\<exists>bs'. built bsize bs' (es @ [(k, v)]) s'" using built_add [OF st(1,3)] s1(2) by auto
  show "\<exists>cs. wrote cs s s'" using st(2) s1(2) by (auto simp: wrote_def)
qed

lemma sb_add_total:
  assumes inv: "built bsize bs es s" and fits: "sst_fits es" and nf: "no_faults (snd s)"
  shows "st_ok (sb_add k v) s"
proof -
  have "block_wf (sb_block (fst s))" using inv by (simp add: built_def chunk_ok_def)
  then have "0 < estimated_size (sb_block (fst s)) \<Longrightarrow> st_ok sb_flush_block s"
    using estimated_size_zero [of "sb_block (fst s)"] by (intro built_flush_total [OF inv fits nf]) auto
  then show ?thesis
    by (auto simp: sb_add_def sb_modify_def st_simps(4) intro!: st_ok_bind)
qed

lemma add_all_ok:
  assumes "built bsize bs es0 s" "st_for es (\<lambda>(k, v). sb_add k v) s = (Inr (), s')" "sst_fits (es0 @ es)"
  shows "(\<exists>bs'. built bsize bs' (es0 @ es) s') \<and> (\<exists>cs. wrote cs s s')"
  using assms
proof (induction es arbitrary: bs es0 s)
  case Nil
  then show ?case by (auto simp: st_simps wrote_def)
next
  case (Cons e es)
  obtain k v where e: "e = (k, v)" by (cases e)
  obtain s1 where s1: "sb_add k v s = (Inr (), s1)" "st_for es (\<lambda>(k, v). sb_add k v) s1 = (Inr (), s')"
    using Cons.prems(2) e by (auto simp: st_bind_Inr_iff)
  have "sst_fits es0" using Cons.prems(3) by (rule sst_fits_append)
  note add = sb_add_ok [OF Cons.prems(1) s1(1) this]
  obtain bs' where "built bsize bs' (es0 @ [e]) s1" using add(1) e by auto
  from Cons.IH [OF this s1(2)] Cons.prems(3) add(2) show ?case
    by (auto intro: wrote_trans)
qed

lemma add_all_total:
  assumes "built bsize bs es0 s" "sst_fits (es0 @ es)" "no_faults (snd s)"
  shows "st_ok (st_for es (\<lambda>(k, v). sb_add k v)) s"
  using assms
proof (induction es arbitrary: bs es0 s)
  case (Cons e es)
  obtain k v where e: "e = (k, v)" by (cases e)
  have fits: "sst_fits es0" using Cons.prems(2) by (rule sst_fits_append)
  have "st_ok (st_for es (\<lambda>(k, v). sb_add k v)) s1" if s1: "sb_add k v s = (Inr (), s1)" for s1
  proof -
    note add = sb_add_ok [OF Cons.prems(1) s1 fits]
    obtain bs' where "built bsize bs' (es0 @ [e]) s1" using add(1) e by auto
    moreover have "no_faults (snd s1)" using add(2) Cons.prems(3) wrote_no_faults by blast
    ultimately show ?thesis using Cons.prems(2) Cons.IH [of bs' "es0 @ [e]" s1] by simp
  qed
  then show ?case
    using sb_add_total [OF Cons.prems(1) fits Cons.prems(3)] e by (auto intro: st_ok_bind)
qed simp

subsection \<open>Finishing the file\<close>

text \<open>\<open>counted cs s s'\<close>: the step wrote \<open>cs\<close> and counted it.\<close>

definition counted :: "bytes \<Rightarrow> builder \<times> disk \<Rightarrow> builder \<times> disk \<Rightarrow> bool" where
  "counted cs s s' \<longleftrightarrow> wrote cs s s' \<and> sb_keys (fst s') = sb_keys (fst s) \<and>
     unat (sb_written (fst s')) = unat (sb_written (fst s)) + length cs"

lemma counted_trans: "counted cs s s1 \<Longrightarrow> counted cs' s1 s2 \<Longrightarrow> counted (cs @ cs') s s2"
  by (auto simp: counted_def intro: wrote_trans)

lemma write_then_count:
  assumes "sb_write cs s = (Inr (), s1)" "sb_count n s1 = (Inr (), s2)" "unat n = length cs"
  shows "counted cs s s2"
proof -
  obtain w where w: "fst s1 = fst s\<lparr>sb_file := w\<rparr>" using sb_write_ok(2) [OF assms(1)] by blast
  then show ?thesis
    using sb_write_ok(1) [OF assms(1)] sb_count_ok [OF assms(2)] assms(3)
    by (simp add: counted_def wrote_def)
qed

text \<open>The 8 bytes of an index entry header and its key are counted in one addition at the end.\<close>

lemma index_entry_ok:
  assumes "sb_write_index_entry e s = (Inr (), s')" "length (snd e) < 2 ^ 32"
  shows "counted (index_entry_bytes e) s s'"
proof -
  obtain offset key where e: "e = (offset, key)" by (cases e)
  obtain s1 s2 s3 n where st: "sb_write (u32_le offset) s = (Inr (), s1)"
    "sb_write (u32_le (word_of_nat (length key))) s1 = (Inr (), s2)" "sb_write key s2 = (Inr (), s3)"
    "add_u32 8 (word_of_nat (length key)) = Inr n" "sb_count n s3 = (Inr (), s')"
    using assms(1) e by (auto simp: sb_write_index_entry_def st_bind_Inr_iff st_simps)
  have n: "unat n = 8 + length key"
    using st(4) assms(2) e by (auto simp: add_u32_def unat_add_u32 unat_word_of_nat_u32 split: if_splits)
  have "wrote (index_entry_bytes e) s s3"
    using wrote_trans [OF wrote_trans [OF sb_write_ok(1) [OF st(1)] sb_write_ok(1) [OF st(2)]] sb_write_ok(1) [OF st(3)]]
    by (simp add: index_entry_bytes_def e)
  moreover have "sb_keys (fst s3) = sb_keys (fst s)" "sb_written (fst s3) = sb_written (fst s)"
    using sb_write_ok(2) [OF st(1)] sb_write_ok(2) [OF st(2)] sb_write_ok(2) [OF st(3)] by auto
  ultimately show ?thesis
    using sb_count_ok [OF st(5)] n e by (simp add: counted_def wrote_def)
qed

lemma index_entry_total:
  assumes "no_faults (snd s)" "unat (sb_written (fst s)) + 8 + length (snd e) < 2 ^ 32"
  shows "st_ok (sb_write_index_entry e) s"
proof -
  obtain offset key where e: "e = (offset, key)" by (cases e)
  have n: "add_u32 8 (word_of_nat (length key)) = Inr (8 + word_of_nat (length key))"
    "unat (8 + word_of_nat (length key) :: u32) = 8 + length key"
    using assms(2) e by (simp_all add: add_u32_def unat_add_u32 unat_word_of_nat_u32)
  have cnt: "st_ok (sb_count (8 + word_of_nat (length key))) s3"
    if "sb_write (u32_le offset) s = (Inr (), s1)" "sb_write (u32_le (word_of_nat (length key))) s1 = (Inr (), s2)"
      "sb_write key s2 = (Inr (), s3)" for s1 s2 s3
    using sb_write_ok(2) [OF that(1)] sb_write_ok(2) [OF that(2)] sb_write_ok(2) [OF that(3)] n(2) assms(2) e
    by (intro sb_count_total) auto
  show ?thesis
    unfolding e sb_write_index_entry_def prod.case n(1) st_ok_bind_simps
    by (intro st_ok_write assms(1)) (simp_all add: cnt)
qed

lemma index_entries_ok:
  assumes "st_for idx sb_write_index_entry s = (Inr (), s')" "\<forall>e \<in> set idx. length (snd e) < 2 ^ 32"
  shows "counted (concat (map index_entry_bytes idx)) s s'"
  using assms
proof (induction idx arbitrary: s)
  case Nil
  then show ?case by (simp add: st_simps counted_def wrote_def)
next
  case (Cons e idx)
  obtain s1 where s1: "sb_write_index_entry e s = (Inr (), s1)" "st_for idx sb_write_index_entry s1 = (Inr (), s')"
    using Cons.prems(1) by (auto simp: st_bind_Inr_iff)
  have "counted (index_entry_bytes e) s s1" using s1(1) Cons.prems(2) by (intro index_entry_ok) auto
  then show ?case using Cons.IH [OF s1(2)] Cons.prems(2) counted_trans by auto
qed

lemma index_entries_total:
  assumes "no_faults (snd s)"
    and "unat (sb_written (fst s)) + length (concat (map index_entry_bytes idx)) < 2 ^ 32"
  shows "st_ok (st_for idx sb_write_index_entry) s"
  using assms
proof (induction idx arbitrary: s)
  case (Cons e idx)
  have "st_ok (st_for idx sb_write_index_entry) s1" if "sb_write_index_entry e s = (Inr (), s1)" for s1
  proof -
    have "counted (index_entry_bytes e) s s1" using that Cons.prems(2) by (intro index_entry_ok) auto
    then show ?thesis
      using Cons.prems by (intro Cons.IH) (auto simp: counted_def intro: wrote_no_faults)
  qed
  then show ?case using Cons.prems by (auto intro!: st_ok_bind index_entry_total)
qed simp

lemma write_index_ok:
  assumes "sb_write_index s = (Inr (), s')" "\<forall>e \<in> set (sb_index (fst s)). length (snd e) < 2 ^ 32"
  shows "counted (index_bytes (sb_index (fst s))) s s'"
proof -
  obtain s1 s2 where st: "sb_write (u32_le (word_of_nat (length (sb_index (fst s))))) s = (Inr (), s1)"
    "sb_count 4 s1 = (Inr (), s2)" "st_for (sb_index (fst s)) sb_write_index_entry s2 = (Inr (), s')"
    using assms(1) by (auto simp: sb_write_index_def st_bind_Inr_iff st_simps)
  show ?thesis
    unfolding index_bytes_def
    by (rule counted_trans [OF write_then_count [OF st(1,2)] index_entries_ok [OF st(3) assms(2)]]) simp
qed

lemma write_index_total:
  assumes "no_faults (snd s)"
    and "unat (sb_written (fst s)) + length (index_bytes (sb_index (fst s))) < 2 ^ 32"
  shows "st_ok sb_write_index s"
proof -
  let ?idx = "sb_index (fst s)"
  have "st_ok (sb_count 4) s1 \<and> (\<forall>s2. sb_count 4 s1 = (Inr (), s2) \<longrightarrow> st_ok (st_for ?idx sb_write_index_entry) s2)"
    if w: "sb_write (u32_le (word_of_nat (length ?idx))) s = (Inr (), s1)" for s1
  proof -
    have "sb_written (fst s1) = sb_written (fst s)" using sb_write_ok(2) [OF w] by auto
    then have c: "st_ok (sb_count 4) s1" using assms(2) by (intro sb_count_total) (simp add: index_bytes_def)
    have "st_ok (st_for ?idx sb_write_index_entry) s2" if "sb_count 4 s1 = (Inr (), s2)" for s2
    proof -
      have "counted (u32_le (word_of_nat (length ?idx))) s s2" by (rule write_then_count [OF w that]) simp
      then show ?thesis
        using assms by (intro index_entries_total) (auto simp: counted_def index_bytes_def intro: wrote_no_faults)
    qed
    with c show ?thesis by blast
  qed
  then show ?thesis
    unfolding sb_write_index_def st_ok_bind_simps
    by (intro st_ok_write assms(1)) (metis (full_types) st_ok_bind old.unit.exhaust)
qed

text \<open>The state in which the index block is written: every entry is in a flushed block.\<close>

lemma finish_flush_ok:
  assumes inv: "built bsize bs es s" and fits: "sst_fits es"
    and ok: "(if block_is_empty (sb_block (fst s)) then st_return () else sb_flush_block) s = (Inr (), s')"
  shows "\<exists>bs'. built bsize bs' es s' \<and> concat (map entries bs') = es \<and> (\<exists>cs. wrote cs s s')"
proof (cases "block_is_empty (sb_block (fst s))")
  case True
  then have "s' = s" using ok by (simp add: st_simps)
  moreover have "wrote [] s s" by (simp add: wrote_def)
  ultimately show ?thesis using inv True by (auto simp: built_def block_is_empty_def)
next
  case False
  then have fl: "sb_flush_block s = (Inr (), s')" using ok by simp
  have "concat (map entries (bs @ [sb_block (fst s)])) = es" using inv by (simp add: built_def)
  with built_flush_ok [OF inv fl fits] show ?thesis by blast
qed

definition sst_layout :: "nat \<Rightarrow> entry list \<Rightarrow> block list \<Rightarrow> bool" where
  "sst_layout bsize es bs \<longleftrightarrow> concat (map entries bs) = es \<and> (\<forall>b \<in> set bs. chunk_ok bsize b \<and> entries b \<noteq> [])"

lemma sst_layout_bound:
  assumes "sst_layout bsize es bs" "sst_fits es"
  shows "length (data_bytes bs) + length (index_bytes (index_of 0 bs)) + length (bloom_encode (sst_bloom bs)) < 2 ^ 32"
  using assms by (intro data_bound [of es bs "[]"]) (auto simp: sst_layout_def chunk_ok_def)

lemma index_keys_small:
  assumes "sst_layout bsize es bs" "sst_fits es" "e \<in> set (index_of 0 bs)"
  shows "length (snd e) < 2 ^ 16"
proof -
  obtain i where i: "i < length bs" "snd e = fst (last (entries (bs ! i)))"
    using assms(3) by (auto simp: in_set_conv_nth index_of_nth)
  then have "bs ! i \<in> set bs" "entries (bs ! i) \<noteq> []" using assms(1) by (auto simp: sst_layout_def)
  moreover have "set (entries b) \<subseteq> set es" if "b \<in> set bs" for b
    using that assms(1) by (auto simp: sst_layout_def)
  ultimately have "last (entries (bs ! i)) \<in> set es" using last_in_set by blast
  then show ?thesis using assms(2) i(2) by (simp add: sst_fits_def)
qed

lemma sb_finish_ok:
  assumes inv: "built bsize bs0 es s" and fits: "sst_fits es" and ok: "sb_finish s = (Inr (), s')"
  shows "\<exists>bs cs. sst_layout bsize es bs \<and> wrote cs s s' \<and> bw_buf (sb_file (fst s')) = [] \<and>
    bw_content (sb_file (fst s')) (snd s') = sst_bytes bs"
proof -
  obtain s1 s2 s3 s4 s5 s6 where st:
    "(if block_is_empty (sb_block (fst s)) then st_return () else sb_flush_block) s = (Inr (), s1)"
    "sb_write_index s1 = (Inr (), s2)"
    "sb_write (bloom_encode (bloom_build (sb_keys (fst s2)) default_bits_per_key)) s2 = (Inr (), s3)"
    "sb_count (word_of_nat (length (bloom_encode (bloom_build (sb_keys (fst s2)) default_bits_per_key)))) s3 = (Inr (), s4)"
    "sb_write (u32_le (sb_written (fst s1))) s4 = (Inr (), s5)"
    "sb_write (u32_le (sb_written (fst s2))) s5 = (Inr (), s6)" "sb_sync s6 = (Inr (), s')"
    using ok by (auto simp: sb_finish_def Let_def st_bind_Inr_iff st_simps(4))
  obtain bs cs where b: "built bsize bs es s1" "concat (map entries bs) = es" "wrote cs s s1"
    using finish_flush_ok [OF inv fits st(1)] by blast
  have lay: "sst_layout bsize es bs" using b by (simp add: built_def sst_layout_def)
  have idx: "sb_index (fst s1) = index_of 0 bs" "sb_keys (fst s1) = map fst es"
    "unat (sb_written (fst s1)) = length (data_bytes bs)"
    "bw_content (sb_file (fst s1)) (snd s1) = data_bytes bs"
    using b(1) by (simp_all add: built_def)
  have "\<forall>e \<in> set (sb_index (fst s1)). length (snd e) < 2 ^ 32"
    using index_keys_small [OF lay fits] idx(1) by fastforce
  note c = write_index_ok [OF st(2) this, unfolded idx(1)]
  have keys: "bloom_build (sb_keys (fst s2)) default_bits_per_key = sst_bloom bs"
    using c idx(2) b(2) by (simp add: counted_def sst_bloom_def)
  have off: "sb_written (fst s1) = word_of_nat (length (data_bytes bs))"
    "sb_written (fst s2) = word_of_nat (length (data_bytes bs) + length (index_bytes (index_of 0 bs)))"
    using c idx(3) by (simp_all only: counted_def written_word)
  have s4: "wrote (bloom_encode (sst_bloom bs)) s2 s4"
    using sb_write_ok(1) [OF st(3)] sb_count_ok(1) [OF st(4)] by (simp add: keys wrote_def)
  have s6: "wrote (cs @ index_bytes (index_of 0 bs) @ bloom_encode (sst_bloom bs) @
      u32_le (sb_written (fst s1)) @ u32_le (sb_written (fst s2))) s s6"
    using wrote_trans [OF wrote_trans [OF wrote_trans [OF wrote_trans [OF b(3) c [unfolded counted_def, THEN conjunct1]] s4]
      sb_write_ok(1) [OF st(5)]] sb_write_ok(1) [OF st(6)]] by simp
  obtain b6 d6 where b6: "s6 = (b6, d6)" by (cases s6)
  obtain w' d' where fl: "bw_flush_buf (sb_file b6, d6) = (Inr (), (w', d'))" "s' = (b6\<lparr>sb_file := w'\<rparr>, d')"
    using st(7) b6 by (auto simp: sb_sync_def split: prod.splits)
  note f = bw_flush_buf_any [OF fl(1)] bw_flush_buf_ok [OF fl(1)]
  have w: "wrote (cs @ index_bytes (index_of 0 bs) @ bloom_encode (sst_bloom bs) @
      u32_le (sb_written (fst s1)) @ u32_le (sb_written (fst s2))) s s'"
    using s6 f by (auto simp: wrote_def b6 fl(2) intro: only_file_trans)
  moreover have "bw_content (sb_file (fst s')) (snd s') = sst_bytes bs"
    using w b(3) idx(4) unfolding off by (simp add: wrote_def sst_bytes_def Let_def)
  ultimately show ?thesis using lay f by (auto simp: fl(2))
qed

lemma sb_finish_total:
  assumes inv: "built bsize bs0 es s" and fits: "sst_fits es" and nf: "no_faults (snd s)"
  shows "st_ok sb_finish s"
proof -
  let ?flush = "if block_is_empty (sb_block (fst s)) then st_return () else sb_flush_block"
  have flush: "st_ok ?flush s"
    using built_flush_total [OF inv fits nf] by (simp add: block_is_empty_def)
  have sync: "st_ok sb_sync t" if "no_faults (snd t)" for t
  proof -
    obtain w d where "bw_flush_buf (sb_file (fst t), snd t) = (Inr (), (w, d))"
      by (rule bw_flush_buf_total [OF \<open>no_faults (snd t)\<close>])
    then show ?thesis by (cases t) (simp add: st_ok_def sb_sync_def)
  qed
  have rest: "st_ok sb_write_index s1 \<and> (\<forall>s2. sb_write_index s1 = (Inr (), s2) \<longrightarrow> no_faults (snd s2) \<and>
      (\<forall>s3. sb_write (bloom_encode (bloom_build (sb_keys (fst s2)) default_bits_per_key)) s2 = (Inr (), s3) \<longrightarrow>
        st_ok (sb_count (word_of_nat (length (bloom_encode (bloom_build (sb_keys (fst s2)) default_bits_per_key))))) s3))"
    if s1: "?flush s = (Inr (), s1)" for s1
  proof -
    obtain bs cs where b: "built bsize bs es s1" "concat (map entries bs) = es" "wrote cs s s1"
      using finish_flush_ok [OF inv fits s1] by blast
    have lay: "sst_layout bsize es bs" using b by (simp add: built_def sst_layout_def)
    note bound = sst_layout_bound [OF lay fits]
    have idx: "sb_index (fst s1) = index_of 0 bs" "sb_keys (fst s1) = map fst es"
      "unat (sb_written (fst s1)) = length (data_bytes bs)" using b(1) by (simp_all add: built_def)
    have nf1: "no_faults (snd s1)" using b(3) nf by (rule wrote_no_faults)
    have small: "\<forall>e \<in> set (sb_index (fst s1)). length (snd e) < 2 ^ 32"
      using index_keys_small [OF lay fits] idx(1) by fastforce
    have "st_ok sb_write_index s1" using bound idx by (intro write_index_total nf1) simp
    moreover have "no_faults (snd s2) \<and>
      (\<forall>s3. sb_write (bloom_encode (bloom_build (sb_keys (fst s2)) default_bits_per_key)) s2 = (Inr (), s3) \<longrightarrow>
        st_ok (sb_count (word_of_nat (length (bloom_encode (bloom_build (sb_keys (fst s2)) default_bits_per_key))))) s3)"
      if s2: "sb_write_index s1 = (Inr (), s2)" for s2
    proof -
      note c = write_index_ok [OF s2 small]
      have keys: "bloom_build (sb_keys (fst s2)) default_bits_per_key = sst_bloom bs"
        using c idx(2) b(2) by (simp add: counted_def sst_bloom_def)
      have "st_ok (sb_count (word_of_nat (length (bloom_encode (sst_bloom bs))))) s3"
        if "sb_write (bloom_encode (sst_bloom bs)) s2 = (Inr (), s3)" for s3
      proof (rule sb_count_total)
        have "sb_written (fst s3) = sb_written (fst s2)" using sb_write_ok(2) [OF that] by auto
        then show "unat (sb_written (fst s3)) + unat (word_of_nat (length (bloom_encode (sst_bloom bs))) :: u32) < 2 ^ 32"
          using c idx bound by (simp add: counted_def unat_word_of_nat_u32)
      qed
      moreover have "no_faults (snd s2)" using c nf1 by (auto simp: counted_def intro: wrote_no_faults)
      ultimately show ?thesis unfolding keys by blast
    qed
    ultimately show ?thesis by blast
  qed
  have tail: "st_ok (st_bind (sb_count n) (\<lambda>_. st_bind (sb_write a) (\<lambda>_. st_bind (sb_write b) (\<lambda>_. sb_sync)))) t"
    if "st_ok (sb_count n) t" "no_faults (snd t)" for n a b t
  proof (rule st_ok_bind [OF that(1)])
    fix x t1 assume "sb_count n t = (Inr x, t1)"
    then have "snd t1 = snd t" using sb_count_ok(1) [of n t t1] by (cases t1) simp
    then show "st_ok (st_bind (sb_write a) (\<lambda>_. st_bind (sb_write b) (\<lambda>_. sb_sync))) t1"
      using that(2) by (intro st_ok_write sync) auto
  qed
  show ?thesis
    unfolding sb_finish_def st_ok_bind_simps Let_def
  proof (rule st_ok_bind [OF flush], unfold st_ok_bind_simps, rule st_ok_bind, goal_cases)
    case (1 x s1)
    then show ?case using rest by simp
  next
    case (2 x s1 y s2)
    then show ?case unfolding st_ok_bind_simps using rest by (intro st_ok_write tail) (simp_all del: split_paired_All)
  qed
qed

subsection \<open>A whole file\<close>

lemma built_new: "built bsize [] [] (\<lparr>sb_path = p, sb_file = \<lparr>bw_path = p, bw_buf = []\<rparr>, sb_block = block_new,
    sb_index = [], sb_keys = [], sb_block_size = bsize, sb_written = 0\<rparr>, set_file p (Some []) d)"
  by (simp add: built_def bw_content_def chunk_ok_def block_new_def block_wf_def)

lemma sst_write_ok:
  assumes "sst_write p bsize es d = (Inr (), d')" and fits: "sst_fits es"
  shows "\<exists>bs. sst_layout bsize es bs \<and> files d' p = Some (sst_bytes bs) \<and> only_file p d d' \<and> durable d' = durable d"
proof -
  let ?b0 = "\<lparr>sb_path = p, sb_file = \<lparr>bw_path = p, bw_buf = []\<rparr>, sb_block = block_new,
      sb_index = [], sb_keys = [], sb_block_size = bsize, sb_written = 0\<rparr> :: builder"
  obtain d0 where d0: "create_file p d = (Inr (), d0)"
    using assms(1) by (auto simp: sst_write_def sb_new_def st_bind_Inr_iff)
  then have d0': "d0 = set_file p (Some []) (tick d)" by (auto simp: create_file_def split: option.splits)
  obtain s1 s2 where st: "st_for es (\<lambda>(k, v). sb_add k v) (?b0, d0) = (Inr (), s1)" "sb_finish s1 = (Inr (), s2)"
    "d' = bw_drop (sb_file (fst s2)) (snd s2)"
    using assms(1) d0
    by (auto simp: sst_write_def sb_new_def st_bind_Inr_iff st_simps(1) split: prod.splits)
  have b0: "built bsize [] [] (?b0, d0)" unfolding d0' by (rule built_new)
  obtain bs1 cs1 where s1: "built bsize bs1 es s1" "wrote cs1 (?b0, d0) s1"
    using add_all_ok [OF b0 st(1)] fits by auto
  obtain bs cs where s2: "sst_layout bsize es bs" "wrote cs s1 s2" "bw_buf (sb_file (fst s2)) = []"
    "bw_content (sb_file (fst s2)) (snd s2) = sst_bytes bs"
    using sb_finish_ok [OF s1(1) fits st(2)] by blast
  have w: "wrote (cs1 @ cs) (?b0, d0) s2" using s1(2) s2(2) by (rule wrote_trans)
  have d': "d' = snd s2" using s2(3) st(3) by (simp add: bw_drop_def bw_flush_buf_def)
  have "file_bytes d' p = sst_bytes bs" using s2(3,4) w by (simp add: bw_content_def wrote_def d')
  moreover have "sst_bytes bs \<noteq> []"
  proof -
    have "length (sst_bytes bs) \<noteq> 0" unfolding sst_bytes_def Let_def length_append by simp
    then show ?thesis by auto
  qed
  ultimately have "files d' p = Some (sst_bytes bs)" by (auto simp: file_bytes_def split: option.splits)
  moreover have "only_file p d d'"
    using w d0' by (auto simp: wrote_def d' only_file_def)
  moreover have "durable d' = durable d" using w d0' by (simp add: wrote_def d')
  ultimately show ?thesis using s2(1) by blast
qed

lemma sst_write_total:
  assumes nf: "no_faults d" and fits: "sst_fits es"
  shows "st_ok (sst_write p bsize es) d"
proof -
  let ?b0 = "\<lparr>sb_path = p, sb_file = \<lparr>bw_path = p, bw_buf = []\<rparr>, sb_block = block_new,
      sb_index = [], sb_keys = [], sb_block_size = bsize, sb_written = 0\<rparr> :: builder"
  let ?d0 = "set_file p (Some []) (tick d)"
  have d0: "create_file p d = (Inr (), ?d0)"
    using nf by (simp add: create_file_def fault_now_def no_faults_def)
  have b0: "built bsize [] [] (?b0, ?d0)" by (rule built_new)
  have "st_ok (st_bind (st_for es (\<lambda>(k, v). sb_add k v)) (\<lambda>_. sb_finish)) (?b0, ?d0)"
  proof (rule st_ok_bind)
    show "st_ok (st_for es (\<lambda>(k, v). sb_add k v)) (?b0, ?d0)"
      using add_all_total [OF b0, of es] fits nf by simp
    fix x s1 assume s1: "st_for es (\<lambda>(k, v). sb_add k v) (?b0, ?d0) = (Inr x, s1)"
    then obtain bs1 cs1 where "built bsize bs1 es s1" "wrote cs1 (?b0, ?d0) s1"
      using add_all_ok [OF b0, of es s1] fits by auto
    then show "st_ok sb_finish s1"
      using fits nf by (intro sb_finish_total) (auto intro: wrote_no_faults)
  qed
  then obtain b' d' where "st_bind (st_for es (\<lambda>(k, v). sb_add k v)) (\<lambda>_. sb_finish) (?b0, ?d0) = (Inr (), (b', d'))"
    by (auto simp: st_ok_def)
  moreover have new: "sb_new p bsize d = (Inr ?b0, ?d0)"
    unfolding sb_new_def st_bind_eq(1) [where m = "create_file p", OF d0] by (simp add: st_simps)
  ultimately show ?thesis
    unfolding sst_write_def st_ok_def st_bind_eq(1) [where m = "sb_new p bsize" and s = d, OF new] by simp
qed

end
