(* ===== verification/SSTableReader.thy ===== *)
theory SSTableReader
  imports SSTableBuilder Cache
begin

text \<open>
  \<open>src/sstable/reader.rs\<close>: a file is read into memory, its footer, index and bloom filter are parsed,
  and lookups go through the filter, a binary search of the index, the (optional, shared) block cache
  and a binary search of the block. The cache is the state of the operations.
\<close>

subsection \<open>Opening\<close>

record reader =
  rd_data :: bytes
  rd_index :: "(u32 \<times> bytes) list"
  rd_index_offset :: u32
  rd_bloom :: bloom
  rd_sst_id :: u64

text \<open>The loop of \<open>parse_index\<close>: \<open>n\<close> entries still to read at \<open>pos\<close>.\<close>

fun parse_entries :: "nat \<Rightarrow> bytes \<Rightarrow> nat \<Rightarrow> (u32 \<times> bytes) list res" where
  "parse_entries 0 data pos = Inr []"
| "parse_entries (Suc n) data pos =
     (if length data < pos + 8 then corrupt ''index entry truncated''
      else
        let block_offset = u32_of_le (take 4 (drop pos data));
            key_len = rd_u32 data (pos + 4); pos2 = pos + 8
        in if length data < pos2 + key_len then corrupt ''index entry key truncated''
           else and_then (parse_entries n data (pos2 + key_len))
                  (\<lambda>es. Inr ((block_offset, slice_of data pos2 (pos2 + key_len)) # es)))"

definition parse_index :: "bytes \<Rightarrow> nat \<Rightarrow> (u32 \<times> bytes) list res" where
  "parse_index data offset =
     (if length data < offset + 4 then corrupt ''index block too short''
      else parse_entries (rd_u32 data offset) data (offset + 4))"

definition sst_parse :: "bytes \<Rightarrow> u64 \<Rightarrow> reader res" where
  "sst_parse data sst_id =
     (if length data < 8 then corrupt ''SSTable file too short''
      else
        let len = length data;
            index_offset = u32_of_le (take 4 (drop (len - 8) data));
            bloom_offset = u32_of_le (take 4 (drop (len - 4) data))
        in and_then (parse_index data (unat index_offset)) (\<lambda>index.
           let bloom_end = len - 8 in
           if bloom_end < unat bloom_offset then Inl (Panic ''slice index starts after its end'')
           else and_then (bloom_decode (slice_of data (unat bloom_offset) bloom_end)) (\<lambda>bloom.
             Inr \<lparr>rd_data = data, rd_index = index, rd_index_offset = index_offset,
                  rd_bloom = bloom, rd_sst_id = sst_id\<rparr>)))"

definition sst_open :: "path \<Rightarrow> u64 \<Rightarrow> (disk, reader) prog" where
  "sst_open p sst_id = st_bind (read_file p) (\<lambda>data. st_lift (sst_parse data sst_id))"

definition num_blocks :: "reader \<Rightarrow> nat" where
  "num_blocks r = length (rd_index r)"

subsection \<open>Lookup\<close>

text \<open>The cache behind \<open>Option<Arc<Mutex<BlockCache>>>\<close>.\<close>

type_synonym 'a cprog = "(block_cache option, 'a) prog"

definition cached :: "cache_key \<Rightarrow> (block_cache option \<Rightarrow> block option \<times> block_cache option)" where
  "cached key co =
     (case co of
        None \<Rightarrow> (None, None)
      | Some c \<Rightarrow> (case cache_get key c of (b, c') \<Rightarrow> (b, Some c')))"

definition load_block :: "reader \<Rightarrow> nat \<Rightarrow> block cprog" where
  "load_block r idx co =
     (let key = \<lparr>ck_sst_id = rd_sst_id r, ck_block_idx = idx\<rparr> in
      case cached key co of
        (Some b, co1) \<Rightarrow> (Inr b, co1)
      | (None, co1) \<Rightarrow>
          if length (rd_index r) \<le> idx then (Inl (Panic ''index out of bounds''), co1)
          else
            let start = unat (fst (rd_index r ! idx));
                end = (if idx + 1 < length (rd_index r) then unat (fst (rd_index r ! (idx + 1)))
                       else unat (rd_index_offset r))
            in if length (rd_data r) < end \<or> end < start
               then (corrupt (''block '' @ dec idx @ '' offset out of range: '' @ dec start @ ''..'' @ dec end), co1)
               else (case block_decode (slice_of (rd_data r) start end) of
                       Inl f \<Rightarrow> (Inl f, co1)
                     | Inr b \<Rightarrow> (Inr b, map_option (cache_put key b) co1)))"

definition sst_get :: "reader \<Rightarrow> bytes \<Rightarrow> bytes option cprog" where
  "sst_get r key =
     st_bind (st_lift (may_contain (rd_bloom r) key)) (\<lambda>maybe.
       if \<not> maybe then st_return None
       else
         let block_idx = (case binary_search (map snd (rd_index r)) key of
                            Inr i \<Rightarrow> Some i
                          | Inl i \<Rightarrow> if i < length (rd_index r) then Some i else None)
         in case block_idx of
              None \<Rightarrow> st_return None
            | Some i \<Rightarrow> st_bind (load_block r i) (\<lambda>b.
                st_return (case binary_search (map fst (entries b)) key of
                             Inr j \<Rightarrow> Some (snd (entries b ! j))
                           | Inl _ \<Rightarrow> None)))"

subsection \<open>Iteration\<close>

record sst_iter =
  it_block_idx :: nat
  it_entry_idx :: nat
  it_current :: "block option"

definition iter_start :: sst_iter where
  "iter_start = \<lparr>it_block_idx = 0, it_entry_idx = 0, it_current = None\<rparr>"

text \<open>One call of \<open>next\<close>. A block that fails to load ends the iteration (\<open>.ok()?\<close>); a panic propagates.\<close>

function iter_next :: "reader \<Rightarrow> sst_iter \<Rightarrow> block_cache option \<Rightarrow> entry option res \<times> sst_iter \<times> block_cache option" where
  "iter_next r it co =
     (case it_current it of
        None \<Rightarrow>
          if length (rd_index r) \<le> it_block_idx it then (Inr None, it, co)
          else (case load_block r (it_block_idx it) co of
                  (Inl (Fail e), co1) \<Rightarrow> (Inr None, it, co1)
                | (Inl f, co1) \<Rightarrow> (Inl f, it, co1)
                | (Inr b, co1) \<Rightarrow> iter_next r (it\<lparr>it_current := Some b, it_entry_idx := 0\<rparr>) co1)
      | Some b \<Rightarrow>
          if it_entry_idx it < length (entries b)
          then (Inr (Some (entries b ! it_entry_idx it)), it\<lparr>it_entry_idx := it_entry_idx it + 1\<rparr>, co)
          else iter_next r (it\<lparr>it_block_idx := it_block_idx it + 1, it_current := None\<rparr>) co)"
  by pat_completeness auto

definition iter_rank :: "reader \<Rightarrow> sst_iter \<Rightarrow> nat" where
  "iter_rank r it =
     (if length (rd_index r) \<le> it_block_idx it then (if it_current it = None then 0 else 1)
      else 2 * (length (rd_index r) - it_block_idx it) + (if it_current it = None then 1 else 0))"

termination iter_next
  by (relation "measure (\<lambda>(r, it, co). iter_rank r it)") (auto simp: iter_rank_def)

declare iter_next.simps [simp del]

text \<open>The whole iteration, as \<open>for (k, v) in reader.iter()\<close> runs it: every call of \<open>next\<close> that yields an
  entry gets further in the file.\<close>

definition iter_left :: "sst_iter \<Rightarrow> nat" where
  "iter_left it = (case it_current it of None \<Rightarrow> 0 | Some b \<Rightarrow> length (entries b) - it_entry_idx it)"

lemma iter_next_progress:
  "iter_next r it co = (Inr (Some e), it', co') \<Longrightarrow>
     iter_rank r it' < iter_rank r it \<or> iter_rank r it' = iter_rank r it \<and> iter_left it' < iter_left it"
proof (induction r it co rule: iter_next.induct)
  case (1 r it co)
  show ?case
  proof (cases "it_current it")
    case None
    note none = None
    then have more: "\<not> length (rd_index r) \<le> it_block_idx it"
      using "1.prems" by (auto simp: iter_next.simps [of r it])
    obtain res co1 where l: "load_block r (it_block_idx it) co = (res, co1)" by (metis surj_pair)
    obtain b where b: "res = Inr b"
      using "1.prems" none more l by (auto simp: iter_next.simps [of r it] split: sum.splits fault.splits)
    let ?it = "it\<lparr>it_current := Some b, it_entry_idx := 0\<rparr>"
    have "iter_next r ?it co1 = (Inr (Some e), it', co')"
      using "1.prems" none more l b by (simp add: iter_next.simps [of r it])
    from "1.IH"(1) [OF none more l [symmetric] b this] have "iter_rank r it' \<le> iter_rank r ?it" by auto
    moreover have "iter_rank r ?it < iter_rank r it" using none more by (simp add: iter_rank_def)
    ultimately show ?thesis by simp
  next
    case (Some b)
    show ?thesis
    proof (cases "it_entry_idx it < length (entries b)")
      case True
      then have "it' = it\<lparr>it_entry_idx := it_entry_idx it + 1\<rparr>"
        using "1.prems" Some by (simp add: iter_next.simps [of r it])
      then show ?thesis using True Some by (simp add: iter_rank_def iter_left_def)
    next
      case False
      let ?it = "it\<lparr>it_block_idx := it_block_idx it + 1, it_current := None\<rparr>"
      have "iter_next r ?it co = (Inr (Some e), it', co')"
        using "1.prems" Some False by (simp add: iter_next.simps [of r it])
      from "1.IH"(2) [OF Some False this] have "iter_rank r it' \<le> iter_rank r ?it" by auto
      moreover have "iter_rank r ?it < iter_rank r it" using Some by (simp add: iter_rank_def) arith
      ultimately show ?thesis by simp
    qed
  qed
qed

function iter_collect :: "reader \<Rightarrow> sst_iter \<Rightarrow> block_cache option \<Rightarrow> entry list res \<times> block_cache option" where
  "iter_collect r it co =
     (case iter_next r it co of
        (Inl f, it', co') \<Rightarrow> (Inl f, co')
      | (Inr None, it', co') \<Rightarrow> (Inr [], co')
      | (Inr (Some e), it', co') \<Rightarrow>
          (case iter_collect r it' co' of
             (Inl f, co'') \<Rightarrow> (Inl f, co'')
           | (Inr es, co'') \<Rightarrow> (Inr (e # es), co'')))"
  by pat_completeness auto
termination
  by (relation "inv_image (less_than <*lex*> less_than) (\<lambda>(r, it, co). (iter_rank r it, iter_left it))")
    (auto dest: iter_next_progress [OF sym])

declare iter_collect.simps [simp del]

definition sst_iter :: "reader \<Rightarrow> entry list cprog" where
  "sst_iter r = iter_collect r iter_start"

end
