(* ===== verification/SSTableCorrect.thy ===== *)
theory SSTableCorrect
  imports SSTableReader
begin

text \<open>
  An SSTable that the builder wrote is read back exactly: opening parses what was written, \<open>get\<close> is the
  lookup in the sorted entries and \<open>iter\<close> yields them all, with any coherent block cache in between.
  The cache is used through the contract \<open>block_store\<close> only (interpretation \<open>bc\<close>).
\<close>

subsection \<open>Opening what was written\<close>

definition opened :: "block list \<Rightarrow> u64 \<Rightarrow> reader" where
  "opened bs sst_id =
     \<lparr>rd_data = sst_bytes bs, rd_index = index_of 0 bs,
      rd_index_offset = word_of_nat (length (data_bytes bs)), rd_bloom = sst_bloom bs, rd_sst_id = sst_id\<rparr>"

lemma opened_simps [simp]:
  "rd_data (opened bs i) = sst_bytes bs" "rd_index (opened bs i) = index_of 0 bs"
  "rd_index_offset (opened bs i) = word_of_nat (length (data_bytes bs))"
  "rd_bloom (opened bs i) = sst_bloom bs" "rd_sst_id (opened bs i) = i"
  by (simp_all add: opened_def)

lemma parse_entries_index:
  assumes "\<forall>e \<in> set idx. length (snd e) < 2 ^ 32" "pos = length xs"
  shows "parse_entries (length idx) (xs @ concat (map index_entry_bytes idx) @ ys) pos = Inr idx"
  using assms
proof (induction idx arbitrary: xs pos)
  case (Cons e idx)
  obtain off key where e: "e = (off, key)" by (cases e)
  let ?n = "u32_le (word_of_nat (length key))" and ?rest = "concat (map index_entry_bytes idx) @ ys"
  let ?data = "xs @ u32_le off @ ?n @ key @ ?rest"
  have len: "length key < 4294967296" using Cons.prems(1) e by simp
  have off: "u32_of_le (take 4 (drop pos ?data)) = off"
    using Cons.prems(2) by (simp add: u_of_le_u_le)
  have n: "rd_u32 ?data (pos + 4) = length key"
    using Cons.prems(2) len rd_at(2) [of "pos + 4" "xs @ u32_le off" "word_of_nat (length key)" "key @ ?rest"]
    by (simp add: unat_word_of_nat_u32)
  have key: "slice_of ?data (pos + 8) (pos + 8 + length key) = key"
    using Cons.prems(2) slice_at [of "pos + 8" "xs @ u32_le off @ ?n" _ key ?rest] by simp
  have IH: "parse_entries (length idx) ?data (pos + 8 + length key) = Inr idx"
    using Cons.IH [of "pos + 8 + length key" "xs @ u32_le off @ ?n @ key"] Cons.prems by simp
  have "parse_entries (Suc (length idx)) ?data pos = Inr ((off, key) # idx)"
    unfolding parse_entries.simps Let_def off n key IH
    using Cons.prems(2) by simp
  moreover have "xs @ concat (map index_entry_bytes (e # idx)) @ ys = ?data"
    by (simp add: e index_entry_bytes_def)
  ultimately show ?case using e by (simp del: parse_entries.simps)
qed simp

lemma parse_index_written:
  assumes "\<forall>e \<in> set idx. length (snd e) < 2 ^ 32" "length idx < 2 ^ 32" "offset = length xs"
  shows "parse_index (xs @ index_bytes idx @ ys) offset = Inr idx"
proof -
  let ?n = "u32_le (word_of_nat (length idx))"
  have "rd_u32 (xs @ ?n @ concat (map index_entry_bytes idx) @ ys) offset = length idx"
    using assms rd_at(2) [of offset xs "word_of_nat (length idx)"] by (simp add: unat_word_of_nat_u32)
  then show ?thesis
    using parse_entries_index [OF assms(1), of "offset + 4" "xs @ ?n" ys] assms(3)
    by (simp add: parse_index_def index_bytes_def)
qed

lemma sst_fits_count: "sst_fits es \<Longrightarrow> 22 * length es + 32 < 2 ^ 32"
proof -
  have "22 * length es \<le> sum_list (map entry_weight es)" for es
    by (induction es) (simp_all add: entry_weight_def)
  then show "sst_fits es \<Longrightarrow> 22 * length es + 32 < 2 ^ 32"
    unfolding sst_fits_def by (metis add.commute add_le_cancel_left order.strict_trans1)
qed

lemma sst_fits_entry: "sst_fits es \<Longrightarrow> e \<in> set es \<Longrightarrow> entry_fits e"
proof -
  assume "sst_fits es" "e \<in> set es"
  moreover from this(2) have "entry_weight e \<le> sum_list (map entry_weight es)"
    by (intro member_le_sum_list) auto
  ultimately show ?thesis by (auto simp: sst_fits_def entry_fits_def entry_weight_def)
qed

lemma length_blocks_le: "\<forall>b \<in> set bs. entries b \<noteq> [] \<Longrightarrow> length bs \<le> length (concat (map entries bs))"
proof (induction bs)
  case (Cons b bs)
  then show ?case by (cases "entries b") auto
qed simp

text \<open>Everything a correct file needs: sorted entries within the format's widths, cut into blocks.\<close>

definition sst_good :: "entry list \<Rightarrow> block list \<Rightarrow> bool" where
  "sst_good es bs \<longleftrightarrow> sorted_keys es \<and> sst_fits es \<and> (\<exists>bsize. sst_layout bsize es bs)"

lemma sst_goodD:
  assumes "sst_good es bs"
  shows "concat (map entries bs) = es" "sorted_keys es" "sst_fits es"
    "b \<in> set bs \<Longrightarrow> entries b \<noteq> []" "b \<in> set bs \<Longrightarrow> block_fits (entries b)" "length bs \<le> length es"
    "length bs < 2 ^ 32" "length es < 2 ^ 32"
    "length (data_bytes bs) + length (index_bytes (index_of 0 bs)) + length (bloom_encode (sst_bloom bs)) < 2 ^ 32"
proof -
  obtain bsize where lay: "sst_layout bsize es bs" and g: "sorted_keys es" "sst_fits es"
    using assms by (auto simp: sst_good_def)
  show cc: "concat (map entries bs) = es" and "sorted_keys es" "sst_fits es"
    using lay g by (simp_all add: sst_layout_def)
  show ne: "b \<in> set bs \<Longrightarrow> entries b \<noteq> []" for b using lay by (simp add: sst_layout_def)
  show le: "length bs \<le> length es" using length_blocks_le [of bs] ne cc by auto
  show "length es < 2 ^ 32" "length bs < 2 ^ 32" using sst_fits_count [OF g(2)] le by simp_all
  show "block_fits (entries b)" if "b \<in> set bs"
  proof -
    have "set (entries b) \<subseteq> set es" using that cc by auto
    moreover have "length (entries b) \<le> length es"
      using that cc member_le_sum_list [of "length (entries b)" "map (length \<circ> entries) bs"]
      by (auto simp: length_concat comp_def)
    ultimately show ?thesis
      using sst_fits_entry [OF g(2)] sst_fits_count [OF g(2)] by (auto simp: block_fits_def)
  qed
  show "length (data_bytes bs) + length (index_bytes (index_of 0 bs)) + length (bloom_encode (sst_bloom bs)) < 2 ^ 32"
    using sst_layout_bound [OF lay g(2)] .
qed

lemma sst_bloom_fits:
  assumes "sst_good es bs"
  shows "bloom_fits (sst_bloom bs)"
proof -
  have "22 * length es + 32 < 4294967296" using sst_fits_count [OF sst_goodD(3) [OF assms]] by simp
  then have "max (length es * 10) 64 < 4294967296" "(max (length es * 10) 64 + 63) div 64 < 4294967296"
    by linarith+
  then show ?thesis
    using optimal_hashes_range(2) [of 10] sst_goodD(1) [OF assms]
    by (simp add: bloom_fits_def sst_bloom_def bloom_build_fields default_bits_per_key_def)
qed

lemma sst_parse_written:
  assumes good: "sst_good es bs"
  shows "sst_parse (sst_bytes bs) sst_id = Inr (opened bs sst_id)"
proof -
  let ?d = "data_bytes bs" and ?i = "index_bytes (index_of 0 bs)" and ?b = "bloom_encode (sst_bloom bs)"
  let ?f = "u32_le (word_of_nat (length ?d))" and ?g = "u32_le (word_of_nat (length ?d + length ?i))"
  note g = sst_goodD [OF good]
  have bytes: "sst_bytes bs = ?d @ ?i @ ?b @ ?f @ ?g" by (simp add: sst_bytes_def Let_def)
  have len: "length (sst_bytes bs) = length ?d + length ?i + length ?b + 8"
    unfolding bytes length_append by simp
  have f: "take 4 (drop (length (sst_bytes bs) - 8) (sst_bytes bs)) = ?f"
    unfolding len by (simp add: bytes)
  have g': "take 4 (drop (length (sst_bytes bs) - 4) (sst_bytes bs)) = ?g"
    unfolding len by (simp add: bytes)
  have off: "unat (word_of_nat (length ?d) :: u32) = length ?d"
    "unat (word_of_nat (length ?d + length ?i) :: u32) = length ?d + length ?i"
    using g(9) by (intro unat_word_of_nat_u32; simp)+
  obtain bsize where lay: "sst_layout bsize es bs" using good by (auto simp: sst_good_def)
  have "\<forall>e \<in> set (index_of 0 bs). length (snd e) < 2 ^ 32"
    using index_keys_small [OF lay g(3)] by fastforce
  then have idx: "parse_index (sst_bytes bs) (length ?d) = Inr (index_of 0 bs)"
    unfolding bytes using g(7) by (intro parse_index_written) simp_all
  have slice: "slice_of (sst_bytes bs) (length ?d + length ?i) (length (sst_bytes bs) - 8) = ?b"
    using slice_at [of "length ?d + length ?i" "?d @ ?i" "length ?d + length ?i + length ?b" ?b "?f @ ?g"]
    unfolding len by (simp add: bytes)
  show ?thesis
    unfolding sst_parse_def Let_def f g' u_of_le_u_le off idx slice and_then_simps
    using bloom_roundtrip [OF sst_bloom_fits [OF good], of "[]"] len by (simp add: opened_def)
qed

subsection \<open>Loading blocks through the cache\<close>

text \<open>The block that decoding the bytes of \<open>b\<close> yields, and what the shared cache may hold: for a table of
  the files by their ids, only blocks decoded from them.\<close>

definition dblock :: "block \<Rightarrow> block" where
  "dblock b = \<lparr>entries = entries b, encoded_size = length (block_encode b) - 4\<rparr>"

lemma entries_dblock [simp]: "entries (dblock b) = entries b"
  by (simp add: dblock_def)

definition block_truth :: "(u64 \<Rightarrow> block list option) \<Rightarrow> cache_key \<Rightarrow> block \<Rightarrow> bool" where
  "block_truth tbl key b \<longleftrightarrow>
     (case tbl (ck_sst_id key) of
        None \<Rightarrow> False
      | Some bs \<Rightarrow> ck_block_idx key < length bs \<and> b = dblock (bs ! ck_block_idx key))"

definition cache_ok :: "(u64 \<Rightarrow> block list option) \<Rightarrow> block_cache option \<Rightarrow> bool" where
  "cache_ok tbl co \<longleftrightarrow> (case co of None \<Rightarrow> True | Some c \<Rightarrow> bc.coherent (block_truth tbl) c)"

lemma cache_ok_None [simp]: "cache_ok tbl None"
  by (simp add: cache_ok_def)

lemma cache_ok_new: "cache_ok tbl (Some (cache_new cap))"
  by (simp add: cache_ok_def bc.coherent_def) (simp add: cache_contents_def cache_new_def)

lemma cache_ok_extend: "cache_ok tbl co \<Longrightarrow> tbl i = None \<Longrightarrow> cache_ok (tbl(i \<mapsto> bs)) co"
  by (cases co) (auto simp: cache_ok_def block_truth_def elim!: bc.coherent_mono split: option.splits)

lemma cached_ok:
  assumes "cache_ok tbl co" "cached key co = (hit, co')"
  shows "cache_ok tbl co'" "hit = Some b \<Longrightarrow> block_truth tbl key b"
proof -
  have "cache_ok tbl co' \<and> (hit = Some b \<longrightarrow> block_truth tbl key b)"
  proof (cases co)
    case None
    then show ?thesis using assms by (simp add: cached_def)
  next
    case (Some c)
    have co: "bc.coherent (block_truth tbl) c" using assms(1) Some by (simp add: cache_ok_def)
    obtain c' where "cache_get key c = (hit, c')" "co' = Some c'"
      using assms(2) Some by (auto simp: cached_def split: prod.splits)
    then show ?thesis
      using bc.coherent_find [OF co, of key] bc.coherent_hit [OF co, of key b] by (simp add: cache_ok_def)
  qed
  then show "cache_ok tbl co'" "hit = Some b \<Longrightarrow> block_truth tbl key b" by simp_all
qed

lemma cache_ok_put:
  "cache_ok tbl co \<Longrightarrow> block_truth tbl key b \<Longrightarrow> cache_ok tbl (map_option (cache_put key b) co)"
  by (cases co) (auto simp: cache_ok_def intro: bc.coherent_add)

lemma data_slice:
  assumes "i < length bs"
  shows "slice_of (data_bytes bs @ ys) (length (data_bytes (take i bs))) (length (data_bytes (take (Suc i) bs))) =
    block_encode (bs ! i)"
proof -
  have t: "data_bytes (take (Suc i) bs) = data_bytes (take i bs) @ block_encode (bs ! i)"
    using assms by (simp add: take_Suc_conv_app_nth)
  have "data_bytes bs = data_bytes (take i bs) @ block_encode (bs ! i) @ data_bytes (drop (Suc i) bs)"
    using id_take_nth_drop [OF assms] by (metis concat.simps(2) concat_append data_bytes_def list.simps(9) map_append)
  then show ?thesis unfolding t by (simp add: slice_of_def)
qed

lemma data_prefix_le: "i \<le> j \<Longrightarrow> length (data_bytes (take i bs)) \<le> length (data_bytes (take j bs))"
proof -
  assume "i \<le> j"
  then have "take j bs = take i bs @ drop i (take j bs)" by (metis append_take_drop_id min.absorb1 take_take)
  then have "data_bytes (take j bs) = data_bytes (take i bs) @ data_bytes (drop i (take j bs))"
    by (metis concat_append data_bytes_def map_append)
  then show ?thesis by simp
qed

lemma load_block_spec:
  assumes good: "sst_good es bs" and tbl: "tbl sst_id = Some bs" and i: "i < length bs" and co: "cache_ok tbl co"
  shows "\<exists>co'. load_block (opened bs sst_id) i co = (Inr (dblock (bs ! i)), co') \<and> cache_ok tbl co'"
proof -
  let ?key = "\<lparr>ck_sst_id = sst_id, ck_block_idx = i\<rparr>" and ?r = "opened bs sst_id"
  note g = sst_goodD [OF good]
  obtain hit co1 where c: "cached ?key co = (hit, co1)" by (metis surj_pair)
  note ok = cached_ok [OF co c]
  have truth: "block_truth tbl ?key (dblock (bs ! i))" using tbl i by (simp add: block_truth_def)
  show ?thesis
  proof (cases hit)
    case (Some b)
    then have "b = dblock (bs ! i)" using ok(2) [of b] tbl by (simp add: block_truth_def)
    then show ?thesis using Some c ok(1) by (simp add: load_block_def opened_def)
  next
    case None
    have small: "length (data_bytes (take j bs)) < 4294967296" for j
      using data_prefix_le [of j "max j (length bs)" bs] g(9) by simp
    have off: "unat (fst (index_of 0 bs ! j)) = length (data_bytes (take j bs))" if "j < length bs" for j
      using that small [of j] by (simp add: index_of_nth unat_word_of_nat_u32)
    have stop: "(if i + 1 < length bs then unat (fst (index_of 0 bs ! (i + 1)))
        else unat (word_of_nat (length (data_bytes bs)) :: u32)) = length (data_bytes (take (Suc i) bs))"
    proof (cases "i + 1 < length bs")
      case False
      then have "take (Suc i) bs = bs" using i by simp
      then show ?thesis using False small [of "length bs"] by (simp add: unat_word_of_nat_u32)
    qed (simp add: off)
    have dec: "block_decode (block_encode (bs ! i)) = Inr (dblock (bs ! i))"
      using block_roundtrip [of "bs ! i" "[]"] g(5) i by (simp add: dblock_def)
    have slice: "slice_of (sst_bytes bs) (length (data_bytes (take i bs))) (length (data_bytes (take (Suc i) bs))) =
        block_encode (bs ! i)"
      using data_slice [OF i] by (simp add: sst_bytes_def Let_def)
    have "length (data_bytes (take (Suc i) bs)) \<le> length (sst_bytes bs)"
      using data_prefix_le [of "Suc i" "length bs" bs] i by (simp add: sst_bytes_def Let_def)
    then have "load_block ?r i co = (Inr (dblock (bs ! i)), map_option (cache_put ?key (dblock (bs ! i))) co1)"
      unfolding load_block_def Let_def opened_simps length_index_of stop off [OF i] slice dec c None
      using i data_prefix_le [of i "Suc i" bs] by simp
    then show ?thesis using cache_ok_put [OF ok(1) truth] by simp
  qed
qed

subsection \<open>Lookup\<close>

text \<open>A key is only in the block with the first last-key not below it.\<close>

lemma last_key_greatest: "sorted_keys es \<Longrightarrow> e \<in> set es \<Longrightarrow> fst e \<le> fst (last es)"
proof (induction es)
  case (Cons x es)
  then show ?case by (cases "es = []") (auto simp: sorted_keys_Cons less_imp_le)
qed simp

lemma sorted_keys_block: "sorted_keys (concat (map entries bs)) \<Longrightarrow> b \<in> set bs \<Longrightarrow> sorted_keys (entries b)"
  by (induction bs) (auto simp: sorted_keys_append)

lemma map_of_blocks_above:
  assumes "sorted_keys (concat (map entries bs))" "\<forall>b \<in> set bs. entries b \<noteq> []"
    and "\<forall>b \<in> set bs. fst (last (entries b)) < k"
  shows "map_of (concat (map entries bs)) k = None"
proof -
  have "fst e < k" if "b \<in> set bs" "e \<in> set (entries b)" for b e
    using last_key_greatest [OF sorted_keys_block [OF assms(1) that(1)] that(2)] assms(3) that(1) by fastforce
  then show ?thesis unfolding map_of_eq_None_iff by fastforce
qed

lemma map_of_block_at:
  assumes sorted: "sorted_keys (concat (map entries bs))" and ne: "\<forall>b \<in> set bs. entries b \<noteq> []"
    and i: "i < length bs" "\<forall>j < i. fst (last (entries (bs ! j))) < k" "k \<le> fst (last (entries (bs ! i)))"
  shows "map_of (concat (map entries bs)) k = map_of (entries (bs ! i)) k"
proof -
  let ?pre = "concat (map entries (take i bs))" and ?post = "concat (map entries (drop (Suc i) bs))"
  have split: "concat (map entries bs) = ?pre @ entries (bs ! i) @ ?post"
    using id_take_nth_drop [OF i(1)] by (metis concat.simps(2) concat_append list.simps(9) map_append)
  have s: "sorted_keys ?pre" "\<forall>x \<in> fst ` set (entries (bs ! i)). \<forall>y \<in> fst ` set ?post. x < y"
    using sorted unfolding split by (simp_all add: sorted_keys_append)
  have "map_of ?pre k = None"
  proof (rule map_of_blocks_above [OF s(1)])
    show "\<forall>b \<in> set (take i bs). entries b \<noteq> []" using ne by (auto dest: in_set_takeD)
    show "\<forall>b \<in> set (take i bs). fst (last (entries b)) < k"
      using i(2) by (auto simp: in_set_conv_nth)
  qed
  moreover have "map_of ?post k = None"
  proof -
    have "last (entries (bs ! i)) \<in> set (entries (bs ! i))" using ne i(1) by simp
    then have "fst (last (entries (bs ! i))) < y" if "y \<in> fst ` set ?post" for y
      using s(2) that by blast
    then have "k \<notin> fst ` set ?post" using i(3) by force
    then show ?thesis by (simp only: map_of_eq_None_iff not_False_eq_True)
  qed
  ultimately show ?thesis unfolding split by (simp add: map_add_def split: option.splits)
qed

lemma index_keys: "map snd (index_of off bs) = map (\<lambda>b. fst (last (entries b))) bs"
  by (induction bs arbitrary: off) auto

lemma index_keys_sorted:
  "sorted_keys (concat (map entries bs)) \<Longrightarrow> \<forall>b \<in> set bs. entries b \<noteq> [] \<Longrightarrow>
     sorted_wrt (<) (map (\<lambda>b. fst (last (entries b))) bs)"
proof (induction bs)
  case (Cons b bs)
  have "fst (last (entries b)) < fst (last (entries c))" if "c \<in> set bs" for c
  proof -
    have "last (entries b) \<in> set (entries b)" "last (entries c) \<in> set (entries c)"
      using Cons.prems(2) that by auto
    then show ?thesis using Cons.prems(1) that by (force simp: sorted_keys_append)
  qed
  then show ?case using Cons by (simp add: sorted_keys_append)
qed simp

lemma sst_get_spec:
  assumes good: "sst_good es bs" and tbl: "tbl sst_id = Some bs" and co: "cache_ok tbl co"
  shows "\<exists>co'. sst_get (opened bs sst_id) k co = (Inr (map_of es k), co') \<and> cache_ok tbl co'"
proof -
  let ?r = "opened bs sst_id" and ?keys = "map (\<lambda>b. fst (last (entries b))) bs"
  note g = sst_goodD [OF good]
  have ne: "\<forall>b \<in> set bs. entries b \<noteq> []" using g(4) by blast
  have sorted: "sorted_keys (concat (map entries bs))" using g(1,2) by simp
  obtain maybe where m: "may_contain (rd_bloom ?r) k = Inr maybe" "k \<in> fst ` set es \<Longrightarrow> maybe"
    using no_false_negative [of k "map fst es" default_bits_per_key] may_contain_build [of "map fst es" default_bits_per_key k]
    by (auto simp: opened_def sst_bloom_def g(1))
  have hit: "\<exists>co'. sst_get ?r k co = (Inr (map_of es k), co') \<and> cache_ok tbl co'"
    if mb: "maybe" and idx: "(case binary_search ?keys k of Inr i \<Rightarrow> Some i
        | Inl i \<Rightarrow> if i < length bs then Some i else None) = Some i"
      and i: "i < length bs" "\<forall>j < i. ?keys ! j < k" "k \<le> ?keys ! i" for i
  proof -
    have es: "map_of es k = map_of (entries (bs ! i)) k"
      using map_of_block_at [OF sorted ne i(1), of k] i by (simp add: g(1))
    have "sorted_keys (entries (bs ! i))" using sorted_keys_block [OF sorted] i(1) by simp
    then have "(case binary_search (map fst (entries (dblock (bs ! i)))) k of
        Inr j \<Rightarrow> Some (snd (entries (dblock (bs ! i)) ! j)) | Inl _ \<Rightarrow> None) = map_of es k"
      using binary_search_map_of unfolding es entries_dblock by blast
    moreover obtain co' where "load_block ?r i co = (Inr (dblock (bs ! i)), co')" "cache_ok tbl co'"
      using load_block_spec [OF good tbl i(1) co] by blast
    ultimately show ?thesis
      using m(1) mb idx by (auto simp: sst_get_def opened_def index_keys st_bind_def st_simps cong: sum.case_cong)
  qed
  show ?thesis
  proof (cases "maybe")
    case False
    then have "map_of es k = None" using m(2) by (auto simp: map_of_eq_None_iff)
    then show ?thesis using m(1) False co by (simp add: sst_get_def st_simps)
  next
    case True
    show ?thesis
    proof (rule binary_search_cases [OF index_keys_sorted [OF sorted ne], of k], goal_cases)
      case (1 i)
      then have "?keys ! j < k" if "j < i" for j
        using sorted_wrt_nth_less [OF index_keys_sorted [OF sorted ne] that] by simp
      with 1 show ?case by (intro hit [OF True, of i]) auto
    next
      case (2 i)
      show ?case
      proof (cases "i < length bs")
        case True
        with 2 show ?thesis by (intro hit [OF \<open>maybe\<close>, of i]) (auto intro: less_imp_le)
      next
        case False
        then have "\<forall>b \<in> set bs. fst (last (entries b)) < k" using 2 by (auto simp: in_set_conv_nth)
        then have "map_of es k = None" using map_of_blocks_above [OF sorted ne] by (simp add: g(1))
        then show ?thesis
          using m(1) True 2(1) False co by (simp add: sst_get_def opened_def index_keys st_simps)
      qed
    qed
  qed
qed

subsection \<open>Iteration\<close>

text \<open>The entries an iterator state has still to yield.\<close>

definition iter_rest :: "block list \<Rightarrow> sst_iter \<Rightarrow> entry list" where
  "iter_rest bs it =
     (case it_current it of
        None \<Rightarrow> concat (map entries (drop (it_block_idx it) bs))
      | Some b \<Rightarrow> drop (it_entry_idx it) (entries b) @ concat (map entries (drop (Suc (it_block_idx it)) bs)))"

definition iter_ok :: "block list \<Rightarrow> sst_iter \<Rightarrow> bool" where
  "iter_ok bs it \<longleftrightarrow>
     (case it_current it of None \<Rightarrow> True | Some b \<Rightarrow> it_block_idx it < length bs \<and> b = dblock (bs ! it_block_idx it))"

lemma iter_next_spec:
  assumes good: "sst_good es bs" and tbl: "tbl sst_id = Some bs" and co: "cache_ok tbl co" and it: "iter_ok bs it"
  shows "\<exists>it' co'. iter_next (opened bs sst_id) it co =
      (Inr (case iter_rest bs it of [] \<Rightarrow> None | e # _ \<Rightarrow> Some e), it', co') \<and> cache_ok tbl co' \<and>
    iter_ok bs it' \<and> (iter_rest bs it \<noteq> [] \<longrightarrow> iter_rest bs it' = tl (iter_rest bs it))"
  using co it
proof (induction "opened bs sst_id" it co rule: iter_next.induct)
  case (1 it co)
  let ?r = "opened bs sst_id"
  note step = iter_next.simps [of ?r it co]
  show ?case
  proof (cases "it_current it")
    case None
    note none = None
    show ?thesis
    proof (cases "length bs \<le> it_block_idx it")
      case True
      then show ?thesis using "1.prems" none by (simp add: step iter_rest_def)
    next
      case False
      let ?b = "bs ! it_block_idx it" and ?i = "it_block_idx it"
      let ?it = "it\<lparr>it_current := Some (dblock ?b), it_entry_idx := 0\<rparr>"
      obtain co1 where l: "load_block ?r ?i co = (Inr (dblock ?b), co1)" "cache_ok tbl co1"
        using load_block_spec [OF good tbl _ "1.prems"(1)] False by (meson not_le)
      have rest: "iter_rest bs ?it = iter_rest bs it"
        using none False by (simp add: iter_rest_def flip: Cons_nth_drop_Suc)
      have ok: "iter_ok bs ?it" using False by (simp add: iter_ok_def)
      have "\<not> length (rd_index ?r) \<le> ?i" using False by simp
      from "1.hyps"(1) [OF none this l(1) [symmetric] refl l(2) ok]
      show ?thesis using none False l(1) by (simp add: step rest)
    qed
  next
    case (Some b)
    note some = Some
    show ?thesis
    proof (cases "it_entry_idx it < length (entries b)")
      case True
      then have "drop (it_entry_idx it) (entries b) =
          entries b ! it_entry_idx it # drop (Suc (it_entry_idx it)) (entries b)"
        by (rule Cons_nth_drop_Suc [symmetric])
      then show ?thesis using True some "1.prems" by (simp add: step iter_rest_def iter_ok_def)
    next
      case False
      let ?it = "it\<lparr>it_block_idx := it_block_idx it + 1, it_current := None\<rparr>"
      have rest: "iter_rest bs ?it = iter_rest bs it" using some False by (simp add: iter_rest_def)
      have "iter_ok bs ?it" by (simp add: iter_ok_def)
      from "1.hyps"(2) [OF some False "1.prems"(1) this]
      show ?thesis using some False by (simp add: step rest [simplified])
    qed
  qed
qed

lemma iter_collect_spec:
  assumes good: "sst_good es bs" and tbl: "tbl sst_id = Some bs" and co: "cache_ok tbl co" and it: "iter_ok bs it"
  shows "\<exists>co'. iter_collect (opened bs sst_id) it co = (Inr (iter_rest bs it), co') \<and> cache_ok tbl co'"
  using co it
proof (induction "iter_rest bs it" arbitrary: it co)
  case Nil
  obtain it' co' where n: "iter_next (opened bs sst_id) it co = (Inr None, it', co')" "cache_ok tbl co'"
    using iter_next_spec [where co = co and it = it and tbl = tbl and sst_id = sst_id, OF good tbl Nil.prems] Nil.hyps by auto
  then show ?case using Nil.hyps by (simp add: iter_collect.simps [of _ it])
next
  case (Cons e rest)
  obtain it' co' where n: "iter_next (opened bs sst_id) it co = (Inr (Some e), it', co')" "cache_ok tbl co'"
    "iter_ok bs it'" "iter_rest bs it' = rest"
    using iter_next_spec [where co = co and it = it and tbl = tbl and sst_id = sst_id, OF good tbl Cons.prems] Cons.hyps(2) [symmetric] by auto
  obtain co'' where "iter_collect (opened bs sst_id) it' co' = (Inr rest, co'')" "cache_ok tbl co''"
    using Cons.hyps(1) [OF n(4) [symmetric] n(2,3)] n(4) by auto
  then show ?case using n Cons.hyps(2) by (simp add: iter_collect.simps [of _ it])
qed

lemma sst_iter_spec:
  assumes good: "sst_good es bs" and tbl: "tbl sst_id = Some bs" and co: "cache_ok tbl co"
  shows "\<exists>co'. sst_iter (opened bs sst_id) co = (Inr es, co') \<and> cache_ok tbl co'"
proof -
  have "iter_ok bs iter_start" "iter_rest bs iter_start = es"
    using sst_goodD(1) [OF good] by (simp_all add: iter_ok_def iter_rest_def iter_start_def)
  then show ?thesis using iter_collect_spec [OF good tbl co, of iter_start] by (simp add: sst_iter_def)
qed

text \<open>Building a file and opening it.\<close>

lemma sst_write_open:
  assumes "sorted_keys es" "sst_fits es" "sst_write p bsize es d = (Inr (), d')" "no_faults d'"
  shows "\<exists>bs d''. sst_good es bs \<and> files d' p = Some (sst_bytes bs) \<and> only_file p d d' \<and>
    sst_open p sst_id d' = (Inr (opened bs sst_id), d'') \<and> d'' = tick d'"
proof -
  obtain bs where bs: "sst_layout bsize es bs" "files d' p = Some (sst_bytes bs)" "only_file p d d'"
    using sst_write_ok [OF assms(3,2)] by blast
  have good: "sst_good es bs" using bs(1) assms(1,2) by (auto simp: sst_good_def)
  have "read_file p d' = (Inr (sst_bytes bs), tick d')"
    using bs(2) assms(4) by (simp add: read_file_def fault_now_def no_faults_def)
  then have "sst_open p sst_id d' = (Inr (opened bs sst_id), tick d')"
    unfolding sst_open_def st_bind_def st_lift_def by (simp add: sst_parse_written [OF good])
  then show ?thesis using good bs by blast
qed

end
