(* ===== verification/MergeIterator.thy ===== *)
theory MergeIterator
  imports Ordered Errors "HOL-Library.Multiset"
begin

text \<open>
  \<open>src/compaction/merge_iterator.rs\<close>: the k-way merge of sorted sources through a binary heap of their
  heads. A source iterator is the list of entries it has still to yield; the heap is the list of its
  elements, \<open>pop\<close> takes the least one (\<open>Reverse\<close> turns the max-heap around).
\<close>

subsection \<open>Heap entries and their order\<close>

datatype ordering = Less | Equal | Greater

definition cmp :: "'a::linorder \<Rightarrow> 'a \<Rightarrow> ordering" where
  "cmp a b = (if a < b then Less else if a = b then Equal else Greater)"

fun then_with :: "ordering \<Rightarrow> ordering \<Rightarrow> ordering" where
  "then_with Equal o2 = o2"
| "then_with o1 o2 = o1"

datatype heap_entry = HeapEntry (he_key: bytes) (he_value: bytes) (he_source: nat)

definition he_cmp :: "heap_entry \<Rightarrow> heap_entry \<Rightarrow> ordering" where
  "he_cmp a b = then_with (cmp (he_key a) (he_key b)) (cmp (he_source a) (he_source b))"

text \<open>\<open>impl Ord for HeapEntry\<close> ignores the value, which the derived \<open>Eq\<close> compares: a preorder, not an
  order.\<close>

instantiation heap_entry :: preorder
begin

definition less_eq_heap_entry :: "heap_entry \<Rightarrow> heap_entry \<Rightarrow> bool" where
  "less_eq_heap_entry a b \<longleftrightarrow> he_cmp a b \<noteq> Greater"

definition less_heap_entry :: "heap_entry \<Rightarrow> heap_entry \<Rightarrow> bool" where
  "less_heap_entry a b \<longleftrightarrow> he_cmp a b = Less"

instance
  by standard (auto simp: less_eq_heap_entry_def less_heap_entry_def he_cmp_def cmp_def split: if_splits)

end

lemma he_le_iff:
  "a \<le> b \<longleftrightarrow> he_key a < he_key b \<or> he_key a = he_key b \<and> he_source a \<le> he_source b"
  by (auto simp: less_eq_heap_entry_def he_cmp_def cmp_def)

lemma he_total: "a \<le> b \<or> b \<le> (a :: heap_entry)"
  by (auto simp: he_le_iff)

subsection \<open>The iterator\<close>

record merge_iter =
  mi_heap :: "heap_entry list"
  mi_sources :: "entry list list"

text \<open>\<open>BinaryHeap::pop\<close>: a least element and the others.\<close>

fun least :: "heap_entry \<Rightarrow> heap_entry list \<Rightarrow> heap_entry" where
  "least a [] = a"
| "least a (b # hs) = least (if b < a then b else a) hs"

definition heap_pop :: "heap_entry list \<Rightarrow> (heap_entry \<times> heap_entry list) option" where
  "heap_pop hs = (case hs of [] \<Rightarrow> None | a # hs' \<Rightarrow> Some (least a hs', remove1 (least a hs') hs))"

definition merge_new :: "entry list list \<Rightarrow> merge_iter" where
  "merge_new sources =
     fold (\<lambda>idx m. case mi_sources m ! idx of
             [] \<Rightarrow> m
           | (key, val) # rest \<Rightarrow>
               \<lparr>mi_heap = HeapEntry key val idx # mi_heap m, mi_sources = (mi_sources m)[idx := rest]\<rparr>)
       [0..<length sources] \<lparr>mi_heap = [], mi_sources = sources\<rparr>"

definition merge_next :: "merge_iter \<Rightarrow> (entry \<times> merge_iter) option res" where
  "merge_next m =
     (case heap_pop (mi_heap m) of
        None \<Rightarrow> Inr None
      | Some (e, heap) \<Rightarrow>
          if length (mi_sources m) \<le> he_source e then Inl (Panic ''index out of bounds'')
          else Inr (Some ((he_key e, he_value e),
            (case mi_sources m ! he_source e of
               [] \<Rightarrow> m\<lparr>mi_heap := heap\<rparr>
             | (key, val) # rest \<Rightarrow>
                 m\<lparr>mi_heap := HeapEntry key val (he_source e) # heap,
                   mi_sources := (mi_sources m)[he_source e := rest]\<rparr>))))"

lemma least_mem: "least a hs \<in> set (a # hs)"
  by (induction hs arbitrary: a) auto

lemma least_le: "b \<in> set (a # hs) \<Longrightarrow> least a hs \<le> b"
proof (induction hs arbitrary: a b)
  case (Cons c hs)
  let ?m = "if c < a then c else a"
  have "least ?m hs \<le> ?m" by (rule Cons.IH) (rule list.set_intros)
  moreover have "?m \<le> a" "?m \<le> c"
    using he_total [of a c] by (auto simp: less_le_not_le)
  ultimately have "least ?m hs \<le> a" "least ?m hs \<le> c" by (blast intro: order_trans)+
  moreover have "b \<in> set hs \<Longrightarrow> least ?m hs \<le> b" by (rule Cons.IH) simp
  ultimately show ?case using Cons.prems by auto
qed simp

lemma heap_pop_None [simp]: "heap_pop hs = None \<longleftrightarrow> hs = []"
  by (cases hs) (simp_all add: heap_pop_def)

lemma heap_pop_Some:
  assumes "heap_pop hs = Some (e, hs')"
  shows "e \<in> set hs" "hs' = remove1 e hs" "\<forall>b \<in> set hs. e \<le> b"
  using assms least_mem least_le by (cases hs; force simp: heap_pop_def)+

definition merge_left :: "merge_iter \<Rightarrow> nat" where
  "merge_left m = length (mi_heap m) + length (concat (mi_sources m))"

lemma length_concat_update:
  "i < length xss \<Longrightarrow> length (concat (xss[i := ys])) + length (xss ! i) = length (concat xss) + length ys"
proof (induction xss arbitrary: i)
  case (Cons xs xss)
  then show ?case by (cases i) auto
qed simp

lemma merge_next_left: "merge_next m = Inr (Some (e, m')) \<Longrightarrow> merge_left m' < merge_left m"
proof -
  assume step: "merge_next m = Inr (Some (e, m'))"
  then obtain h hs where p: "heap_pop (mi_heap m) = Some (h, hs)" and h: "he_source h < length (mi_sources m)"
    by (auto simp: merge_next_def split: option.splits if_splits)
  have len: "Suc (length hs) = length (mi_heap m)"
    using heap_pop_Some(1,2) [OF p] by (simp add: length_remove1) (metis One_nat_def Suc_pred length_pos_if_in_set)
  show "merge_left m' < merge_left m"
  proof (cases "mi_sources m ! he_source h")
    case Nil
    then show ?thesis using step p len h by (auto simp: merge_next_def merge_left_def)
  next
    case (Cons x rest)
    obtain k v where x: "x = (k, v)" by (cases x)
    then show ?thesis
      using step p len h Cons length_concat_update [OF h, of rest]
      by (auto simp: merge_next_def merge_left_def)
  qed
qed

function merge_collect :: "merge_iter \<Rightarrow> entry list res" where
  "merge_collect m =
     (case merge_next m of
        Inl f \<Rightarrow> Inl f
      | Inr None \<Rightarrow> Inr []
      | Inr (Some (e, m')) \<Rightarrow> and_then (merge_collect m') (\<lambda>es. Inr (e # es)))"
  by pat_completeness auto
termination
  by (relation "measure merge_left") (auto dest: merge_next_left)

declare merge_collect.simps [simp del]

subsection \<open>Correctness\<close>

text \<open>\<open>merging m rs\<close>: the heap holds the heads of the remaining lists \<open>rs\<close>, the sources their tails.\<close>

definition merging :: "merge_iter \<Rightarrow> entry list list \<Rightarrow> bool" where
  "merging m rs \<longleftrightarrow> distinct (map he_source (mi_heap m)) \<and> length (mi_sources m) = length rs \<and>
     (\<forall>h \<in> set (mi_heap m). he_source h < length rs \<and>
        rs ! he_source h = (he_key h, he_value h) # mi_sources m ! he_source h) \<and>
     (\<forall>i < length rs. rs ! i \<noteq> [] \<longrightarrow> i \<in> he_source ` set (mi_heap m))"

lemma mset_concat_update:
  "i < length xss \<Longrightarrow> xss ! i = y # ys \<Longrightarrow> mset (concat xss) = add_mset y (mset (concat (xss[i := ys])))"
proof (induction xss arbitrary: i)
  case (Cons xs xss)
  then show ?case by (cases i) auto
qed simp

text \<open>The popped head comes first in the stable order of what is left.\<close>

lemma filter_concat_update:
  assumes "i < length rs" "rs ! i = e # rest" "\<forall>j < i. \<forall>x \<in> set (rs ! j). fst x \<noteq> fst e"
  shows "filter (\<lambda>x. k = fst x) (concat rs) =
    (if k = fst e then [e] else []) @ filter (\<lambda>x. k = fst x) (concat (rs[i := rest]))"
  using assms
proof (induction rs arbitrary: i)
  case (Cons r rs)
  show ?case
  proof (cases i)
    case 0
    then show ?thesis using Cons.prems by auto
  next
    case (Suc j)
    have "\<forall>l < j. \<forall>x \<in> set (rs ! l). fst x \<noteq> fst e" using Cons.prems(3) Suc by force
    then have IH: "filter (\<lambda>x. k = fst x) (concat rs) =
        (if k = fst e then [e] else []) @ filter (\<lambda>x. k = fst x) (concat (rs[j := rest]))"
      using Cons.IH [of j] Cons.prems Suc by simp
    have "k = fst e \<Longrightarrow> filter (\<lambda>x. k = fst x) r = []"
      using Cons.prems(3) Suc by (fastforce simp: filter_empty_conv)
    then show ?thesis using IH Suc by (cases "k = fst e") simp_all
  qed
qed simp

lemma merge_next_spec:
  assumes m: "merging m rs" and sorted: "\<forall>r \<in> set rs. sorted (map fst r)" and ne: "concat rs \<noteq> []"
  obtains e m' i rest where "merge_next m = Inr (Some (e, m'))" "merging m' (rs[i := rest])" "i < length rs"
    "rs ! i = e # rest" "\<forall>r \<in> set rs. \<forall>x \<in> set r. fst e \<le> fst x" "\<forall>j < i. \<forall>x \<in> set (rs ! j). fst x \<noteq> fst e"
proof -
  obtain i0 where "i0 < length rs" "rs ! i0 \<noteq> []" using ne by (metis concat_eq_Nil_conv in_set_conv_nth)
  then have "mi_heap m \<noteq> []" using m by (auto simp: merging_def)
  then obtain h hs where p: "heap_pop (mi_heap m) = Some (h, hs)"
    by (metis heap_pop_None not_None_eq surj_pair)
  note pop = heap_pop_Some [OF p]
  let ?i = "he_source h" and ?e = "(he_key h, he_value h)"
  let ?rest = "mi_sources m ! ?i"
  have h: "?i < length rs" "rs ! ?i = ?e # ?rest" using m pop(1) by (simp_all add: merging_def)
  have below: "he_key h < fst x \<or> he_key h = fst x \<and> ?i \<le> j" if "j < length rs" "x \<in> set (rs ! j)" for j x
  proof -
    have "rs ! j \<noteq> []" using that by auto
    then have "j \<in> he_source ` set (mi_heap m)" using m that(1) by (simp add: merging_def)
    then obtain g where g: "g \<in> set (mi_heap m)" "he_source g = j" by blast
    then have "rs ! j = (he_key g, he_value g) # mi_sources m ! j" using m by (auto simp: merging_def)
    moreover have "sorted (map fst (rs ! j))" using sorted that(1) by simp
    ultimately have "he_key g \<le> fst x" using that(2) by auto
    moreover have "h \<le> g" using pop(3) g(1) by blast
    ultimately show ?thesis using g(2) by (auto simp: he_le_iff)
  qed
  define m' where "m' = (case ?rest of [] \<Rightarrow> m\<lparr>mi_heap := hs\<rparr>
     | (key, val) # rest \<Rightarrow> m\<lparr>mi_heap := HeapEntry key val ?i # hs, mi_sources := (mi_sources m)[?i := rest]\<rparr>)"
  have dist: "distinct (map he_source (mi_heap m))" and len: "length (mi_sources m) = length rs"
    using m by (simp_all add: merging_def)
  have hs: "set hs = set (mi_heap m) - {h}" "distinct (map he_source hs)" "?i \<notin> he_source ` set hs"
  proof -
    have d: "distinct (mi_heap m)" using dist by (simp add: distinct_map)
    show s: "set hs = set (mi_heap m) - {h}" using d pop(2) by simp
    show "distinct (map he_source hs)"
      using dist s d pop(2) by (auto simp: distinct_map intro: inj_on_subset)
    show "?i \<notin> he_source ` set hs" using dist s pop(1) by (auto simp: distinct_map dest: inj_onD)
  qed
  have "merge_next m = Inr (Some (?e, m'))"
    using p h(1) len by (simp add: merge_next_def m'_def)
  moreover have "merging m' (rs[?i := ?rest])"
  proof (cases ?rest)
    case Nil
    then show ?thesis using m hs h by (auto simp: merging_def m'_def nth_list_update)
  next
    case (Cons x rest)
    obtain k v where "x = (k, v)" by (cases x)
    then show ?thesis
      using m hs h len Cons by (auto simp: merging_def m'_def nth_list_update)
  qed
  moreover have "\<forall>r \<in> set rs. \<forall>x \<in> set r. fst ?e \<le> fst x"
    using below by (fastforce simp: in_set_conv_nth [of _ rs])
  moreover have "\<forall>j < ?i. \<forall>x \<in> set (rs ! j). fst x \<noteq> fst ?e"
  proof (intro allI impI ballI)
    fix j x assume "j < ?i" "x \<in> set (rs ! j)"
    then show "fst x \<noteq> fst ?e" using below [of j x] h(1) by auto
  qed
  ultimately show thesis using that h by blast
qed

text \<open>Draining the iterator: the entries of all sources, stably sorted by key, in source order on ties.\<close>

lemma merge_collect_spec:
  assumes "merging m rs" "\<forall>r \<in> set rs. sorted (map fst r)"
  shows "\<exists>ys. merge_collect m = Inr ys \<and> mset ys = mset (concat rs) \<and> sorted (map fst ys) \<and>
    (\<forall>k. filter (\<lambda>x. k = fst x) ys = filter (\<lambda>x. k = fst x) (concat rs))"
  using assms
proof (induction "length (concat rs)" arbitrary: m rs)
  case 0
  have "mi_heap m = []"
  proof (rule ccontr)
    assume "mi_heap m \<noteq> []"
    then obtain h where "h \<in> set (mi_heap m)" by fastforce
    then have "he_source h < length rs" "rs ! he_source h \<noteq> []" using 0(2) by (auto simp: merging_def)
    then show False using 0(1) by (metis concat_eq_Nil_conv length_0_conv nth_mem)
  qed
  then have "merge_next m = Inr None" by (simp add: merge_next_def heap_pop_def)
  moreover have empty: "concat rs = []" by (rule length_0_conv [THEN iffD1, OF 0(1) [symmetric]])
  ultimately show ?case unfolding merge_collect.simps [of m] empty by simp
next
  case (Suc n)
  have "concat rs \<noteq> []" using Suc.hyps(2) by (metis list.size(3) nat.distinct(1))
  then obtain e m' i rest where st: "merge_next m = Inr (Some (e, m'))" "merging m' (rs[i := rest])" "i < length rs"
    "rs ! i = e # rest" "\<forall>r \<in> set rs. \<forall>x \<in> set r. fst e \<le> fst x" "\<forall>j < i. \<forall>x \<in> set (rs ! j). fst x \<noteq> fst e"
    by (rule merge_next_spec [OF Suc.prems])
  have "n = length (concat (rs[i := rest]))"
    using length_concat_update [OF st(3), of rest] st(4) Suc.hyps(2) by simp
  moreover have "sorted (map fst (e # rest))" using Suc.prems(2) st(3,4) by (metis nth_mem)
  then have "\<forall>r \<in> set (rs[i := rest]). sorted (map fst r)"
    using Suc.prems(2) by (auto dest!: set_update_subset_insert [THEN subsetD])
  ultimately obtain ys where ys: "merge_collect m' = Inr ys" "mset ys = mset (concat (rs[i := rest]))"
    "sorted (map fst ys)" "\<forall>k. filter (\<lambda>x. k = fst x) ys = filter (\<lambda>x. k = fst x) (concat (rs[i := rest]))"
    using Suc.hyps(1) [OF _ st(2)] by blast
  have "\<forall>x \<in> set ys. fst e \<le> fst x"
  proof
    fix x assume "x \<in> set ys"
    then have "x \<in> set (concat (rs[i := rest]))" using ys(2) by (metis set_mset_mset)
    then have "x \<in> set (concat rs)"
      using mset_concat_update [OF st(3,4)] by (metis insertCI set_mset_add_mset_insert set_mset_mset)
    then show "fst e \<le> fst x" using st(5) by auto
  qed
  then show ?case
    using ys st(1) mset_concat_update [OF st(3,4)] filter_concat_update [OF st(3,4,6)]
    by (simp add: merge_collect.simps [of m])
qed

lemma merge_sorts:
  assumes "merging m rs" "\<forall>r \<in> set rs. sorted (map fst r)"
  shows "merge_collect m = Inr (sort_key fst (concat rs))"
proof -
  obtain ys where "merge_collect m = Inr ys" "mset ys = mset (concat rs)" "sorted (map fst ys)"
    "\<forall>k. filter (\<lambda>x. k = fst x) ys = filter (\<lambda>x. k = fst x) (concat rs)"
    using merge_collect_spec [OF assms] by blast
  moreover from this have "sort_key fst (concat rs) = ys" by (intro properties_for_sort_key) auto
  ultimately show ?thesis by simp
qed

subsection \<open>The initial heap\<close>

lemma merge_new_merging: "merging (merge_new sources) sources"
proof -
  let ?step = "\<lambda>idx m. case mi_sources m ! idx of
             [] \<Rightarrow> m
           | (key, val) # rest \<Rightarrow>
               \<lparr>mi_heap = HeapEntry key val idx # mi_heap m, mi_sources = (mi_sources m)[idx := rest]\<rparr>"
  let ?m = "\<lambda>n. fold ?step [0..<n] \<lparr>mi_heap = [], mi_sources = sources\<rparr>"
  have "distinct (map he_source (mi_heap (?m n))) \<and> length (mi_sources (?m n)) = length sources \<and>
      (\<forall>h \<in> set (mi_heap (?m n)). he_source h < n \<and>
        sources ! he_source h = (he_key h, he_value h) # mi_sources (?m n) ! he_source h) \<and>
      (\<forall>i < n. sources ! i \<noteq> [] \<longrightarrow> i \<in> he_source ` set (mi_heap (?m n))) \<and>
      (\<forall>i. n \<le> i \<longrightarrow> mi_sources (?m n) ! i = sources ! i)" if "n \<le> length sources" for n
    using that
  proof (induction n)
    case (Suc n)
    let ?a = "?m n"
    have IH: "distinct (map he_source (mi_heap ?a))" "length (mi_sources ?a) = length sources"
      "\<forall>h \<in> set (mi_heap ?a). he_source h < n \<and>
        sources ! he_source h = (he_key h, he_value h) # mi_sources ?a ! he_source h"
      "\<forall>i < n. sources ! i \<noteq> [] \<longrightarrow> i \<in> he_source ` set (mi_heap ?a)"
      "\<forall>i. n \<le> i \<longrightarrow> mi_sources ?a ! i = sources ! i"
      using Suc by simp_all
    have step: "?m (Suc n) = ?step n ?a" by simp
    show ?case
    proof (cases "sources ! n")
      case Nil
      then have "?m (Suc n) = ?a" unfolding step using IH(5) by simp
      then show ?thesis using IH Nil by (auto simp: less_Suc_eq)
    next
      case (Cons x rest)
      obtain k v where x: "x = (k, v)" by (cases x)
      have eq: "?m (Suc n) = \<lparr>mi_heap = HeapEntry k v n # mi_heap ?a, mi_sources = (mi_sources ?a)[n := rest]\<rparr>"
        unfolding step using IH(5) Cons x by simp
      have "n \<notin> he_source ` set (mi_heap ?a)" using IH(3) by auto
      then show ?thesis
        unfolding eq using IH Cons x Suc.prems by (auto simp: less_Suc_eq nth_list_update)
    qed
  qed simp
  from this [of "length sources"] show ?thesis by (simp add: merging_def merge_new_def)
qed

end
