(* ===== verification/Runs.thy ===== *)
theory Runs
  imports Prelude
begin

text \<open>
  Labelled runs of a step relation, the laws every such relation shares, and forward simulation as an interface: what
  a pair of step relations promises step by step, and what it then has for whole runs.
\<close>

inductive runs :: "('s \<Rightarrow> 'l \<Rightarrow> 's \<Rightarrow> bool) \<Rightarrow> 's \<Rightarrow> 'l list \<Rightarrow> 's \<Rightarrow> bool" for step where
  Start: "runs step s [] s"
| Step: "runs step s ls s' \<Longrightarrow> step s' l s'' \<Longrightarrow> runs step s (ls @ [l]) s''"

lemma runs_Nil [simp]: "runs step s [] s' \<longleftrightarrow> s' = s"
  by (auto intro: runs.Start elim: runs.cases)

lemma runs_snoc: "runs step s (ls @ [l]) s'' \<longleftrightarrow> (\<exists>s'. runs step s ls s' \<and> step s' l s'')"
  by (auto intro: runs.Step elim: runs.cases)

lemma runs_single [simp]: "runs step s [l] s' \<longleftrightarrow> step s l s'"
  using runs_snoc [of step s "[]"] by simp

lemma runs_append: "runs step s (ls @ ks) s'' \<longleftrightarrow> (\<exists>s'. runs step s ls s' \<and> runs step s' ks s'')"
  by (induction ks arbitrary: s'' rule: rev_induct) (auto simp: runs_snoc simp flip: append_assoc)

lemma runs_Cons: "runs step s (l # ls) s'' \<longleftrightarrow> (\<exists>s'. step s l s' \<and> runs step s' ls s'')"
  using runs_append [of step s "[l]" ls] by simp

lemma runs_invariant:
  assumes "runs step s ls s'" "P s" "\<And>s l s'. l \<in> set ls \<Longrightarrow> step s l s' \<Longrightarrow> P s \<Longrightarrow> P s'"
  shows "P s'"
  using assms by (induction rule: runs.induct) auto

text \<open>Steps may use up a resource: \<open>rel n\<close> relates two states when \<open>n\<close> is left, and a step needs \<open>weight l\<close> of it.\<close>

locale simulation =
  fixes step :: "'s \<Rightarrow> 'l \<Rightarrow> 's \<Rightarrow> bool"
    and spec :: "'a \<Rightarrow> 'l \<Rightarrow> 'a \<Rightarrow> bool"
    and rel :: "nat \<Rightarrow> 's \<Rightarrow> 'a \<Rightarrow> bool"
    and weight :: "'l \<Rightarrow> nat"
  assumes step_sim: "rel (weight l + room) s a \<Longrightarrow> step s l s' \<Longrightarrow> \<exists>a'. spec a l a' \<and> rel room s' a'"
begin

lemma runs_sim:
  assumes "runs step s ls s'" "rel (sum_list (map weight ls) + room) s a"
  shows "\<exists>a'. runs spec a ls a' \<and> rel room s' a'"
  using assms
proof (induction arbitrary: room rule: runs.induct)
  case (Start s)
  then show ?case using runs.Start [of spec] by auto
next
  case (Step s ls s' l s'')
  have "rel (sum_list (map weight ls) + (weight l + room)) s a" using Step.prems by (simp add: ac_simps)
  from Step.IH [OF this] obtain b where b: "runs spec a ls b" "rel (weight l + room) s' b" by blast
  from step_sim [OF b(2) Step.hyps(2)] show ?case using runs.Step [OF b(1)] by blast
qed

end

end
