(* ===== verification/Batch.thy ===== *)
theory Batch
  imports Errors
begin

text \<open>
  \<open>src/types.rs\<close> (keys, values and sequence numbers as newtypes) and \<open>src/write_batch.rs\<close> (the list of
  operations of a batch). \<open>SequenceNumber\<close> derives its order from the number; the derived instance is
  the library's \<open>linorder\<close>.
\<close>

subsection \<open>Newtypes\<close>

datatype key_t = Key bytes
datatype value_t = Value bytes
datatype sequence_number = SequenceNumber u64

fun key_bytes :: "key_t \<Rightarrow> bytes" where
  "key_bytes (Key v) = v"

fun value_bytes :: "value_t \<Rightarrow> bytes" where
  "value_bytes (Value v) = v"

fun seq_num :: "sequence_number \<Rightarrow> u64" where
  "seq_num (SequenceNumber n) = n"

definition seq_min :: sequence_number where "seq_min = SequenceNumber 0"
definition seq_max :: sequence_number where "seq_max = SequenceNumber 0xFFFFFFFFFFFFFFFF"

text \<open>\<open>self.0 + 1\<close> on a \<open>u64\<close>, checked.\<close>

definition add_u64 :: "u64 \<Rightarrow> u64 \<Rightarrow> u64 res" where
  "add_u64 a b =
     (if unat a + unat b < 2 ^ 64 then Inr (a + b) else Inl (Panic ''attempt to add with overflow''))"

definition seq_next :: "sequence_number \<Rightarrow> sequence_number res" where
  "seq_next s = and_then (add_u64 (seq_num s) 1) (\<lambda>n. Inr (SequenceNumber n))"

definition seq_display :: "sequence_number \<Rightarrow> string" where
  "seq_display s = ''seq:'' @ dec (unat (seq_num s))"

instantiation key_t :: linorder
begin

definition less_eq_key_t :: "key_t \<Rightarrow> key_t \<Rightarrow> bool" where
  "less_eq_key_t a b \<longleftrightarrow> key_bytes a \<le> key_bytes b"

definition less_key_t :: "key_t \<Rightarrow> key_t \<Rightarrow> bool" where
  "less_key_t a b \<longleftrightarrow> key_bytes a < key_bytes b"

instance
proof
  fix x y z :: key_t
  show "x < y \<longleftrightarrow> x \<le> y \<and> \<not> y \<le> x" "x \<le> x" "x \<le> y \<or> y \<le> x"
    by (auto simp: less_eq_key_t_def less_key_t_def)
  show "x \<le> y \<Longrightarrow> y \<le> z \<Longrightarrow> x \<le> z" by (auto simp: less_eq_key_t_def)
  show "x \<le> y \<Longrightarrow> y \<le> x \<Longrightarrow> x = y" by (cases x; cases y) (auto simp: less_eq_key_t_def)
qed

end

instantiation sequence_number :: linorder
begin

definition less_eq_sequence_number :: "sequence_number \<Rightarrow> sequence_number \<Rightarrow> bool" where
  "less_eq_sequence_number a b \<longleftrightarrow> seq_num a \<le> seq_num b"

definition less_sequence_number :: "sequence_number \<Rightarrow> sequence_number \<Rightarrow> bool" where
  "less_sequence_number a b \<longleftrightarrow> seq_num a < seq_num b"

instance
proof
  fix x y z :: sequence_number
  show "x < y \<longleftrightarrow> x \<le> y \<and> \<not> y \<le> x" "x \<le> x" "x \<le> y \<or> y \<le> x"
    by (auto simp: less_eq_sequence_number_def less_sequence_number_def)
  show "x \<le> y \<Longrightarrow> y \<le> z \<Longrightarrow> x \<le> z" by (auto simp: less_eq_sequence_number_def)
  show "x \<le> y \<Longrightarrow> y \<le> x \<Longrightarrow> x = y"
    by (cases x; cases y) (auto simp: less_eq_sequence_number_def)
qed

end

lemma add_u64_Inr: "add_u64 a b = Inr c \<longleftrightarrow> unat a + unat b < 2 ^ 64 \<and> c = a + b"
  by (auto simp: add_u64_def)

lemma unat_add_u64: "unat a + unat b < 2 ^ 64 \<Longrightarrow> unat (a + b :: u64) = unat a + unat b"
  by (simp add: unat_word_ariths)

text \<open>The next number is greater, and it exists for all but the greatest.\<close>

lemma seq_next_greater: "seq_next s = Inr s' \<Longrightarrow> s < s' \<and> (\<forall>t. s < t \<longrightarrow> s' \<le> t)"
  by (cases s; cases s')
    (auto simp: seq_next_def less_sequence_number_def less_eq_sequence_number_def add_u64_Inr and_then_Inr_iff
      word_less_nat_alt word_le_nat_alt unat_add_u64)

lemma seq_next_total: "(\<exists>s'. seq_next s = Inr s') \<longleftrightarrow> s < seq_max"
proof -
  obtain n where s: "s = SequenceNumber n" by (cases s)
  have "unat n < 2 ^ 64" using unsigned_less [of n, where ?'a = nat] by simp
  moreover have "unat (0xFFFFFFFFFFFFFFFF :: u64) = 2 ^ 64 - 1" unfolding unsigned_numeral by (simp add: take_bit_eq_mod)
  ultimately show ?thesis
    by (auto simp: s seq_next_def add_u64_def seq_max_def less_sequence_number_def word_less_nat_alt)
qed

subsection \<open>Batches\<close>

datatype batch_op = BPut bytes bytes | BDelete bytes

record write_batch =
  wb_ops :: "batch_op list"

definition batch_new :: write_batch where
  "batch_new = \<lparr>wb_ops = []\<rparr>"

definition batch_put :: "bytes \<Rightarrow> bytes \<Rightarrow> write_batch \<Rightarrow> write_batch" where
  "batch_put key val b = b\<lparr>wb_ops := wb_ops b @ [BPut key val]\<rparr>"

definition batch_delete :: "bytes \<Rightarrow> write_batch \<Rightarrow> write_batch" where
  "batch_delete key b = b\<lparr>wb_ops := wb_ops b @ [BDelete key]\<rparr>"

definition batch_is_empty :: "write_batch \<Rightarrow> bool" where
  "batch_is_empty b \<longleftrightarrow> wb_ops b = []"

definition batch_len :: "write_batch \<Rightarrow> nat" where
  "batch_len b = length (wb_ops b)"

definition batch_ops :: "write_batch \<Rightarrow> batch_op list" where
  "batch_ops b = wb_ops b"

end
