(* ===== verification/Engine.thy ===== *)
theory Engine
  imports WalLog Manifest MemTable ValueCodec SSTableReader Batch
begin

text \<open>
  \<open>src/engine.rs\<close>: the engine that ties the memtable, the log, the SSTables and the manifest together.
  Operations pass the pair of the engine and its world: the disk with its fault plan, the thread-local
  random state, the clock and the order in which the system lists a directory. \<open>w_ticks\<close> counts the points at which
  the code examines a value or computes an expiry, and \<open>w_clock n\<close> is what \<open>SystemTime::now()\<close> gives at point
  \<open>n\<close>; at a point where the value has no expiry the code does not read the clock, and the time it would have
  read does not matter. A scan that examines its values twice has two points, so the two readings may differ.
  \<open>crc\<close> is the checksum of the \<open>crc32fast\<close> crate.
\<close>

subsection \<open>World\<close>

record world =
  w_disk :: disk
  w_rng :: u64
  w_clock :: "nat \<Rightarrow> u64"
  w_ticks :: nat
  w_readdir :: "disk \<Rightarrow> path \<Rightarrow> string list"

type_synonym 'a wprog = "(world, 'a) prog"

definition on_disk :: "(disk, 'a) prog \<Rightarrow> 'a wprog" where
  "on_disk m w = (case m (w_disk w) of (r, d) \<Rightarrow> (r, w\<lparr>w_disk := d\<rparr>))"

definition now_secs :: "u64 wprog" where
  "now_secs w = (Inr (w_clock w (w_ticks w)), w\<lparr>w_ticks := Suc (w_ticks w)\<rparr>)"

text \<open>\<open>unwrap_ttl\<close> asks the clock only for a value with the marker of an expiry time; \<open>value_now\<close> is the same for a
  value that still has its sequence number.\<close>

definition ttl_now :: "bytes \<Rightarrow> u64 wprog" where
  "ttl_now v = (if 9 \<le> length v \<and> v ! 0 = 1 then now_secs else st_return 0)"

definition value_now :: "bytes \<Rightarrow> u64 wprog" where
  "value_now v = (case decode_with_seq v of Some (inner, _) \<Rightarrow> ttl_now inner | None \<Rightarrow> st_return 0)"

text \<open>\<open>fs::create_dir_all\<close> (directories themselves are not modelled) and \<open>fs::read_dir\<close>\<close>

definition make_dirs :: "path \<Rightarrow> (disk, unit) prog" where
  "make_dirs p d = (case fault_now d of Some _ \<Rightarrow> (io_err, tick d) | None \<Rightarrow> (Inr (), tick d))"

definition read_dir :: "path \<Rightarrow> string list wprog" where
  "read_dir p w =
     (case fault_now (w_disk w) of
        Some _ \<Rightarrow> (io_err, w\<lparr>w_disk := tick (w_disk w)\<rparr>)
      | None \<Rightarrow> (Inr (w_readdir w (w_disk w) p), w\<lparr>w_disk := tick (w_disk w)\<rparr>))"

subsection \<open>File names\<close>

definition path_join :: "path \<Rightarrow> string \<Rightarrow> path" where
  "path_join dir name = dir @ ''/'' @ name"

definition ends_with :: "string \<Rightarrow> string \<Rightarrow> bool" where
  "ends_with suf s \<longleftrightarrow> length suf \<le> length s \<and> drop (length s - length suf) s = suf"

text \<open>\<open>format!("{:06}.sst", id)\<close>\<close>

definition pad6 :: "string \<Rightarrow> string" where
  "pad6 s = replicate (6 - length s) CHR ''0'' @ s"

definition sst_path :: "path \<Rightarrow> u64 \<Rightarrow> path" where
  "sst_path dir i = path_join dir (pad6 (dec (unat i)) @ ''.sst'')"

definition manifest_path :: "path \<Rightarrow> path" where
  "manifest_path dir = path_join dir ''MANIFEST''"

definition default_wal_path :: "path \<Rightarrow> path" where
  "default_wal_path dir = path_join dir ''000001.wal''"

definition wal_path_for_dir :: "path \<Rightarrow> path wprog" where
  "wal_path_for_dir dir =
     st_bind (read_dir dir) (\<lambda>names.
       st_return (case filter (ends_with ''.wal'') names of
                    name # _ \<Rightarrow> path_join dir name
                  | [] \<Rightarrow> default_wal_path dir))"

subsection \<open>Options, metrics, the engine\<close>

record options =
  o_memtable_size :: nat
  o_block_size :: nat
  o_l0_threshold :: nat
  o_sync_wal :: bool
  o_max_levels :: nat
  o_bloom_bits :: nat
  o_cache_size :: nat

definition default_options :: options where
  "default_options = \<lparr>o_memtable_size = 4 * 1024 * 1024, o_block_size = 4096, o_l0_threshold = 4,
     o_sync_wal = True, o_max_levels = 7, o_bloom_bits = 10, o_cache_size = 8 * 1024 * 1024\<rparr>"

text \<open>Atomic counters, which wrap; \<open>snapshot\<close> copies their values.\<close>

record metrics =
  m_writes :: u64
  m_reads :: u64
  m_deletes :: u64
  m_compactions :: u64
  m_flushes :: u64

definition metrics_new :: metrics where
  "metrics_new = \<lparr>m_writes = 0, m_reads = 0, m_deletes = 0, m_compactions = 0, m_flushes = 0\<rparr>"

record engine =
  e_path :: path
  e_wal :: bufw
  e_mem :: memtable
  e_manifest :: manifest
  e_readers :: "(sst_meta \<times> reader) list"
  e_next_sst :: u64
  e_next_seq :: u64
  e_opts :: options
  e_metrics :: metrics
  e_cache :: "block_cache option"

type_synonym 'a eprog = "(engine \<times> world, 'a) prog"

definition metrics_snapshot :: "engine \<Rightarrow> metrics" where
  "metrics_snapshot e = e_metrics e"

text \<open>Running the programs of the components inside the engine.\<close>

definition on_world :: "'a wprog \<Rightarrow> 'a eprog" where
  "on_world m = (\<lambda>(e, w). case m w of (r, w') \<Rightarrow> (r, (e, w')))"

definition in_disk :: "(disk, 'a) prog \<Rightarrow> 'a eprog" where
  "in_disk m = on_world (on_disk m)"

definition on_wal :: "(bufw \<times> disk, 'a) prog \<Rightarrow> 'a eprog" where
  "on_wal m = (\<lambda>(e, w). case m (e_wal e, w_disk w) of
     (r, (b, d)) \<Rightarrow> (r, (e\<lparr>e_wal := b\<rparr>, w\<lparr>w_disk := d\<rparr>)))"

definition on_cache :: "(block_cache option, 'a) prog \<Rightarrow> 'a eprog" where
  "on_cache m = (\<lambda>(e, w). case m (e_cache e) of (r, c) \<Rightarrow> (r, (e\<lparr>e_cache := c\<rparr>, w)))"

definition mem_put :: "bytes \<Rightarrow> bytes \<Rightarrow> unit eprog" where
  "mem_put key val = (\<lambda>(e, w). case mt_put key val (e_mem e, w_rng w) of
     Inl f \<Rightarrow> (Inl f, (e, w))
   | Inr (m, rng) \<Rightarrow> (Inr (), (e\<lparr>e_mem := m\<rparr>, w\<lparr>w_rng := rng\<rparr>)))"

definition e_gets :: "(engine \<Rightarrow> 'a) \<Rightarrow> 'a eprog" where
  "e_gets f = st_gets (\<lambda>(e, w). f e)"

definition e_modify :: "(engine \<Rightarrow> engine) \<Rightarrow> unit eprog" where
  "e_modify f = st_modify (\<lambda>(e, w). (f e, w))"

definition count_metric :: "(metrics \<Rightarrow> metrics) \<Rightarrow> unit eprog" where
  "count_metric f = e_modify (\<lambda>e. e\<lparr>e_metrics := f (e_metrics e)\<rparr>)"

subsection \<open>Flushing and compaction\<close>

text \<open>The new writer replaces the old one, whose buffer is flushed on drop.\<close>

definition reset_wal :: "unit eprog" where
  "reset_wal =
     st_bind (e_gets (\<lambda>e. default_wal_path (e_path e))) (\<lambda>p.
     st_bind (in_disk (create_file p)) (\<lambda>_.
     st_bind (in_disk (wal_open p)) (\<lambda>new.
       st_modify (\<lambda>(e, w). (e\<lparr>e_wal := new\<rparr>, w\<lparr>w_disk := bw_drop (e_wal e) (w_disk w)\<rparr>)))))"

definition save_manifest :: "unit eprog" where
  "save_manifest = (\<lambda>(e, w). in_disk (manifest_save (manifest_path (e_path e)) (e_manifest e)) (e, w))"

definition next_sst_id :: "u64 eprog" where
  "next_sst_id =
     st_bind (e_gets e_next_sst) (\<lambda>i.
     st_bind (st_lift (add_u64 i 1)) (\<lambda>j.
     st_bind (e_modify (\<lambda>e. e\<lparr>e_next_sst := j\<rparr>)) (\<lambda>_. st_return i)))"

text \<open>Writing a table of sorted entries and opening it, as flush and compaction do.\<close>

definition write_table :: "u64 \<Rightarrow> entry list \<Rightarrow> reader eprog" where
  "write_table i es =
     st_bind (e_gets (\<lambda>e. (sst_path (e_path e) i, o_block_size (e_opts e)))) (\<lambda>(p, bsize).
     st_bind (in_disk (sst_write p bsize es)) (\<lambda>_. in_disk (sst_open p i)))"

text \<open>The entries of the tables \<open>ids\<close>, later ones over earlier ones, in a \<open>BTreeMap\<close>.\<close>

fun merge_tables :: "u64 list \<Rightarrow> entry list \<Rightarrow> entry list eprog" where
  "merge_tables [] acc = st_return acc"
| "merge_tables (i # ids) acc =
     st_bind (e_gets (\<lambda>e. find (\<lambda>(m, r). meta_id m = i) (e_readers e))) (\<lambda>hit.
       case hit of
         None \<Rightarrow> merge_tables ids acc
       | Some (m, r) \<Rightarrow> st_bind (on_cache (SSTableReader.sst_iter r)) (\<lambda>es. merge_tables ids (bt_extend es acc)))"

text \<open>\<open>retain\<close> asks the clock as \<open>unwrap_ttl\<close> does, for every marked value again.\<close>

fun retain_live :: "entry list \<Rightarrow> entry list wprog" where
  "retain_live [] = st_return []"
| "retain_live (e # es) =
     st_bind (value_now (snd e)) (\<lambda>now. st_bind (retain_live es) (\<lambda>rest.
       st_return (if compact_retain now (snd e) then e # rest else rest)))"

definition drop_table :: "u64 \<Rightarrow> unit eprog" where
  "drop_table i =
     st_bind (e_modify (\<lambda>e. e\<lparr>e_manifest := snd (remove_sst i (e_manifest e)),
                            e_readers := filter (\<lambda>(m, r). meta_id m \<noteq> i) (e_readers e)\<rparr>)) (\<lambda>_.
     st_bind (e_gets (\<lambda>e. sst_path (e_path e) i)) (\<lambda>p. st_ignore (in_disk (remove_file p))))"

text \<open>\<open>iter().min().unwrap()\<close> and \<open>max\<close>\<close>

definition min_res :: "bytes list \<Rightarrow> bytes res" where
  "min_res ks = (if ks = [] then Inl (Panic ''called Option::unwrap() on a None value'') else Inr (Min (set ks)))"

definition max_res :: "bytes list \<Rightarrow> bytes res" where
  "max_res ks = (if ks = [] then Inl (Panic ''called Option::unwrap() on a None value'') else Inr (Max (set ks)))"

definition compact_output :: "nat \<Rightarrow> entry list \<Rightarrow> unit eprog" where
  "compact_output dst es =
     (if es = [] then st_return ()
      else
        st_bind next_sst_id (\<lambda>i.
        st_bind (write_table i es) (\<lambda>r.
        let meta = sst_meta_new i dst (fst (hd es)) (fst (last es)) in
          e_modify (\<lambda>e. e\<lparr>e_manifest := add_sst dst meta (e_manifest e), e_readers := e_readers e @ [(meta, r)]\<rparr>))))"

definition overlapping :: "bytes \<Rightarrow> bytes \<Rightarrow> sst_meta \<Rightarrow> bool" where
  "overlapping lo hi m \<longleftrightarrow> lo \<le> max_key m \<and> min_key m \<le> hi"

definition compact_level :: "nat \<Rightarrow> unit eprog" where
  "compact_level src =
     st_bind (e_gets (\<lambda>e. ssts_at_level (e_manifest e) src)) (\<lambda>src_metas.
     st_bind (st_lift (min_res (map min_key src_metas))) (\<lambda>lo.
     st_bind (st_lift (max_res (map max_key src_metas))) (\<lambda>hi.
     st_bind (e_gets (\<lambda>e. filter (overlapping lo hi) (ssts_at_level (e_manifest e) (src + 1)))) (\<lambda>dst_metas.
     let src_ids = map meta_id src_metas; dst_ids = map meta_id dst_metas in
     st_bind (merge_tables (dst_ids @ src_ids) []) (\<lambda>all.
     st_bind (on_world (retain_live all)) (\<lambda>live.
     st_bind (compact_output (src + 1) live) (\<lambda>_.
     st_bind (st_for (src_ids @ dst_ids) drop_table) (\<lambda>_.
     st_bind save_manifest (\<lambda>_.
       count_metric (\<lambda>m. m\<lparr>m_compactions := m_compactions m + 1\<rparr>))))))))))"

text \<open>\<open>l0_compaction_threshold * 10_usize.pow(level)\<close>, checked.\<close>

definition level_threshold :: "nat \<Rightarrow> nat \<Rightarrow> nat res" where
  "level_threshold l0 level =
     (if level = 0 then Inr l0
      else if 2 ^ 64 \<le> (10 :: nat) ^ level \<or> 2 ^ 64 \<le> l0 * 10 ^ level
      then Inl (Panic ''attempt to multiply with overflow'')
      else Inr (l0 * 10 ^ level))"

definition maybe_compact :: "unit eprog" where
  "maybe_compact =
     st_bind (e_gets e_opts) (\<lambda>opts.
       st_for [0..<o_max_levels opts - 1] (\<lambda>level.
         st_bind (st_lift (level_threshold (o_l0_threshold opts) level)) (\<lambda>threshold.
         st_bind (e_gets (\<lambda>e. length (ssts_at_level (e_manifest e) level))) (\<lambda>n.
           if n < threshold then st_return () else compact_level level))))"

definition maybe_flush :: "unit eprog" where
  "maybe_flush =
     st_bind (e_gets (\<lambda>e. mt_take_immutable (e_mem e))) (\<lambda>(imm, mem').
       case imm of
         None \<Rightarrow> st_return ()
       | Some l \<Rightarrow>
           st_bind (e_modify (\<lambda>e. e\<lparr>e_mem := mem'\<rparr>)) (\<lambda>_.
           st_bind next_sst_id (\<lambda>i.
           st_bind (st_lift (sl_iter l)) (\<lambda>es.
             if es = [] then st_return ()
             else
               st_bind (write_table i es) (\<lambda>r.
               let meta = sst_meta_new i 0 (fst (hd es)) (fst (last es)) in
               st_bind (e_modify (\<lambda>e. e\<lparr>e_manifest := add_sst 0 meta (e_manifest e),
                                      e_readers := e_readers e @ [(meta, r)]\<rparr>)) (\<lambda>_.
               st_bind save_manifest (\<lambda>_.
               st_bind reset_wal (\<lambda>_.
               st_bind (count_metric (\<lambda>m. m\<lparr>m_flushes := m_flushes m + 1\<rparr>)) (\<lambda>_.
                 maybe_compact)))))))))"

subsection \<open>Writes\<close>

definition take_seq :: "u64 eprog" where
  "take_seq =
     st_bind (e_gets e_next_seq) (\<lambda>seq.
     st_bind (st_lift (add_u64 seq 1)) (\<lambda>next.
     st_bind (e_modify (\<lambda>e. e\<lparr>e_next_seq := next\<rparr>)) (\<lambda>_. st_return seq)))"

text \<open>The common tail of \<open>put\<close>, \<open>delete\<close> and \<open>put_with_ttl\<close>: log, sync when asked to, apply, count, flush.\<close>

definition log_and_apply :: "(bufw \<times> disk, unit) prog \<Rightarrow> bytes \<Rightarrow> bytes \<Rightarrow> (metrics \<Rightarrow> metrics) \<Rightarrow> unit eprog" where
  "log_and_apply log_it key encoded metric =
     st_bind (on_wal log_it) (\<lambda>_.
     st_bind (e_gets (\<lambda>e. o_sync_wal (e_opts e))) (\<lambda>sync.
     st_bind (if sync then on_wal wal_flush else st_return ()) (\<lambda>_.
     st_bind (mem_put key encoded) (\<lambda>_.
     st_bind (count_metric metric) (\<lambda>_. maybe_flush)))))"

definition eng_put :: "checksum \<Rightarrow> bytes \<Rightarrow> bytes \<Rightarrow> unit eprog" where
  "eng_put crc key val =
     st_bind take_seq (\<lambda>seq.
     let encoded = encode_with_seq val seq in
       log_and_apply (wal_append crc key encoded) key encoded (\<lambda>m. m\<lparr>m_writes := m_writes m + 1\<rparr>))"

definition eng_delete :: "checksum \<Rightarrow> bytes \<Rightarrow> unit eprog" where
  "eng_delete crc key =
     st_bind take_seq (\<lambda>seq.
     let encoded = encode_with_seq tombstone seq in
       log_and_apply (wal_append_record crc \<lparr>rec_op = Delete, rec_key = key, rec_value = encoded\<rparr>) key encoded
         (\<lambda>m. m\<lparr>m_deletes := m_deletes m + 1\<rparr>))"

definition eng_put_with_ttl :: "checksum \<Rightarrow> bytes \<Rightarrow> bytes \<Rightarrow> u64 \<Rightarrow> unit eprog" where
  "eng_put_with_ttl crc key val ttl =
     st_bind (on_world now_secs) (\<lambda>now.
     st_bind (st_lift (add_u64 now ttl)) (\<lambda>expiry.
     st_bind take_seq (\<lambda>seq.
     let encoded = encode_with_seq (ttl_encode expiry val) seq in
       log_and_apply (wal_append crc key encoded) key encoded (\<lambda>m. m\<lparr>m_writes := m_writes m + 1\<rparr>))))"

fun batch_record :: "batch_op \<Rightarrow> wal_record" where
  "batch_record (BPut key val) = \<lparr>rec_op = Put, rec_key = key, rec_value = val\<rparr>"
| "batch_record (BDelete key) = \<lparr>rec_op = Delete, rec_key = key, rec_value = []\<rparr>"

fun batch_apply :: "batch_op \<Rightarrow> unit eprog" where
  "batch_apply (BPut key val) = mem_put key val"
| "batch_apply (BDelete key) = mem_put key tombstone"

definition eng_write_batch :: "checksum \<Rightarrow> write_batch \<Rightarrow> unit eprog" where
  "eng_write_batch crc b =
     (if batch_is_empty b then st_return ()
      else
        st_bind (st_for (wb_ops b) (\<lambda>op. on_wal (wal_append_record crc (batch_record op)))) (\<lambda>_.
        st_bind (on_wal wal_flush) (\<lambda>_.
        st_bind (st_for (wb_ops b) batch_apply) (\<lambda>_. maybe_flush))))"

subsection \<open>Reads\<close>

text \<open>The first table, newest first, that holds the key.\<close>

fun search_tables :: "(sst_meta \<times> reader) list \<Rightarrow> bytes \<Rightarrow> bytes option eprog" where
  "search_tables [] key = st_return None"
| "search_tables ((m, r) # rs) key =
     st_bind (on_cache (sst_get r key)) (\<lambda>hit.
       case hit of Some v \<Rightarrow> st_return (Some v) | None \<Rightarrow> search_tables rs key)"

definition unpack_now :: "(bytes \<Rightarrow> u64 wprog) \<Rightarrow> (u64 \<Rightarrow> bytes \<Rightarrow> 'a) \<Rightarrow> bytes \<Rightarrow> 'a eprog" where
  "unpack_now clock f v = st_bind (on_world (clock v)) (\<lambda>now. st_return (f now v))"

definition eng_get :: "bytes \<Rightarrow> bytes option eprog" where
  "eng_get key =
     st_bind (count_metric (\<lambda>m. m\<lparr>m_reads := m_reads m + 1\<rparr>)) (\<lambda>_.
     st_bind (e_gets e_mem) (\<lambda>mem.
     st_bind (st_lift (mt_get mem key)) (\<lambda>hit.
       case hit of
         Some v \<Rightarrow> unpack_now value_now unpack_value v
       | None \<Rightarrow>
           st_bind (e_gets (\<lambda>e. rev (e_readers e))) (\<lambda>rs.
           st_bind (search_tables rs key) (\<lambda>found.
             case found of None \<Rightarrow> st_return None | Some v \<Rightarrow> unpack_now value_now unpack_value v)))))"

record snapshot =
  snap_seq :: u64

definition eng_snapshot :: "engine \<Rightarrow> snapshot" where
  "eng_snapshot e = \<lparr>snap_seq = e_next_seq e\<rparr>"

definition seen_by :: "snapshot \<Rightarrow> bytes option \<Rightarrow> bytes option" where
  "seen_by snap hit =
     (case hit of
        None \<Rightarrow> None
      | Some v \<Rightarrow> (case decode_with_seq v of
                     None \<Rightarrow> None
                   | Some (val, seq) \<Rightarrow> if seq < snap_seq snap then Some val else None))"

fun search_tables_at :: "(sst_meta \<times> reader) list \<Rightarrow> bytes \<Rightarrow> snapshot \<Rightarrow> bytes option eprog" where
  "search_tables_at [] key snap = st_return None"
| "search_tables_at ((m, r) # rs) key snap =
     st_bind (on_cache (sst_get r key)) (\<lambda>hit.
       case seen_by snap hit of Some val \<Rightarrow> st_return (Some val) | None \<Rightarrow> search_tables_at rs key snap)"

definition eng_get_at :: "bytes \<Rightarrow> snapshot \<Rightarrow> bytes option eprog" where
  "eng_get_at key snap =
     st_bind (e_gets e_mem) (\<lambda>mem.
     st_bind (st_lift (mt_get mem key)) (\<lambda>hit.
       case seen_by snap hit of
         Some val \<Rightarrow> unpack_now ttl_now unpack_inner val
       | None \<Rightarrow>
           st_bind (e_gets (\<lambda>e. rev (e_readers e))) (\<lambda>rs.
           st_bind (search_tables_at rs key snap) (\<lambda>found.
             case found of None \<Rightarrow> st_return None | Some val \<Rightarrow> unpack_now ttl_now unpack_inner val))))"

text \<open>\<open>scan\<close>: all tables oldest first, the memtable on top, then the filter and the map over the result. The
  iterator is lazy: an entry passes the filter and then the map before the next one, and both ask the clock.\<close>

fun scan_tables :: "(sst_meta \<times> reader) list \<Rightarrow> bytes \<Rightarrow> bytes \<Rightarrow> entry list \<Rightarrow> entry list eprog" where
  "scan_tables [] start end acc = st_return acc"
| "scan_tables ((m, r) # rs) start end acc =
     st_bind (on_cache (SSTableReader.sst_iter r)) (\<lambda>es.
       scan_tables rs start end (bt_extend (filter (\<lambda>e. start \<le> fst e \<and> fst e < end) es) acc))"

fun visible_entries :: "entry list \<Rightarrow> entry list wprog" where
  "visible_entries [] = st_return []"
| "visible_entries (e # es) =
     st_bind (value_now (snd e)) (\<lambda>now.
       if scan_visible now (snd e)
       then st_bind (value_now (snd e)) (\<lambda>again.
            st_bind (visible_entries es) (\<lambda>rest. st_return ((fst e, scan_display again (snd e)) # rest)))
       else visible_entries es)"

definition eng_scan :: "bytes \<Rightarrow> bytes \<Rightarrow> entry list eprog" where
  "eng_scan start end =
     st_bind (e_gets e_readers) (\<lambda>rs.
     st_bind (scan_tables rs start end []) (\<lambda>older.
     st_bind (e_gets e_mem) (\<lambda>mem.
     st_bind (st_lift (mt_scan mem start end)) (\<lambda>es.
       on_world (visible_entries (bt_extend es older))))))"

definition eng_prefix_scan :: "bytes \<Rightarrow> entry list eprog" where
  "eng_prefix_scan pre = eng_scan pre (next_key pre)"

subsection \<open>Opening, closing, repair\<close>

text \<open>The records of a log into a fresh memtable, up to the first error.\<close>

fun replay :: "wal_record res list \<Rightarrow> memtable \<times> u64 \<Rightarrow> (memtable \<times> u64) res" where
  "replay [] s = Inr s"
| "replay (entry # es) s =
     and_then entry (\<lambda>r.
     and_then (mt_put_no_freeze (rec_key r) (case rec_op r of Put \<Rightarrow> rec_value r | Delete \<Rightarrow> tombstone) s)
       (replay es))"

definition replay_wal :: "checksum \<Rightarrow> path \<Rightarrow> nat \<Rightarrow> memtable wprog" where
  "replay_wal crc p ms =
     st_bind (st_lift (mt_with_max_size ms)) (\<lambda>m.
     st_bind (st_gets (\<lambda>w. exists_file p (w_disk w))) (\<lambda>present.
       if \<not> present then st_return m
       else
         st_bind (on_disk (read_file p)) (\<lambda>data.
         st_bind (st_gets w_rng) (\<lambda>rng.
         st_bind (st_lift (replay (wal_read crc data) (m, rng))) (\<lambda>(m', rng').
         st_bind (st_modify (\<lambda>w. w\<lparr>w_rng := rng'\<rparr>)) (\<lambda>_. st_return m'))))))"

fun open_tables :: "path \<Rightarrow> sst_meta list \<Rightarrow> u64 \<Rightarrow> (sst_meta \<times> reader) list \<Rightarrow> (u64 \<times> (sst_meta \<times> reader) list) wprog" where
  "open_tables dir [] i rs = st_return (i, rs)"
| "open_tables dir (m # ms) i rs =
     st_bind (st_gets (\<lambda>w. exists_file (sst_path dir (meta_id m)) (w_disk w))) (\<lambda>present.
       if \<not> present then open_tables dir ms i rs
       else
         st_bind (on_disk (sst_open (sst_path dir (meta_id m)) (meta_id m))) (\<lambda>r.
         st_bind (st_lift (if i \<le> meta_id m then add_u64 (meta_id m) 1 else Inr i)) (\<lambda>i'.
           open_tables dir ms i' (rs @ [(m, r)]))))"

definition eng_open :: "checksum \<Rightarrow> path \<Rightarrow> options \<Rightarrow> engine wprog" where
  "eng_open crc dir opts =
     st_bind (on_disk (make_dirs dir)) (\<lambda>_.
     st_bind (on_disk (manifest_load (manifest_path dir))) (\<lambda>mf.
     let cache = (if 0 < o_cache_size opts then Some (cache_new (o_cache_size opts)) else None) in
     st_bind (open_tables dir (concat (levels mf)) 1 []) (\<lambda>(i, rs).
     st_bind (wal_path_for_dir dir) (\<lambda>p.
     st_bind (replay_wal crc p (o_memtable_size opts)) (\<lambda>mem.
     st_bind (on_disk (wal_open p)) (\<lambda>wal.
       st_return \<lparr>e_path = dir, e_wal = wal, e_mem = mem, e_manifest = mf, e_readers = rs, e_next_sst = i,
                  e_next_seq = 1, e_opts = opts, e_metrics = metrics_new, e_cache = cache\<rparr>))))))"

text \<open>\<open>Engine::open\<close>\<close>

definition eng_open_default :: "checksum \<Rightarrow> path \<Rightarrow> engine wprog" where
  "eng_open_default crc dir = eng_open crc dir default_options"

text \<open>\<open>close\<close> consumes the engine; its writer is dropped on every exit.\<close>

definition freeze_mem :: "unit eprog" where
  "freeze_mem = (\<lambda>(e, w). case mt_freeze (e_mem e) of
     Inl f \<Rightarrow> (Inl f, (e, w)) | Inr (b, m) \<Rightarrow> (Inr (), (e\<lparr>e_mem := m\<rparr>, w)))"

definition eng_drop :: "engine \<Rightarrow> world \<Rightarrow> world" where
  "eng_drop e w = w\<lparr>w_disk := bw_drop (e_wal e) (w_disk w)\<rparr>"

definition eng_close :: "engine \<Rightarrow> unit wprog" where
  "eng_close e w =
     (case st_bind maybe_flush (\<lambda>_. st_bind freeze_mem (\<lambda>_. st_bind maybe_flush (\<lambda>_.
             st_bind (on_wal wal_flush) (\<lambda>_. save_manifest)))) (e, w) of
        (r, (e', w')) \<Rightarrow> (r, eng_drop e' w'))"

record repair_report =
  corrupted_files :: nat
  recovered_ssts :: nat

text \<open>\<open>trim_end_matches(".sst")\<close> and \<open>parse::<u64>()\<close>\<close>

function trim_sst :: "string \<Rightarrow> string" where
  "trim_sst s = (if ends_with ''.sst'' s then trim_sst (take (length s - 4) s) else s)"
  by pat_completeness auto
termination
  by (relation "measure length") (auto simp: ends_with_def)

declare trim_sst.simps [simp del]

definition digit_val :: "char \<Rightarrow> nat option" where
  "digit_val c = (let n = of_char c :: nat in if 48 \<le> n \<and> n \<le> 57 then Some (n - 48) else None)"

fun parse_digits :: "string \<Rightarrow> nat \<Rightarrow> nat option" where
  "parse_digits [] acc = Some acc"
| "parse_digits (c # cs) acc =
     (case digit_val c of
        None \<Rightarrow> None
      | Some d \<Rightarrow> if 2 ^ 64 \<le> acc * 10 + d then None else parse_digits cs (acc * 10 + d))"

definition parse_u64 :: "string \<Rightarrow> u64 option" where
  "parse_u64 s =
     (let ds = (case s of c # cs \<Rightarrow> if c = CHR ''+'' then cs else s | [] \<Rightarrow> []) in
      if ds = [] then None else map_option word_of_nat (parse_digits ds 0))"

fun repair_files :: "path \<Rightarrow> string list \<Rightarrow> manifest \<Rightarrow> repair_report \<Rightarrow> (manifest \<times> repair_report) wprog" where
  "repair_files dir [] mf rep = st_return (mf, rep)"
| "repair_files dir (name # names) mf rep =
     (if \<not> ends_with ''.sst'' name then repair_files dir names mf rep
      else case parse_u64 (trim_sst name) of
        None \<Rightarrow> repair_files dir names mf rep
      | Some i \<Rightarrow> (\<lambda>w.
          case on_disk (sst_open (path_join dir name) 0) w of
            (Inr r, w') \<Rightarrow>
              repair_files dir names (add_sst 0 (sst_meta_new i 0 [] []) mf)
                (rep\<lparr>recovered_ssts := recovered_ssts rep + 1\<rparr>) w'
          | (Inl (Fail err), w') \<Rightarrow>
              st_bind (st_ignore (on_disk (remove_file (path_join dir name)))) (\<lambda>_.
                repair_files dir names mf (rep\<lparr>corrupted_files := corrupted_files rep + 1\<rparr>)) w'
          | (Inl f, w') \<Rightarrow> (Inl f, w')))"

text \<open>The directory listing of an absent directory is skipped by \<open>path.exists()\<close>; \<open>exists_dir\<close> is that test.\<close>

definition eng_repair :: "(disk \<Rightarrow> path \<Rightarrow> bool) \<Rightarrow> path \<Rightarrow> repair_report wprog" where
  "eng_repair exists_dir dir =
     st_bind (st_gets (\<lambda>w. exists_dir (w_disk w) dir)) (\<lambda>present.
     st_bind (if present then read_dir dir else st_return []) (\<lambda>names.
     st_bind (repair_files dir names manifest_new \<lparr>corrupted_files = 0, recovered_ssts = 0\<rparr>) (\<lambda>(mf, rep).
     st_bind (on_disk (manifest_save (manifest_path dir) mf)) (\<lambda>_.
     st_bind (st_gets (\<lambda>w. exists_file (default_wal_path dir) (w_disk w))) (\<lambda>present.
     st_bind (if present then st_ignore (on_disk (create_file (default_wal_path dir))) else st_return ()) (\<lambda>_.
       st_return rep))))))"

end
