(* ===== verification/EngineReads.thy ===== *)
theory EngineReads
  imports Engine SSTableCorrect
begin

text \<open>
  What the engine holds and what its reads return. A table is its metadata with its blocks; the readers
  are the opened tables, oldest first. \<open>stored\<close> is the map from keys to stored values that the memtable
  and the tables stand for; \<open>get\<close> and \<open>scan\<close> return what is visible of it now.
\<close>

subsection \<open>Steps of the engine\<close>

lemma eprog_simps [simp]:
  "st_bind (e_gets f) g (e, w) = g (f e) (e, w)"
  "st_bind (e_modify h) m (e, w) = m () (h e, w)"
  "st_bind (count_metric c) m (e, w) = m () (e\<lparr>e_metrics := c (e_metrics e)\<rparr>, w)"
  "e_modify h (e, w) = (Inr (), (h e, w))"
  "count_metric c (e, w) = (Inr (), (e\<lparr>e_metrics := c (e_metrics e)\<rparr>, w))"
  by (simp_all add: e_gets_def e_modify_def count_metric_def st_modify_def)

lemma on_world_simps [simp]:
  "st_bind (on_world m) f (e, w) =
     (case m w of (Inl x, w') \<Rightarrow> (Inl x, (e, w')) | (Inr y, w') \<Rightarrow> f y (e, w'))"
  "on_world m (e, w) = (case m w of (r, w') \<Rightarrow> (r, (e, w')))"
  by (simp_all add: on_world_def st_bind_def split: prod.splits sum.splits)

lemma now_secs_simps [simp]:
  "now_secs w = (Inr (w_clock w (w_ticks w)), w\<lparr>w_ticks := Suc (w_ticks w)\<rparr>)"
  "st_bind now_secs f w = f (w_clock w (w_ticks w)) (w\<lparr>w_ticks := Suc (w_ticks w)\<rparr>)"
  by (simp_all add: now_secs_def st_bind_def)

lemma on_world_now [simp]:
  "on_world now_secs (e, w) = (Inr (w_clock w (w_ticks w)), (e, w\<lparr>w_ticks := Suc (w_ticks w)\<rparr>))"
  by simp

text \<open>How often reading a value asks the clock. Where it does not, the time does not matter.\<close>

definition ttl_reads :: "bytes \<Rightarrow> nat" where
  "ttl_reads v = (if 9 \<le> length v \<and> v ! 0 = 1 then 1 else 0)"

definition value_reads :: "bytes \<Rightarrow> nat" where
  "value_reads v = (case decode_with_seq v of Some (inner, _) \<Rightarrow> ttl_reads inner | None \<Rightarrow> 0)"

lemma ttl_now_eq:
  "\<exists>now. ttl_now v w = (Inr now, w\<lparr>w_ticks := w_ticks w + ttl_reads v\<rparr>) \<and>
     unwrap_ttl now v = unwrap_ttl (w_clock w (w_ticks w)) v"
  by (auto simp: ttl_now_def ttl_reads_def unwrap_ttl_def st_return_def)

lemma value_now_eq:
  "\<exists>now. value_now v w = (Inr now, w\<lparr>w_ticks := w_ticks w + value_reads v\<rparr>) \<and>
     unpack_value now v = unpack_value (w_clock w (w_ticks w)) v \<and> scan_visible now v = scan_visible (w_clock w (w_ticks w)) v \<and>
     scan_display now v = scan_display (w_clock w (w_ticks w)) v \<and> compact_retain now v = compact_retain (w_clock w (w_ticks w)) v"
proof (cases "decode_with_seq v")
  case None
  then show ?thesis
    by (simp add: value_now_def value_reads_def st_return_def unpack_value_def scan_visible_def scan_display_def compact_retain_def)
next
  case (Some p)
  then obtain inner seq where p: "decode_with_seq v = Some (inner, seq)" by (cases p) auto
  obtain now where "ttl_now inner w = (Inr now, w\<lparr>w_ticks := w_ticks w + ttl_reads inner\<rparr>)"
    "unwrap_ttl now inner = unwrap_ttl (w_clock w (w_ticks w)) inner" using ttl_now_eq by blast
  then show ?thesis
    by (simp add: p value_now_def value_reads_def unpack_value_def unpack_inner_def scan_visible_def scan_display_def compact_retain_def)
qed

lemma unpack_now_simps [simp]:
  "unpack_now value_now unpack_value v (e, w) =
     (Inr (unpack_value (w_clock w (w_ticks w)) v), (e, w\<lparr>w_ticks := w_ticks w + value_reads v\<rparr>))"
  "unpack_now ttl_now unpack_inner v (e, w) =
     (Inr (unpack_inner (w_clock w (w_ticks w)) v), (e, w\<lparr>w_ticks := w_ticks w + ttl_reads v\<rparr>))"
  using value_now_eq [of v w] ttl_now_eq [of v w]
  by (auto simp: unpack_now_def st_bind_def st_return_def on_world_def unpack_inner_def)

subsection \<open>Tables\<close>

type_synonym table = "sst_meta \<times> block list"

definition tid :: "table \<Rightarrow> u64" where
  "tid t = meta_id (fst t)"

definition tentries :: "table \<Rightarrow> entry list" where
  "tentries t = concat (map entries (snd t))"

definition open_of :: "table \<Rightarrow> sst_meta \<times> reader" where
  "open_of t = (fst t, opened (snd t) (tid t))"

definition tables_ok :: "(u64 \<Rightarrow> block list option) \<Rightarrow> table list \<Rightarrow> bool" where
  "tables_ok tbl ts \<longleftrightarrow> (\<forall>t \<in> set ts. sst_good (tentries t) (snd t) \<and> tbl (tid t) = Some (snd t))"

lemma tables_ok_simps [simp]:
  "tables_ok tbl []"
  "tables_ok tbl (t # ts) \<longleftrightarrow> sst_good (tentries t) (snd t) \<and> tbl (tid t) = Some (snd t) \<and> tables_ok tbl ts"
  "tables_ok tbl (ts @ us) \<longleftrightarrow> tables_ok tbl ts \<and> tables_ok tbl us"
  "tables_ok tbl (rev ts) \<longleftrightarrow> tables_ok tbl ts"
  by (auto simp: tables_ok_def)

lemma tables_known: "tables_ok tbl ts \<Longrightarrow> tbl i = None \<Longrightarrow> i \<notin> tid ` set ts"
  by (auto simp: tables_ok_def)

lemma fst_open_of [simp]: "fst (open_of t) = fst t"
  by (simp add: open_of_def)

text \<open>Later tables are newer and win.\<close>

fun table_lookup :: "table list \<Rightarrow> bytes \<Rightarrow> bytes option" where
  "table_lookup [] = Map.empty"
| "table_lookup (t # ts) = map_of (tentries t) ++ table_lookup ts"

lemma table_lookup_append [simp]: "table_lookup (ts @ us) = table_lookup ts ++ table_lookup us"
  by (induction ts) auto

lemma search_tables_spec:
  assumes "tables_ok tbl us" "cache_ok tbl (e_cache e)"
  shows "\<exists>c'. search_tables (map open_of us) k (e, w) =
    (Inr (table_lookup (rev us) k), (e\<lparr>e_cache := c'\<rparr>, w)) \<and> cache_ok tbl c'"
  using assms
proof (induction us arbitrary: e)
  case Nil
  then show ?case by (auto simp: st_return_def intro!: exI [of _ "e_cache e"])
next
  case (Cons t us)
  have good: "sst_good (tentries t) (snd t)" "tbl (tid t) = Some (snd t)" using Cons.prems(1) by simp_all
  obtain c where c: "sst_get (opened (snd t) (tid t)) k (e_cache e) = (Inr (map_of (tentries t) k), c)" "cache_ok tbl c"
    using sst_get_spec [OF good Cons.prems(2), of k] by blast
  have step: "on_cache (sst_get (opened (snd t) (tid t)) k) (e, w) = (Inr (map_of (tentries t) k), (e\<lparr>e_cache := c\<rparr>, w))"
    using c(1) by (simp add: on_cache_def)
  show ?case
  proof (cases "map_of (tentries t) k")
    case (Some v)
    then show ?thesis using step c(2) by (auto simp: open_of_def [of t] st_bind_def st_return_def)
  next
    case None
    obtain c' where "search_tables (map open_of us) k (e\<lparr>e_cache := c\<rparr>, w) =
        (Inr (table_lookup (rev us) k), (e\<lparr>e_cache := c'\<rparr>, w))" "cache_ok tbl c'"
      using Cons.IH [of "e\<lparr>e_cache := c\<rparr>"] Cons.prems c(2) by auto
    then show ?thesis
      using step None by (auto simp: open_of_def [of t] st_bind_def map_add_def split: option.splits)
  qed
qed

subsection \<open>The state of the engine\<close>

text \<open>\<open>eng_ok tbl ts e\<close>: between operations no frozen list waits, the readers are the tables \<open>ts\<close>, every
  table is a good file known to \<open>tbl\<close>, no two tables share an id, the cache agrees with \<open>tbl\<close>, and no id
  from \<open>e_next_sst\<close> on has been used.\<close>

definition eng_ok :: "(u64 \<Rightarrow> block list option) \<Rightarrow> table list \<Rightarrow> engine \<Rightarrow> bool" where
  "eng_ok tbl ts e \<longleftrightarrow> mt_inv (e_mem e) \<and> e_readers e = map open_of ts \<and> tables_ok tbl ts \<and>
     distinct (map tid ts) \<and> cache_ok tbl (e_cache e) \<and> (\<forall>i. tbl i \<noteq> None \<longrightarrow> i < e_next_sst e)"

definition stored :: "table list \<Rightarrow> engine \<Rightarrow> bytes \<Rightarrow> bytes option" where
  "stored ts e = table_lookup ts ++ mt_lookup (e_mem e)"

text \<open>What a read at time \<open>now\<close> makes of it.\<close>

definition view :: "u64 \<Rightarrow> table list \<Rightarrow> engine \<Rightarrow> bytes \<Rightarrow> bytes option" where
  "view now ts e k = Option.bind (stored ts e k) (unpack_value now)"

lemma eng_okD:
  assumes "eng_ok tbl ts e"
  shows "mt_inv (e_mem e)" "e_readers e = map open_of ts" "tables_ok tbl ts" "cache_ok tbl (e_cache e)"
    "tbl i \<noteq> None \<Longrightarrow> i < e_next_sst e" "distinct (map tid ts)"
  using assms by (auto simp: eng_ok_def)

lemma eng_ok_cache: "eng_ok tbl ts e \<Longrightarrow> cache_ok tbl c \<Longrightarrow> eng_ok tbl ts (e\<lparr>e_cache := c\<rparr>)"
  by (simp add: eng_ok_def)

lemma eng_ok_metrics [simp]: "eng_ok tbl ts (e\<lparr>e_metrics := m\<rparr>) = eng_ok tbl ts e"
  by (simp add: eng_ok_def)

lemma stored_cong [simp]:
  "stored ts (e\<lparr>e_metrics := m\<rparr>) = stored ts e" "stored ts (e\<lparr>e_cache := c\<rparr>) = stored ts e"
  by (simp_all add: stored_def)

subsection \<open>Point reads\<close>

lemma eng_get_spec:
  assumes ok: "eng_ok tbl ts e"
  shows "\<exists>c' n. eng_get k (e, w) =
      (Inr (view (w_clock w (w_ticks w)) ts e k),
        (e\<lparr>e_metrics := (e_metrics e)\<lparr>m_reads := m_reads (e_metrics e) + 1\<rparr>, e_cache := c'\<rparr>, w\<lparr>w_ticks := n\<rparr>)) \<and>
    cache_ok tbl c'"
proof -
  note o = eng_okD [OF ok]
  let ?e = "e\<lparr>e_metrics := (e_metrics e)\<lparr>m_reads := m_reads (e_metrics e) + 1\<rparr>\<rparr>"
  show ?thesis
  proof (cases "mt_lookup (e_mem e) k")
    case (Some v)
    then have "stored ts e k = Some v" by (simp add: stored_def)
    then show ?thesis
      using Some o(4) mt_get_spec [OF o(1)]
      by (intro exI [of _ "e_cache e"] exI [of _ "w_ticks w + value_reads v"]) (simp add: eng_get_def view_def)
  next
    case None
    then have st: "stored ts e k = table_lookup ts k" by (simp add: stored_def map_add_def)
    obtain c' where s: "search_tables (map open_of (rev ts)) k (?e, w) =
        (Inr (table_lookup ts k), (?e\<lparr>e_cache := c'\<rparr>, w))" "cache_ok tbl c'"
      using search_tables_spec [of tbl "rev ts" ?e k w] o(3,4) by auto
    show ?thesis
    proof (cases "table_lookup ts k")
      case None
      then show ?thesis
        using \<open>mt_lookup (e_mem e) k = None\<close> mt_get_spec [OF o(1)] s
        by (intro exI [of _ c'] exI [of _ "w_ticks w"])
          (simp add: eng_get_def o(2) rev_map view_def st st_bind_def [of "search_tables _ _"] st_return_def)
    next
      case (Some v)
      then show ?thesis
        using None mt_get_spec [OF o(1)] s
        by (intro exI [of _ c'] exI [of _ "w_ticks w + value_reads v"])
          (simp add: eng_get_def o(2) rev_map view_def st st_bind_def [of "search_tables _ _"])
    qed
  qed
qed

subsection \<open>Range reads\<close>

lemma scan_tables_spec:
  assumes "tables_ok tbl ts" "cache_ok tbl (e_cache e)"
  shows "\<exists>c'. scan_tables (map open_of ts) lo hi acc (e, w) =
    (Inr (fold (\<lambda>t. bt_extend (filter (\<lambda>e. lo \<le> fst e \<and> fst e < hi) (tentries t))) ts acc), (e\<lparr>e_cache := c'\<rparr>, w)) \<and>
    cache_ok tbl c'"
  using assms
proof (induction ts arbitrary: e acc)
  case Nil
  then show ?case by (auto simp: st_return_def intro!: exI [of _ "e_cache e"])
next
  case (Cons t ts)
  have good: "sst_good (tentries t) (snd t)" "tbl (tid t) = Some (snd t)" using Cons.prems(1) by simp_all
  obtain c where c: "SSTableReader.sst_iter (opened (snd t) (tid t)) (e_cache e) = (Inr (tentries t), c)" "cache_ok tbl c"
    using sst_iter_spec [OF good Cons.prems(2)] by blast
  have step: "on_cache (SSTableReader.sst_iter (opened (snd t) (tid t))) (e, w) = (Inr (tentries t), (e\<lparr>e_cache := c\<rparr>, w))"
    using c(1) by (simp add: on_cache_def)
  let ?acc = "bt_extend (filter (\<lambda>e. lo \<le> fst e \<and> fst e < hi) (tentries t)) acc"
  obtain c' where "scan_tables (map open_of ts) lo hi ?acc (e\<lparr>e_cache := c\<rparr>, w) =
      (Inr (fold (\<lambda>t. bt_extend (filter (\<lambda>e. lo \<le> fst e \<and> fst e < hi) (tentries t))) ts ?acc),
        (e\<lparr>e_cache := c'\<rparr>, w))" "cache_ok tbl c'"
    using Cons.IH [of "e\<lparr>e_cache := c\<rparr>" ?acc] Cons.prems c(2) by auto
  then show ?case using step by (auto simp: open_of_def [of t] st_bind_def)
qed

lemma tables_sorted: "tables_ok tbl ts \<Longrightarrow> t \<in> set ts \<Longrightarrow> sorted_keys (tentries t)"
  by (auto simp: tables_ok_def dest: sst_goodD(2))

lemma fold_tables_both:
  assumes "tables_ok tbl ts" "sorted_keys acc"
  shows "sorted_keys (fold (\<lambda>t. bt_extend (filter (\<lambda>e. lo \<le> fst e \<and> fst e < hi) (tentries t))) ts acc) \<and>
    map_of (fold (\<lambda>t. bt_extend (filter (\<lambda>e. lo \<le> fst e \<and> fst e < hi) (tentries t))) ts acc) k =
      (if lo \<le> k \<and> k < hi then (map_of acc ++ table_lookup ts) k else map_of acc k)"
  using assms
proof (induction ts arbitrary: acc)
  case (Cons t ts)
  have s: "sorted_keys (filter (\<lambda>e. lo \<le> fst e \<and> fst e < hi) (tentries t))"
    using tables_sorted [OF Cons.prems(1), of t] by (simp add: sorted_keys_filter)
  show ?case
    using Cons.IH [of "bt_extend (filter (\<lambda>e. lo \<le> fst e \<and> fst e < hi) (tentries t)) acc"] Cons.prems s
    by (auto simp: map_of_bt_extend_sorted map_add_def map_of_range split: option.splits)
qed simp

lemmas fold_tables_map_of = fold_tables_both [THEN conjunct1] fold_tables_both [THEN conjunct2]

text \<open>The pass of \<open>scan\<close> over the entries with a clock that stands still.\<close>

lemma visible_entries_const:
  assumes "\<forall>n. w_clock w n = now"
  shows "\<exists>n. visible_entries es w =
    (Inr (map (\<lambda>e. (fst e, scan_display now (snd e))) (filter (\<lambda>e. unpack_value now (snd e) \<noteq> None) es)), w\<lparr>w_ticks := n\<rparr>)"
  using assms
proof (induction es arbitrary: w)
  case Nil
  then show ?case by (intro exI [of _ "w_ticks w"]) (simp add: st_return_def)
next
  case (Cons e es)
  let ?w = "\<lambda>n. w\<lparr>w_ticks := n\<rparr>"
  have clk: "w_clock (?w n) m = now" for n m using Cons.prems by simp
  have tick: "\<exists>t. value_now (snd e) (?w n) = (Inr t, ?w (n + value_reads (snd e))) \<and> scan_visible t (snd e) = scan_visible now (snd e) \<and>
      scan_display t (snd e) = scan_display now (snd e)" for n
    using value_now_eq [of "snd e" "?w n"] clk by auto
  have rest: "\<exists>m. visible_entries es (?w n) =
    (Inr (map (\<lambda>e. (fst e, scan_display now (snd e))) (filter (\<lambda>e. unpack_value now (snd e) \<noteq> None) es)), ?w m)" for n
    using Cons.IH [of "?w n"] clk by auto
  obtain t where t: "value_now (snd e) w = (Inr t, ?w (w_ticks w + value_reads (snd e)))" "scan_visible t (snd e) = scan_visible now (snd e)"
    using tick [of "w_ticks w"] by auto
  obtain u where u: "value_now (snd e) (?w (w_ticks w + value_reads (snd e))) = (Inr u, ?w (w_ticks w + value_reads (snd e) + value_reads (snd e)))"
    "scan_display u (snd e) = scan_display now (snd e)" using tick by blast
  show ?case
  proof (cases "scan_visible now (snd e)")
    case True
    obtain m where "visible_entries es (?w (w_ticks w + value_reads (snd e) + value_reads (snd e))) =
      (Inr (map (\<lambda>e. (fst e, scan_display now (snd e))) (filter (\<lambda>e. unpack_value now (snd e) \<noteq> None) es)), ?w m)"
      using rest by blast
    then show ?thesis using True t u by (intro exI [of _ m]) (simp add: st_bind_def st_return_def scan_visible_iff)
  next
    case False
    obtain m where "visible_entries es (?w (w_ticks w + value_reads (snd e))) =
      (Inr (map (\<lambda>e. (fst e, scan_display now (snd e))) (filter (\<lambda>e. unpack_value now (snd e) \<noteq> None) es)), ?w m)"
      using rest by blast
    then show ?thesis using False t by (intro exI [of _ m]) (simp add: st_bind_def scan_visible_iff)
  qed
qed

lemma eng_scan_spec:
  assumes ok: "eng_ok tbl ts e" and clk: "\<forall>n. w_clock w n = now"
  shows "\<exists>es c' n. eng_scan lo hi (e, w) = (Inr es, (e\<lparr>e_cache := c'\<rparr>, w\<lparr>w_ticks := n\<rparr>)) \<and> cache_ok tbl c' \<and>
    sorted_keys es \<and> (\<forall>k. map_of es k = (if lo \<le> k \<and> k < hi then view now ts e k else None))"
proof -
  note o = eng_okD [OF ok]
  define older where "older = fold (\<lambda>t. bt_extend (filter (\<lambda>e. lo \<le> fst e \<and> fst e < hi) (tentries t))) ts []"
  define mem where "mem = filter (\<lambda>e. lo \<le> fst e \<and> fst e < hi) (mt_contents (e_mem e))"
  define all where "all = bt_extend mem older"
  obtain c' where s: "scan_tables (map open_of ts) lo hi [] (e, w) = (Inr older, (e\<lparr>e_cache := c'\<rparr>, w))" "cache_ok tbl c'"
    using scan_tables_spec [OF o(3,4), of lo hi "[]" w] unfolding older_def by blast
  have sorted: "sorted_keys older" "sorted_keys mem" "sorted_keys all"
    using fold_tables_map_of(1) [OF o(3), of "[]" lo hi] mt_contents_spec(1) [OF o(1)]
    by (auto simp: older_def mem_def all_def sorted_keys_filter)
  have all: "map_of all k = (if lo \<le> k \<and> k < hi then stored ts e k else None)" for k
    using sorted fold_tables_map_of(2) [OF o(3), of "[]" lo hi k] mt_contents_spec(2) [OF o(1)]
    by (auto simp: all_def older_def mem_def stored_def map_of_bt_extend_sorted map_add_def map_of_range split: option.splits)
  let ?vis = "filter (\<lambda>e. unpack_value now (snd e) \<noteq> None) all"
  let ?es = "map (\<lambda>e. (fst e, scan_display now (snd e))) ?vis"
  obtain n2 where v: "visible_entries all w = (Inr ?es, w\<lparr>w_ticks := n2\<rparr>)"
    using visible_entries_const [OF clk, of all] by blast
  have run: "eng_scan lo hi (e, w) = (Inr ?es, (e\<lparr>e_cache := c'\<rparr>, w\<lparr>w_ticks := n2\<rparr>))"
    using s(1) v mt_scan_spec [OF o(1), of lo hi]
    by (simp add: eng_scan_def o(2) st_bind_def [of "scan_tables _ _ _ _"] mem_def [symmetric] all_def [symmetric])
  have "sorted_keys ?es"
    using sorted_keys_filter [OF sorted(3)] by (simp add: sorted_keys_def comp_def)
  moreover have "map_of ?es k = (if lo \<le> k \<and> k < hi then view now ts e k else None)" for k
  proof -
    have "map_of ?es k = map_option (scan_display now) (map_of ?vis k)"
      using map_of_map_value [of "\<lambda>k. scan_display now" ?vis k] by (simp only: case_prod_unfold)
    also have "\<dots> = Option.bind (map_of all k) (unpack_value now)"
      using map_of_filter_entry [OF sorted(3), of "\<lambda>e. unpack_value now (snd e) \<noteq> None" k]
      by (auto simp: scan_display_eq split: option.splits)
    finally show ?thesis by (simp add: all view_def)
  qed
  ultimately show ?thesis using run s(2) by blast
qed

end
