(* ===== verification/EngineWrites.thy ===== *)
theory EngineWrites
  imports EngineReads
begin

text \<open>
  Writes and flushes: without failing system calls an operation succeeds, keeps the invariant and
  changes what is stored exactly at its key. Compaction is treated in the next theory; here it is not due.
\<close>

subsection \<open>Steps on the disk\<close>

lemma in_disk_simps [simp]:
  "in_disk m (e, w) = (case m (w_disk w) of (r, d) \<Rightarrow> (r, (e, w\<lparr>w_disk := d\<rparr>)))"
  by (simp add: in_disk_def on_disk_def split: prod.splits)

lemma st_bind_in_disk:
  "m (w_disk w) = (Inr x, d) \<Longrightarrow> st_bind (in_disk m) f (e, w) = f x (e, w\<lparr>w_disk := d\<rparr>)"
  by (simp add: st_bind_def)

lemma create_file_total:
  "no_faults d \<Longrightarrow> create_file p d = (Inr (), set_file p (Some []) (tick d))"
  by (simp add: create_file_def fault_now_def no_faults_def)

lemma sync_file_total:
  "no_faults d \<Longrightarrow> sync_file p d = (Inr (), (tick d)\<lparr>durable := (durable d)(p := files d p)\<rparr>)"
  by (simp add: sync_file_def fault_now_def no_faults_def)

lemma read_file_total:
  "no_faults d \<Longrightarrow> files d p = Some c \<Longrightarrow> read_file p d = (Inr c, tick d)"
  by (simp add: read_file_def fault_now_def no_faults_def)

lemma no_faults_durable [simp]: "no_faults (d\<lparr>durable := x\<rparr>) = no_faults d"
  by (simp add: no_faults_def)

lemma manifest_save_total:
  assumes "no_faults d"
  shows "\<exists>d'. manifest_save p mf d = (Inr (), d') \<and> only_file p d d' \<and>
    files d' p = Some (manifest_encode mf) \<and> durable d' p = files d' p"
proof -
  let ?d1 = "set_file p (Some []) (tick d)"
  have nf1: "no_faults ?d1" using assms by simp
  obtain n d2 where w: "write_file p (manifest_encode mf) ?d1 = ((Inr (), n), d2)"
    by (rule write_file_total [OF nf1])
  note ok = write_file_ok [OF w]
  have nf2: "no_faults d2" using nf1 ok(3) by (rule no_faults_only_file)
  let ?d3 = "(tick d2)\<lparr>durable := (durable d2)(p := files d2 p)\<rparr>"
  have run: "manifest_save p mf d = (Inr (), ?d3)"
    using create_file_total [OF assms, of p] w sync_file_total [OF nf2, of p]
    by (simp add: manifest_save_def st_bind_def)
  have "files ?d3 p = Some (manifest_encode mf)"
    using ok(1,4) by (auto simp: file_bytes_def split: option.splits)
  moreover have "only_file p d ?d3"
    using ok(3) by (simp add: only_file_def)
  ultimately show ?thesis using run by auto
qed

lemma save_manifest_total:
  assumes "no_faults (w_disk w)"
  shows "\<exists>d. save_manifest (e, w) = (Inr (), (e, w\<lparr>w_disk := d\<rparr>)) \<and> only_file (manifest_path (e_path e)) (w_disk w) d \<and>
    no_faults d \<and> files d (manifest_path (e_path e)) = Some (manifest_encode (e_manifest e))"
proof -
  obtain d where "manifest_save (manifest_path (e_path e)) (e_manifest e) (w_disk w) = (Inr (), d)"
    "only_file (manifest_path (e_path e)) (w_disk w) d"
    "files d (manifest_path (e_path e)) = Some (manifest_encode (e_manifest e))"
    using manifest_save_total [OF assms] by blast
  then show ?thesis using no_faults_only_file [OF assms] by (auto simp: save_manifest_def)
qed

lemma write_table_total:
  assumes "no_faults (w_disk w)" "sorted_keys es" "sst_fits es"
  shows "\<exists>bs d. write_table i es (e, w) = (Inr (opened bs i), (e, w\<lparr>w_disk := d\<rparr>)) \<and> sst_good es bs \<and>
    no_faults d \<and> only_file (sst_path (e_path e) i) (w_disk w) d \<and> files d (sst_path (e_path e) i) = Some (sst_bytes bs)"
proof -
  let ?p = "sst_path (e_path e) i" and ?b = "o_block_size (e_opts e)"
  obtain d1 where d1: "sst_write ?p ?b es (w_disk w) = (Inr (), d1)"
    using sst_write_total [OF assms(1,3)] by (auto simp: st_ok_def)
  have nf: "no_faults d1" using sst_write_ok [OF d1 assms(3)] assms(1) no_faults_only_file by blast
  obtain bs d2 where b: "sst_good es bs" "files d1 ?p = Some (sst_bytes bs)" "only_file ?p (w_disk w) d1"
    "sst_open ?p i d1 = (Inr (opened bs i), d2)" "d2 = tick d1"
    using sst_write_open [OF assms(2,3) d1 nf, of i] by blast
  have "write_table i es (e, w) = (Inr (opened bs i), (e, w\<lparr>w_disk := d2\<rparr>))"
    using b(4) by (simp add: write_table_def st_bind_in_disk [where m = "sst_write ?p ?b es", OF d1])
  moreover have "only_file ?p (w_disk w) d2" using b(3,5) by (simp add: only_file_def)
  ultimately show ?thesis using b nf by (intro exI [of _ bs] exI [of _ d2]) simp
qed

lemma bw_drop_no_faults: "no_faults d \<Longrightarrow> no_faults (bw_drop b d)"
  using bw_drop_content(2) no_faults_only_file by blast

lemma reset_wal_total:
  assumes "no_faults (w_disk w)"
  shows "\<exists>d. reset_wal (e, w) = (Inr (), (e\<lparr>e_wal := \<lparr>bw_path = default_wal_path (e_path e), bw_buf = []\<rparr>\<rparr>, w\<lparr>w_disk := d\<rparr>)) \<and>
    no_faults d \<and>
    (\<forall>q. q \<noteq> default_wal_path (e_path e) \<and> q \<noteq> bw_path (e_wal e) \<longrightarrow> files d q = files (w_disk w) q) \<and>
    (bw_buf (e_wal e) = [] \<longrightarrow> files d (default_wal_path (e_path e)) = Some [])"
proof -
  let ?p = "default_wal_path (e_path e)" and ?d = "w_disk w"
  let ?d1 = "set_file ?p (Some []) (tick ?d)"
  have op: "wal_open ?p ?d1 = (Inr \<lparr>bw_path = ?p, bw_buf = []\<rparr>, tick ?d1)"
    using assms by (simp add: wal_open_def open_append_def fault_now_def no_faults_def st_bind_def st_return_def)
  have run: "reset_wal (e, w) = (Inr (), (e\<lparr>e_wal := \<lparr>bw_path = ?p, bw_buf = []\<rparr>\<rparr>, w\<lparr>w_disk := bw_drop (e_wal e) (tick ?d1)\<rparr>))"
    by (simp add: reset_wal_def st_bind_in_disk [where m = "create_file ?p", OF create_file_total [OF assms]]
        st_bind_in_disk [where m = "wal_open ?p" and w = "w\<lparr>w_disk := ?d1\<rparr>", simplified, OF op] st_modify_def)
  have of: "only_file (bw_path (e_wal e)) (tick ?d1) (bw_drop (e_wal e) (tick ?d1))" by (rule bw_drop_content(2))
  have "no_faults (bw_drop (e_wal e) (tick ?d1))" using assms by (intro bw_drop_no_faults) simp
  moreover have "files (bw_drop (e_wal e) (tick ?d1)) q = files ?d q"
    if "q \<noteq> ?p" "q \<noteq> bw_path (e_wal e)" for q
    using only_fileD [OF of that(2)] that(1) by simp
  moreover have "bw_buf (e_wal e) = [] \<Longrightarrow> files (bw_drop (e_wal e) (tick ?d1)) ?p = Some []"
    by (simp add: bw_drop_def bw_flush_buf_def)
  ultimately show ?thesis
    using run by (intro exI [of _ "bw_drop (e_wal e) (tick ?d1)"]) simp
qed

subsection \<open>When no compaction is due\<close>

definition quiet :: "options \<Rightarrow> manifest \<Rightarrow> bool" where
  "quiet opts mf \<longleftrightarrow> (\<forall>level < o_max_levels opts - 1.
     \<exists>t. level_threshold (o_l0_threshold opts) level = Inr t \<and> length (ssts_at_level mf level) < t)"

lemma st_for_skip: "(\<And>x. x \<in> set xs \<Longrightarrow> body x s = (Inr (), s)) \<Longrightarrow> st_for xs body s = (Inr (), s)"
  by (induction xs) (simp_all add: st_return_def st_bind_def)

lemma maybe_compact_quiet:
  assumes "quiet (e_opts e) (e_manifest e)"
  shows "maybe_compact (e, w) = (Inr (), (e, w))"
  unfolding maybe_compact_def eprog_simps
proof (rule st_for_skip)
  fix level assume "level \<in> set [0..<o_max_levels (e_opts e) - 1]"
  then obtain t where "level_threshold (o_l0_threshold (e_opts e)) level = Inr t"
    "length (ssts_at_level (e_manifest e) level) < t"
    using assms by (auto simp: quiet_def)
  then show "st_bind (st_lift (level_threshold (o_l0_threshold (e_opts e)) level)) (\<lambda>threshold.
      st_bind (e_gets (\<lambda>e. length (ssts_at_level (e_manifest e) level))) (\<lambda>n.
        if n < threshold then st_return () else compact_level level)) (e, w) = (Inr (), (e, w))"
    by (simp add: st_return_def)
qed

subsection \<open>Flushing\<close>

lemma next_sst_id_total:
  assumes "unat (e_next_sst e) + 1 < 2 ^ 64"
  shows "next_sst_id (e, w) = (Inr (e_next_sst e), (e\<lparr>e_next_sst := e_next_sst e + 1\<rparr>, w))"
  using assms by (simp add: next_sst_id_def add_u64_def st_return_def)

lemma less_succ_u64: "unat (i :: u64) + 1 < 2 ^ 64 \<Longrightarrow> j < i + 1 \<longleftrightarrow> j \<le> i"
proof -
  assume "unat i + 1 < 2 ^ 64"
  then have "unat (i + 1) = unat i + 1" using unat_add_u64 [of i 1] by simp
  then show ?thesis by (simp add: word_less_nat_alt word_le_nat_alt less_Suc_eq_le)
qed

text \<open>The engine after a flush of the frozen list \<open>l\<close> that wrote the blocks \<open>bs\<close>, and the files it leaves.\<close>

definition flushed_meta :: "engine \<Rightarrow> entry list \<Rightarrow> sst_meta" where
  "flushed_meta e es = sst_meta_new (e_next_sst e) 0 (fst (hd es)) (fst (last es))"

definition flushed :: "engine \<Rightarrow> entry list \<Rightarrow> block list \<Rightarrow> engine" where
  "flushed e es bs = e\<lparr>e_mem := (e_mem e)\<lparr>immutable := None\<rparr>, e_next_sst := e_next_sst e + 1,
     e_manifest := add_sst 0 (flushed_meta e es) (e_manifest e),
     e_readers := e_readers e @ [(flushed_meta e es, opened bs (e_next_sst e))],
     e_wal := \<lparr>bw_path = default_wal_path (e_path e), bw_buf = []\<rparr>,
     e_metrics := (e_metrics e)\<lparr>m_flushes := m_flushes (e_metrics e) + 1\<rparr>\<rparr>"

lemma path_join_inject [simp]: "path_join d x = path_join d y \<longleftrightarrow> x = y"
  by (simp add: path_join_def)

lemma paths_differ [simp]:
  "sst_path dir i \<noteq> manifest_path dir" "sst_path dir i \<noteq> default_wal_path dir"
  "manifest_path dir \<noteq> default_wal_path dir"
  "manifest_path dir \<noteq> sst_path dir i" "default_wal_path dir \<noteq> sst_path dir i"
  "default_wal_path dir \<noteq> manifest_path dir"
proof -
  have l: "last (pad6 s @ ''.sst'') = CHR ''t''" for s by simp
  have "pad6 s @ ''.sst'' \<noteq> ''MANIFEST''" "pad6 s @ ''.sst'' \<noteq> ''000001.wal''" for s
    using arg_cong [of "pad6 s @ ''.sst''" _ last] by (auto simp: l)
  from this [of "dec (unat i)"] show "sst_path dir i \<noteq> manifest_path dir" "sst_path dir i \<noteq> default_wal_path dir"
    "manifest_path dir \<noteq> sst_path dir i" "default_wal_path dir \<noteq> sst_path dir i"
    by (auto simp: sst_path_def manifest_path_def default_wal_path_def)
qed (simp_all add: manifest_path_def default_wal_path_def)

lemma maybe_flush_nothing: "immutable (e_mem e) = None \<Longrightarrow> maybe_flush (e, w) = (Inr (), (e, w))"
  by (simp add: maybe_flush_def mt_take_immutable_def st_return_def)

lemma maybe_flush_spec:
  assumes inv: "mt_inv (e_mem e)" and nf: "no_faults (w_disk w)"
    and imm: "immutable (e_mem e) = Some l" and fits: "sst_fits (sl_contents l)"
    and ids: "unat (e_next_sst e) + 1 < 2 ^ 64"
  shows "\<exists>bs d. maybe_flush (e, w) = maybe_compact (flushed e (sl_contents l) bs, w\<lparr>w_disk := d\<rparr>) \<and>
    sst_good (sl_contents l) bs \<and> no_faults d \<and>
    (\<forall>q. q \<noteq> default_wal_path (e_path e) \<and> q \<noteq> bw_path (e_wal e) \<longrightarrow>
       files d q = ((files (w_disk w))(sst_path (e_path e) (e_next_sst e) \<mapsto> sst_bytes bs,
         manifest_path (e_path e) \<mapsto> manifest_encode (e_manifest (flushed e (sl_contents l) bs)))) q) \<and>
    (bw_buf (e_wal e) = [] \<longrightarrow> files d (default_wal_path (e_path e)) = Some [])"
proof -
  let ?es = "sl_contents l" and ?i = "e_next_sst e" and ?dir = "e_path e"
  let ?m = "flushed_meta e ?es" and ?mem = "(e_mem e)\<lparr>immutable := None\<rparr>"
  have take: "mt_take_immutable (e_mem e) = (Some l, ?mem)"
    using imm by (simp add: mt_take_immutable_def)
  note mt = mt_take_immutable_spec [OF inv take]
  let ?e1 = "e\<lparr>e_mem := ?mem, e_next_sst := ?i + 1\<rparr>"
  obtain bs d1 where w1: "write_table ?i ?es (?e1, w) = (Inr (opened bs ?i), (?e1, w\<lparr>w_disk := d1\<rparr>))"
    "sst_good ?es bs" "no_faults d1" "only_file (sst_path ?dir ?i) (w_disk w) d1"
    "files d1 (sst_path ?dir ?i) = Some (sst_bytes bs)"
    using write_table_total [OF nf mt(5) fits, of ?i ?e1] by auto
  let ?e2 = "?e1\<lparr>e_manifest := add_sst 0 ?m (e_manifest e), e_readers := e_readers e @ [(?m, opened bs ?i)]\<rparr>"
  obtain d2 where w2: "save_manifest (?e2, w\<lparr>w_disk := d1\<rparr>) = (Inr (), (?e2, w\<lparr>w_disk := d2\<rparr>))" "no_faults d2"
    "only_file (manifest_path ?dir) d1 d2" "files d2 (manifest_path ?dir) = Some (manifest_encode (e_manifest ?e2))"
    using save_manifest_total [of "w\<lparr>w_disk := d1\<rparr>" ?e2] w1(3) by auto
  let ?e3 = "?e2\<lparr>e_wal := \<lparr>bw_path = default_wal_path ?dir, bw_buf = []\<rparr>\<rparr>"
  obtain d3 where w3: "reset_wal (?e2, w\<lparr>w_disk := d2\<rparr>) = (Inr (), (?e3, w\<lparr>w_disk := d3\<rparr>))" "no_faults d3"
    "\<forall>q. q \<noteq> default_wal_path ?dir \<and> q \<noteq> bw_path (e_wal e) \<longrightarrow> files d3 q = files d2 q"
    "bw_buf (e_wal e) = [] \<longrightarrow> files d3 (default_wal_path ?dir) = Some []"
    using reset_wal_total [of "w\<lparr>w_disk := d2\<rparr>" ?e2] w2(2) by auto
  have id: "next_sst_id (e\<lparr>e_mem := ?mem\<rparr>, w) = (Inr ?i, (?e1, w))"
    using next_sst_id_total [of "e\<lparr>e_mem := ?mem\<rparr>" w] ids by simp
  have "maybe_flush (e, w) = maybe_compact (flushed e ?es bs, w\<lparr>w_disk := d3\<rparr>)"
    using take mt(3,4)
    by (simp add: maybe_flush_def st_bind_eq(1) [where m = next_sst_id, OF id]
        st_bind_eq(1) [where m = "write_table ?i ?es", OF w1(1)] Let_def
        st_bind_eq(1) [where m = save_manifest, OF w2(1) [unfolded flushed_meta_def]]
        st_bind_eq(1) [where m = reset_wal, OF w3(1) [unfolded flushed_meta_def]] flushed_def flushed_meta_def)
  moreover have "files d3 q = ((files (w_disk w))(sst_path ?dir ?i \<mapsto> sst_bytes bs,
      manifest_path ?dir \<mapsto> manifest_encode (e_manifest (flushed e ?es bs)))) q"
    if "q \<noteq> default_wal_path ?dir" "q \<noteq> bw_path (e_wal e)" for q
    using that w3(3) w2(4) w1(5) only_fileD [OF w2(3), of q] only_fileD [OF w1(4), of q]
    by (auto simp: flushed_def)
  ultimately show ?thesis using w1(2) w3(2,4) by blast
qed

lemma sst_bits_of_flushed [simp]:
  "open_of (flushed_meta e es, bs) = (flushed_meta e es, opened bs (e_next_sst e))"
  "tid (flushed_meta e es, bs) = e_next_sst e"
  by (simp_all add: open_of_def tid_def flushed_meta_def sst_meta_new_def)

lemma tentries_good: "sst_good es bs \<Longrightarrow> tentries (m, bs) = es"
  by (simp add: tentries_def sst_goodD)

text \<open>The engine a flush leaves is well formed and stands for the same map.\<close>

lemma flushed_ok:
  assumes ok: "eng_ok tbl ts e" and imm: "immutable (e_mem e) = Some l" and good: "sst_good (sl_contents l) bs"
    and ids: "unat (e_next_sst e) + 1 < 2 ^ 64"
  shows "eng_ok (tbl(e_next_sst e \<mapsto> bs)) (ts @ [(flushed_meta e (sl_contents l), bs)]) (flushed e (sl_contents l) bs)"
    "stored (ts @ [(flushed_meta e (sl_contents l), bs)]) (flushed e (sl_contents l) bs) = stored ts e"
proof -
  note o = eng_okD [OF ok]
  have take: "mt_take_immutable (e_mem e) = (Some l, (e_mem e)\<lparr>immutable := None\<rparr>)"
    using imm by (simp add: mt_take_immutable_def)
  note mt = mt_take_immutable_spec [OF o(1) take]
  have new: "tbl (e_next_sst e) = None" using o(5) [of "e_next_sst e"] by (cases "tbl (e_next_sst e)") simp_all
  then have "tables_ok (tbl(e_next_sst e \<mapsto> bs)) ts"
    using o(3) by (auto simp: tables_ok_def)
  then show "eng_ok (tbl(e_next_sst e \<mapsto> bs)) (ts @ [(flushed_meta e (sl_contents l), bs)]) (flushed e (sl_contents l) bs)"
    using mt(1) o(2,4,5,6) new good ids tables_known [OF o(3) new]
    by (auto simp: eng_ok_def flushed_def cache_ok_extend less_succ_u64 less_imp_le tentries_good)
  show "stored (ts @ [(flushed_meta e (sl_contents l), bs)]) (flushed e (sl_contents l) bs) = stored ts e"
    using mt(6) by (simp add: stored_def flushed_def tentries_good [OF good] map_add_assoc)
qed

subsection \<open>Logging and applying a write\<close>

lemma wal_append_record_total:
  assumes "no_faults d"
  shows "\<exists>b' d'. wal_append_record crc r (b, d) = (Inr (), (b', d')) \<and> no_faults d' \<and>
    bw_content b' d' = bw_content b d @ record_encode crc r \<and> bw_path b' = bw_path b \<and> only_file (bw_path b) d d'"
proof -
  obtain b' d' where run: "bw_write_all (record_encode crc r) (b, d) = (Inr (), (b', d'))"
    by (rule bw_write_all_total [OF assms])
  then show ?thesis
    using bw_write_all_ok [OF run] no_faults_only_file [OF assms] by (auto simp: wal_append_record_def)
qed

lemma wal_flush_total:
  assumes "no_faults d"
  shows "\<exists>b' d'. wal_flush (b, d) = (Inr (), (b', d')) \<and> no_faults d' \<and> bw_buf b' = [] \<and>
    bw_content b' d' = bw_content b d \<and> bw_path b' = bw_path b \<and> only_file (bw_path b) d d' \<and>
    durable d' (bw_path b) = files d' (bw_path b)"
proof -
  obtain b1 d1 where fl: "bw_flush_buf (b, d) = (Inr (), (b1, d1))"
    by (rule bw_flush_buf_total [OF assms])
  have "no_faults d1" using bw_flush_buf_any(3) [OF fl] assms no_faults_only_file by blast
  note nf1 = this
  then have run: "wal_flush (b, d) = (Inr (), (b1, (tick d1)\<lparr>durable := (durable d1)(bw_path b1 := files d1 (bw_path b1))\<rparr>))"
    using fl by (simp add: wal_flush_def st_bind_def sync_file_total)
  show ?thesis
    using wal_flush_any [OF run] wal_flush_ok [OF run] run nf1 by auto
qed

lemma on_wal_eq:
  "m (e_wal e, w_disk w) = (Inr x, (b, d)) \<Longrightarrow> st_bind (on_wal m) f (e, w) = f x (e\<lparr>e_wal := b\<rparr>, w\<lparr>w_disk := d\<rparr>)"
  by (simp add: st_bind_def on_wal_def)

lemma log_step:
  assumes nf: "no_faults (w_disk w)"
  shows "\<exists>b d. (\<forall>rest. st_bind (on_wal (wal_append_record crc r)) (\<lambda>_. st_bind (e_gets (\<lambda>e. o_sync_wal (e_opts e)))
        (\<lambda>sync. st_bind (if sync then on_wal wal_flush else st_return ()) rest)) (e, w) =
      rest () (e\<lparr>e_wal := b\<rparr>, w\<lparr>w_disk := d\<rparr>)) \<and> no_faults d \<and>
    bw_path b = bw_path (e_wal e) \<and> only_file (bw_path (e_wal e)) (w_disk w) d \<and>
    bw_content b d = bw_content (e_wal e) (w_disk w) @ record_encode crc r \<and>
    (o_sync_wal (e_opts e) \<longrightarrow> bw_buf b = [] \<and> durable d (bw_path b) = files d (bw_path b))"
proof -
  obtain b1 d1 where a: "wal_append_record crc r (e_wal e, w_disk w) = (Inr (), (b1, d1))" "no_faults d1"
    "bw_content b1 d1 = bw_content (e_wal e) (w_disk w) @ record_encode crc r" "bw_path b1 = bw_path (e_wal e)"
    "only_file (bw_path (e_wal e)) (w_disk w) d1"
    using wal_append_record_total [OF nf] by blast
  obtain b2 d2 where f: "wal_flush (b1, d1) = (Inr (), (b2, d2))" "no_faults d2" "bw_buf b2 = []"
    "bw_content b2 d2 = bw_content b1 d1" "bw_path b2 = bw_path b1" "only_file (bw_path b1) d1 d2"
    "durable d2 (bw_path b1) = files d2 (bw_path b1)"
    using wal_flush_total [OF a(2)] by blast
  show ?thesis
  proof (cases "o_sync_wal (e_opts e)")
    case True
    have "only_file (bw_path (e_wal e)) (w_disk w) d2"
      using a(4,5) f(6) by (auto intro: only_file_trans)
    then show ?thesis
      using True a f by (intro exI [of _ b2] exI [of _ d2])
        (simp add: on_wal_eq [where m = "wal_append_record crc r", OF a(1)] on_wal_eq [where m = wal_flush])
  next
    case False
    then show ?thesis
      using a by (intro exI [of _ b1] exI [of _ d1])
        (simp add: on_wal_eq [where m = "wal_append_record crc r", OF a(1)])
  qed
qed

lemma mem_put_eq:
  assumes "mt_put k v (e_mem e, w_rng w) = Inr (m, rng)"
  shows "st_bind (mem_put k v) f (e, w) = f () (e\<lparr>e_mem := m\<rparr>, w\<lparr>w_rng := rng\<rparr>)"
  using assms by (simp add: st_bind_def mem_put_def)

text \<open>A write up to its flush: the record is in the log (durable when \<open>sync_wal\<close> is set), the value in
  the memtable, nothing else has changed.\<close>

lemma log_and_apply_spec:
  assumes inv: "mt_inv (e_mem e)" and imm: "immutable (e_mem e) = None" and nf: "no_faults (w_disk w)"
  shows "\<exists>b m d. log_and_apply (wal_append_record crc r) key enc metric (e, w) =
      maybe_flush (e\<lparr>e_wal := b, e_mem := m, e_metrics := metric (e_metrics e)\<rparr>,
        w\<lparr>w_disk := d, w_rng := xorshift (w_rng w)\<rparr>) \<and>
    no_faults d \<and> bw_path b = bw_path (e_wal e) \<and> only_file (bw_path (e_wal e)) (w_disk w) d \<and>
    bw_content b d = bw_content (e_wal e) (w_disk w) @ record_encode crc r \<and>
    (o_sync_wal (e_opts e) \<longrightarrow> bw_buf b = [] \<and> durable d (bw_path b) = files d (bw_path b)) \<and>
    mt_inv m \<and> mt_lookup m = (mt_lookup (e_mem e))(key \<mapsto> enc) \<and>
    (case immutable m of
       None \<Rightarrow> sl_contents (active m) = bt_insert key enc (sl_contents (active (e_mem e)))
     | Some l \<Rightarrow> sl_contents (active m) = [] \<and> sl_contents l = bt_insert key enc (sl_contents (active (e_mem e))))"
proof -
  obtain b d where log: "\<And>rest :: unit \<Rightarrow> unit eprog. st_bind (on_wal (wal_append_record crc r)) (\<lambda>_. st_bind (e_gets (\<lambda>e. o_sync_wal (e_opts e)))
        (\<lambda>sync. st_bind (if sync then on_wal wal_flush else st_return ()) rest)) (e, w) =
      rest () (e\<lparr>e_wal := b\<rparr>, w\<lparr>w_disk := d\<rparr>)"
    "no_faults d" "bw_path b = bw_path (e_wal e)" "only_file (bw_path (e_wal e)) (w_disk w) d"
    "bw_content b d = bw_content (e_wal e) (w_disk w) @ record_encode crc r"
    "o_sync_wal (e_opts e) \<longrightarrow> bw_buf b = [] \<and> durable d (bw_path b) = files d (bw_path b)"
    using log_step [OF nf, of crc r e] by auto
  obtain m where m: "mt_put key enc (e_mem e, w_rng w) = Inr (m, xorshift (w_rng w))" "mt_inv m"
    "mt_lookup m = (mt_lookup (e_mem e))(key \<mapsto> enc)" "max_size m = max_size (e_mem e)"
    "case immutable m of None \<Rightarrow> sl_contents (active m) = bt_insert key enc (sl_contents (active (e_mem e)))
     | Some l \<Rightarrow> sl_contents (active m) = [] \<and> sl_contents l = bt_insert key enc (sl_contents (active (e_mem e)))"
    using mt_put_frozen [OF inv imm, of key enc "w_rng w"] by blast
  have "log_and_apply (wal_append_record crc r) key enc metric (e, w) =
      maybe_flush (e\<lparr>e_wal := b, e_mem := m, e_metrics := metric (e_metrics e)\<rparr>,
        w\<lparr>w_disk := d, w_rng := xorshift (w_rng w)\<rparr>)"
    using m(1) by (simp add: log_and_apply_def log(1) mem_put_eq)
  then show ?thesis using log(2-) m by blast
qed

end
