(* ===== verification/EngineCompact.thy ===== *)
theory EngineCompact
  imports EngineWrites "HOL-Library.Multiset"
begin

text \<open>
  Compaction (\<open>Engine::compact_level\<close>): what a run without failing system calls does to the readers, the
  manifest and the files, and when the map the engine stands for survives it. The entries of the inputs
  are merged, dead values are dropped, and the output becomes the newest reader.
\<close>

subsection \<open>Merging the inputs\<close>

text \<open>The tables of the list \<open>ids\<close>, in that order.\<close>

definition tables_of :: "table list \<Rightarrow> u64 list \<Rightarrow> table list" where
  "tables_of ts ids = concat (map (\<lambda>i. filter (\<lambda>t. tid t = i) ts) ids)"

lemma tables_of_simps [simp]:
  "tables_of ts [] = []"
  "tables_of ts (i # ids) = filter (\<lambda>t. tid t = i) ts @ tables_of ts ids"
  "tables_of ts (xs @ ys) = tables_of ts xs @ tables_of ts ys"
  by (simp_all add: tables_of_def)

lemma set_tables_of [simp]: "set (tables_of ts ids) = {t \<in> set ts. tid t \<in> set ids}"
  by (induction ids) auto

lemma filter_tid_find:
  assumes "distinct (map tid ts)"
  shows "filter (\<lambda>t. tid t = i) ts = (case find (\<lambda>t. tid t = i) ts of None \<Rightarrow> [] | Some t \<Rightarrow> [t])"
  using assms
proof (induction ts)
  case (Cons t ts)
  show ?case
  proof (cases "tid t = i")
    case True
    then have "i \<notin> tid ` set ts" using Cons.prems by simp
    then have "filter (\<lambda>t. tid t = i) ts = []" by (metis (mono_tags, lifting) filter_False imageI)
    then show ?thesis using True by simp
  qed (use Cons in simp)
qed simp

lemma find_open_of:
  "find (\<lambda>(m, r). meta_id m = i) (map open_of ts) = map_option open_of (find (\<lambda>t. tid t = i) ts)"
  by (induction ts) (auto simp: open_of_def tid_def)

definition merged :: "table list \<Rightarrow> entry list \<Rightarrow> entry list" where
  "merged ts acc = fold (\<lambda>t. bt_extend (tentries t)) ts acc"

lemma merged_simps [simp]:
  "merged [] acc = acc" "merged (t # ts) acc = merged ts (bt_extend (tentries t) acc)"
  "merged (ts @ us) acc = merged us (merged ts acc)"
  by (simp_all add: merged_def)

lemma merged_spec:
  assumes "tables_ok tbl ts" "sorted_keys acc"
  shows "sorted_keys (merged ts acc)" "map_of (merged ts acc) = map_of acc ++ table_lookup ts"
proof -
  have "sorted_keys (merged ts acc) \<and> map_of (merged ts acc) = map_of acc ++ table_lookup ts"
    using assms
  proof (induction ts arbitrary: acc)
    case (Cons t ts)
    then show ?case
      using tables_sorted [OF Cons.prems(1), of t] by (simp add: map_of_bt_extend_sorted map_add_assoc)
  qed simp
  then show "sorted_keys (merged ts acc)" "map_of (merged ts acc) = map_of acc ++ table_lookup ts" by simp_all
qed

lemma merge_tables_spec:
  assumes "tables_ok tbl ts" "distinct (map tid ts)" "e_readers e = map open_of ts" "cache_ok tbl (e_cache e)"
  shows "\<exists>c. merge_tables ids acc (e, w) = (Inr (merged (tables_of ts ids) acc), (e\<lparr>e_cache := c\<rparr>, w)) \<and> cache_ok tbl c"
  using assms(3,4)
proof (induction ids arbitrary: e acc)
  case Nil
  then show ?case by (auto simp: st_return_def intro!: exI [of _ "e_cache e"])
next
  case (Cons i ids)
  show ?case
  proof (cases "find (\<lambda>t. tid t = i) ts")
    case None
    then show ?thesis
      using Cons filter_tid_find [OF assms(2), of i] by (simp add: find_open_of)
  next
    case (Some t)
    then have "t \<in> set ts" by (auto simp: find_Some_iff)
    then have good: "sst_good (tentries t) (snd t)" "tbl (tid t) = Some (snd t)"
      using assms(1) by (auto simp: tables_ok_def)
    obtain c where c: "SSTableReader.sst_iter (opened (snd t) (tid t)) (e_cache e) = (Inr (tentries t), c)" "cache_ok tbl c"
      using sst_iter_spec [OF good Cons.prems(2)] by blast
    have step: "on_cache (SSTableReader.sst_iter (opened (snd t) (tid t))) (e, w) = (Inr (tentries t), (e\<lparr>e_cache := c\<rparr>, w))"
      using c(1) by (simp add: on_cache_def)
    obtain c' where "merge_tables ids (bt_extend (tentries t) acc) (e\<lparr>e_cache := c\<rparr>, w) =
        (Inr (merged (tables_of ts ids) (bt_extend (tentries t) acc)), (e\<lparr>e_cache := c'\<rparr>, w))" "cache_ok tbl c'"
      using Cons.IH [of "e\<lparr>e_cache := c\<rparr>" "bt_extend (tentries t) acc"] Cons.prems c(2) by auto
    then show ?thesis
      using Some step Cons.prems(1) filter_tid_find [OF assms(2), of i]
      by (auto simp: find_open_of open_of_def [of t] st_bind_def [of "on_cache _"])
  qed
qed

lemma retain_live_const:
  assumes "\<forall>n. w_clock w n = now"
  shows "\<exists>k. retain_live es w = (Inr (filter (\<lambda>e. unpack_value now (snd e) \<noteq> None) es), w\<lparr>w_ticks := k\<rparr>)"
  using assms
proof (induction es arbitrary: w)
  case Nil
  then show ?case by (auto simp: st_return_def intro!: exI [of _ "w_ticks w"])
next
  case (Cons e es)
  obtain t where t: "value_now (snd e) w = (Inr t, w\<lparr>w_ticks := w_ticks w + value_reads (snd e)\<rparr>)"
    "compact_retain t (snd e) = compact_retain now (snd e)"
    using value_now_eq [of "snd e" w] Cons.prems by auto
  obtain k where "retain_live es (w\<lparr>w_ticks := w_ticks w + value_reads (snd e)\<rparr>) =
      (Inr (filter (\<lambda>e. unpack_value now (snd e) \<noteq> None) es), w\<lparr>w_ticks := k\<rparr>)"
    using Cons.IH [of "w\<lparr>w_ticks := w_ticks w + value_reads (snd e)\<rparr>"] Cons.prems by auto
  then show ?case using t by (auto simp: st_bind_def st_return_def compact_retain_iff)
qed

subsection \<open>Dropping the inputs\<close>

definition remove_ssts :: "u64 list \<Rightarrow> manifest \<Rightarrow> manifest" where
  "remove_ssts ids mf = fold (\<lambda>i mf. snd (remove_sst i mf)) ids mf"

lemma level_ids_disjoint_filter:
  "level_ids_disjoint mf \<Longrightarrow> level_ids_disjoint (mf\<lparr>levels := map (filter P) (levels mf)\<rparr>)"
  by (auto simp: level_ids_disjoint_def sorted_wrt_map ids_of_def elim!: sorted_wrt_mono_rel [rotated])

lemma remove_ssts_spec:
  "level_ids_disjoint mf \<Longrightarrow>
     remove_ssts ids mf = mf\<lparr>levels := map (filter (\<lambda>m. meta_id m \<notin> set ids)) (levels mf)\<rparr>"
proof (induction ids arbitrary: mf)
  case Nil
  then show ?case by (simp add: remove_ssts_def map_idI)
next
  case (Cons i ids)
  have "remove_ssts (i # ids) mf = remove_ssts ids (mf\<lparr>levels := map (filter (\<lambda>m. meta_id m \<noteq> i)) (levels mf)\<rparr>)"
    using remove_sst_spec [OF Cons.prems, of i] by (simp add: remove_ssts_def)
  then show ?case
    using Cons.IH [OF level_ids_disjoint_filter [OF Cons.prems]] by (simp add: conj_commute)
qed

lemma remove_file_ignored:
  assumes "no_faults d"
  shows "\<exists>d'. st_ignore (remove_file p) d = (Inr (), d') \<and> only_file p d d' \<and> files d' p = None \<and> no_faults d'"
  using assms
  by (auto simp: st_ignore_def remove_file_def fault_now_def no_faults_def only_file_def split: option.splits)

lemma st_ignore_in_disk: "st_ignore (in_disk m) = in_disk (st_ignore m)"
  by (auto simp: st_ignore_def in_disk_def on_world_def on_disk_def split: prod.splits)

lemma drop_table_total:
  assumes "no_faults (w_disk w)"
  shows "\<exists>d. drop_table i (e, w) = (Inr (), (e\<lparr>e_manifest := snd (remove_sst i (e_manifest e)),
      e_readers := filter (\<lambda>(m, r). meta_id m \<noteq> i) (e_readers e)\<rparr>, w\<lparr>w_disk := d\<rparr>)) \<and>
    only_file (sst_path (e_path e) i) (w_disk w) d \<and> files d (sst_path (e_path e) i) = None \<and> no_faults d"
proof -
  obtain d where "st_ignore (remove_file (sst_path (e_path e) i)) (w_disk w) = (Inr (), d)"
    "only_file (sst_path (e_path e) i) (w_disk w) d" "files d (sst_path (e_path e) i) = None" "no_faults d"
    using remove_file_ignored [OF assms] by blast
  then show ?thesis by (auto simp: drop_table_def st_ignore_in_disk)
qed

lemma drop_tables_total:
  assumes "no_faults (w_disk w)"
  shows "\<exists>d. st_for ids drop_table (e, w) = (Inr (), (e\<lparr>e_manifest := remove_ssts ids (e_manifest e),
      e_readers := filter (\<lambda>(m, r). meta_id m \<notin> set ids) (e_readers e)\<rparr>, w\<lparr>w_disk := d\<rparr>)) \<and>
    (\<forall>q. files d q = (if q \<in> sst_path (e_path e) ` set ids then None else files (w_disk w) q)) \<and> no_faults d"
  using assms
proof (induction ids arbitrary: e w)
  case Nil
  have "filter (\<lambda>(m, r). True) xs = xs" for xs :: "(sst_meta \<times> reader) list" by (induction xs) auto
  then show ?case
    using Nil by (intro exI [of _ "w_disk w"]) (simp add: st_return_def remove_ssts_def)
next
  case (Cons i ids)
  let ?e = "e\<lparr>e_manifest := snd (remove_sst i (e_manifest e)), e_readers := filter (\<lambda>(m, r). meta_id m \<noteq> i) (e_readers e)\<rparr>"
  obtain d1 where d1: "drop_table i (e, w) = (Inr (), (?e, w\<lparr>w_disk := d1\<rparr>))"
    "only_file (sst_path (e_path e) i) (w_disk w) d1" "files d1 (sst_path (e_path e) i) = None" "no_faults d1"
    using drop_table_total [OF Cons.prems] by blast
  obtain d2 where d2: "st_for ids drop_table (?e, w\<lparr>w_disk := d1\<rparr>) = (Inr (), (?e\<lparr>e_manifest := remove_ssts ids (e_manifest ?e),
      e_readers := filter (\<lambda>(m, r). meta_id m \<notin> set ids) (e_readers ?e)\<rparr>, w\<lparr>w_disk := d2\<rparr>))"
    "\<forall>q. files d2 q = (if q \<in> sst_path (e_path e) ` set ids then None else files d1 q)" "no_faults d2"
    using Cons.IH [of "w\<lparr>w_disk := d1\<rparr>" ?e] d1(4) by auto
  have "filter (\<lambda>(m, r). meta_id m \<notin> set ids) (filter (\<lambda>(m, r). meta_id m \<noteq> i) rs) =
      filter (\<lambda>(m, r). meta_id m \<notin> set (i # ids)) rs" for rs :: "(sst_meta \<times> reader) list"
    by (induction rs) auto
  then have "st_for (i # ids) drop_table (e, w) = (Inr (), (e\<lparr>e_manifest := remove_ssts (i # ids) (e_manifest e),
      e_readers := filter (\<lambda>(m, r). meta_id m \<notin> set (i # ids)) (e_readers e)\<rparr>, w\<lparr>w_disk := d2\<rparr>))"
    using d2(1) by (simp add: st_bind_eq(1) [where m = "drop_table i", OF d1(1)] remove_ssts_def)
  moreover have "files d2 q = (if q \<in> sst_path (e_path e) ` set (i # ids) then None else files (w_disk w) q)" for q
    using d2(2) d1(3) only_fileD [OF d1(2), of q] by auto
  ultimately show ?case using d2(3) by blast
qed

subsection \<open>The shape of the tree\<close>

text \<open>The readers stand in the order of the manifest, deepest level first and oldest first in a level; this is
  the order in which the engine creates tables, and what \<open>get\<close> relies on.\<close>

definition in_order :: "table list \<Rightarrow> engine \<Rightarrow> bool" where
  "in_order ts e \<longleftrightarrow> map fst ts = concat (rev (levels (e_manifest e)))"

lemma distinct_concat_ids:
  "distinct (map meta_id (concat ls)) \<Longrightarrow> sorted_wrt (\<lambda>l l'. ids_of l \<inter> ids_of l' = {}) ls"
  by (induction ls) (auto simp: ids_of_def)

lemma distinct_ids_rev:
  "distinct (map meta_id (concat (rev ls))) \<longleftrightarrow> distinct (map meta_id (concat ls))"
proof -
  have "mset (map meta_id (concat (rev ls))) = mset (map meta_id (concat ls))"
    by (induction ls) (simp_all add: union_commute)
  then show ?thesis by (metis mset_eq_imp_distinct_iff)
qed

lemma map_tid: "map tid ts = map meta_id (map fst ts)"
  by (simp add: tid_def)

lemma in_order_ids:
  assumes "eng_ok tbl ts e" "in_order ts e"
  shows "distinct (map meta_id (concat (levels (e_manifest e))))" "level_ids_disjoint (e_manifest e)"
    "set (map meta_id (concat (levels (e_manifest e)))) = tid ` set ts"
    "e_next_sst e \<notin> set (map meta_id (concat (levels (e_manifest e))))"
proof -
  note o = eng_okD [OF assms(1)]
  have eq: "map tid ts = map meta_id (concat (rev (levels (e_manifest e))))"
    using assms(2) by (simp only: map_tid in_order_def)
  then show d: "distinct (map meta_id (concat (levels (e_manifest e))))"
    using o(6) distinct_ids_rev by metis
  then show "level_ids_disjoint (e_manifest e)"
    unfolding level_ids_disjoint_def by (rule distinct_concat_ids)
  have "tid ` set ts = set (map tid ts)" by simp
  also have "\<dots> = set (map meta_id (concat (rev (levels (e_manifest e)))))" by (simp only: eq)
  finally show ids: "set (map meta_id (concat (levels (e_manifest e)))) = tid ` set ts" by simp
  have "tbl (e_next_sst e) = None" using o(5) [of "e_next_sst e"] by (cases "tbl (e_next_sst e)") simp_all
  then show "e_next_sst e \<notin> set (map meta_id (concat (levels (e_manifest e))))"
    using ids tables_known [OF o(3)] by simp
qed

lemma ids_disjoint_update:
  assumes "sorted_wrt (\<lambda>l l'. ids_of l \<inter> ids_of l' = {}) ls" "lvl < length ls" "\<forall>j < length ls. meta_id m \<notin> ids_of (ls ! j)"
  shows "sorted_wrt (\<lambda>l l'. ids_of l \<inter> ids_of l' = {}) (ls[lvl := ls ! lvl @ [m]])"
  using assms by (auto simp: sorted_wrt_iff_nth_less nth_list_update ids_of_def)

lemma add_sst_ids_disjoint:
  assumes "level_ids_disjoint mf" "meta_id m \<notin> set (map meta_id (concat (levels mf)))"
  shows "level_ids_disjoint (add_sst lvl m mf)"
proof -
  let ?ls = "levels mf @ replicate (Suc lvl - length (levels mf)) []"
  have disj: "sorted_wrt (\<lambda>l l'. ids_of l \<inter> ids_of l' = {}) ?ls"
    using assms(1) by (auto simp: level_ids_disjoint_def sorted_wrt_append ids_of_def)
      (auto simp: sorted_wrt_iff_nth_less)
  have fresh: "meta_id m \<notin> ids_of (?ls ! j)" if "j < length ?ls" for j
    using that assms(2) nth_mem [of j ?ls] by (force simp: ids_of_def)
  show ?thesis
    using ids_disjoint_update [OF disj _ allI, of lvl m] fresh
    by (simp add: level_ids_disjoint_def add_sst_def Let_def)
qed

lemma ssts_at_level_set: "m \<in> set (ssts_at_level mf l) \<Longrightarrow> m \<in> set (concat (levels mf))"
  by (auto simp: ssts_at_level_def split: if_splits)

text \<open>What goes into a compaction of level \<open>l\<close>.\<close>

definition src_metas :: "engine \<Rightarrow> nat \<Rightarrow> sst_meta list" where
  "src_metas e l = ssts_at_level (e_manifest e) l"

definition dst_metas :: "engine \<Rightarrow> nat \<Rightarrow> sst_meta list" where
  "dst_metas e l = filter (overlapping (Min (set (map min_key (src_metas e l)))) (Max (set (map max_key (src_metas e l)))))
     (ssts_at_level (e_manifest e) (l + 1))"

definition input_ids :: "engine \<Rightarrow> nat \<Rightarrow> u64 list" where
  "input_ids e l = map meta_id (dst_metas e l @ src_metas e l)"

definition inputs :: "table list \<Rightarrow> engine \<Rightarrow> nat \<Rightarrow> table list" where
  "inputs ts e l = tables_of ts (input_ids e l)"

definition others :: "table list \<Rightarrow> engine \<Rightarrow> nat \<Rightarrow> table list" where
  "others ts e l = filter (\<lambda>t. tid t \<notin> set (input_ids e l)) ts"

definition live_entries :: "u64 \<Rightarrow> table list \<Rightarrow> engine \<Rightarrow> nat \<Rightarrow> entry list" where
  "live_entries now ts e l = filter (\<lambda>e. unpack_value now (snd e) \<noteq> None) (merged (inputs ts e l) [])"

lemma inputs_ok: "tables_ok tbl ts \<Longrightarrow> tables_ok tbl (inputs ts e l)" "tables_ok tbl ts \<Longrightarrow> tables_ok tbl (others ts e l)"
  by (auto simp: inputs_def others_def tables_ok_def)

lemma live_entries_spec:
  assumes "tables_ok tbl ts"
  shows "sorted_keys (live_entries now ts e l)"
    "map_of (live_entries now ts e l) k = (case table_lookup (inputs ts e l) k of
       None \<Rightarrow> None | Some v \<Rightarrow> if unpack_value now v \<noteq> None then Some v else None)"
  using merged_spec [OF inputs_ok(1) [OF assms], of "[]" e l]
  by (simp_all add: live_entries_def sorted_keys_filter map_of_filter_entry split: option.splits)

subsection \<open>One compaction\<close>

definition out_meta :: "engine \<Rightarrow> nat \<Rightarrow> entry list \<Rightarrow> sst_meta" where
  "out_meta e dst es = sst_meta_new (e_next_sst e) dst (fst (hd es)) (fst (last es))"

definition out_tables :: "engine \<Rightarrow> nat \<Rightarrow> entry list \<Rightarrow> block list \<Rightarrow> table list" where
  "out_tables e dst es bs = (if es = [] then [] else [(out_meta e dst es, bs)])"

definition with_output :: "engine \<Rightarrow> nat \<Rightarrow> entry list \<Rightarrow> block list \<Rightarrow> engine" where
  "with_output e dst es bs =
     (if es = [] then e
      else e\<lparr>e_next_sst := e_next_sst e + 1, e_manifest := add_sst dst (out_meta e dst es) (e_manifest e),
             e_readers := e_readers e @ [(out_meta e dst es, opened bs (e_next_sst e))]\<rparr>)"

lemma out_tables_simps [simp]:
  "map open_of (out_tables e dst es bs) = (if es = [] then [] else [(out_meta e dst es, opened bs (e_next_sst e))])"
  "map tid (out_tables e dst es bs) = (if es = [] then [] else [e_next_sst e])"
  by (simp_all add: out_tables_def open_of_def tid_def out_meta_def sst_meta_new_def)

lemma compact_output_total:
  assumes "no_faults (w_disk w)" "sorted_keys es" "sst_fits es" "unat (e_next_sst e) + 1 < 2 ^ 64"
  shows "\<exists>bs d. compact_output dst es (e, w) = (Inr (), (with_output e dst es bs, w\<lparr>w_disk := d\<rparr>)) \<and>
    (es \<noteq> [] \<longrightarrow> sst_good es bs) \<and> no_faults d \<and>
    (\<forall>q. files d q = (if es \<noteq> [] \<and> q = sst_path (e_path e) (e_next_sst e) then Some (sst_bytes bs) else files (w_disk w) q))"
proof (cases "es = []")
  case True
  then show ?thesis
    using assms(1) by (intro exI [of _ "[]"] exI [of _ "w_disk w"]) (simp add: compact_output_def with_output_def st_return_def)
next
  case False
  let ?e = "e\<lparr>e_next_sst := e_next_sst e + 1\<rparr>" and ?i = "e_next_sst e"
  obtain bs d where wt: "write_table ?i es (?e, w) = (Inr (opened bs ?i), (?e, w\<lparr>w_disk := d\<rparr>))"
    "sst_good es bs" "no_faults d" "only_file (sst_path (e_path e) ?i) (w_disk w) d"
    "files d (sst_path (e_path e) ?i) = Some (sst_bytes bs)"
    using write_table_total [OF assms(1-3), of ?i ?e] by auto
  have "compact_output dst es (e, w) = (Inr (), (with_output e dst es bs, w\<lparr>w_disk := d\<rparr>))"
    using False
    by (simp add: compact_output_def st_bind_eq(1) [where m = next_sst_id, OF next_sst_id_total [OF assms(4)]]
        st_bind_eq(1) [where m = "write_table ?i es", OF wt(1)] Let_def with_output_def out_meta_def)
  then show ?thesis using wt(2,3,5) only_fileD [OF wt(4)] False by (intro exI [of _ bs] exI [of _ d]) auto
qed

lemma with_output_same [simp]:
  "e_path (with_output e dst es bs) = e_path e" "e_mem (with_output e dst es bs) = e_mem e"
  "e_opts (with_output e dst es bs) = e_opts e" "e_wal (with_output e dst es bs) = e_wal e"
  "e_next_seq (with_output e dst es bs) = e_next_seq e" "e_cache (with_output e dst es bs) = e_cache e"
  "e_metrics (with_output e dst es bs) = e_metrics e"
  by (simp_all add: with_output_def)

lemma with_output_cache: "with_output (e\<lparr>e_cache := c\<rparr>) dst es bs = (with_output e dst es bs)\<lparr>e_cache := c\<rparr>"
  by (simp add: with_output_def out_meta_def)

text \<open>The engine after compacting level \<open>l\<close>: its inputs gone from the manifest and the readers.\<close>

definition compacted :: "engine \<Rightarrow> nat \<Rightarrow> entry list \<Rightarrow> block list \<Rightarrow> block_cache option \<Rightarrow> engine" where
  "compacted e l es bs c = (with_output e (l + 1) es bs)\<lparr>e_cache := c,
     e_manifest := remove_ssts (input_ids e l) (e_manifest (with_output e (l + 1) es bs)),
     e_readers := filter (\<lambda>(m, r). meta_id m \<notin> set (input_ids e l)) (e_readers (with_output e (l + 1) es bs)),
     e_metrics := (e_metrics e)\<lparr>m_compactions := m_compactions (e_metrics e) + 1\<rparr>\<rparr>"

lemma remove_ssts_cong:
  "level_ids_disjoint mf \<Longrightarrow> set is = set js \<Longrightarrow> remove_ssts is mf = remove_ssts js mf"
  by (simp add: remove_ssts_spec)

lemma with_output_disjoint:
  assumes "eng_ok tbl ts e" "in_order ts e"
  shows "level_ids_disjoint (e_manifest (with_output e dst es bs))"
  using in_order_ids [OF assms]
  by (auto simp: with_output_def out_meta_def sst_meta_new_def intro!: add_sst_ids_disjoint)

text \<open>A compaction up to the point where it saves the manifest: by then the files of its inputs are gone.\<close>

definition compact_front :: "nat \<Rightarrow> unit eprog" where
  "compact_front src =
     st_bind (e_gets (\<lambda>e. ssts_at_level (e_manifest e) src)) (\<lambda>src_metas.
     st_bind (st_lift (min_res (map min_key src_metas))) (\<lambda>lo.
     st_bind (st_lift (max_res (map max_key src_metas))) (\<lambda>hi.
     st_bind (e_gets (\<lambda>e. filter (overlapping lo hi) (ssts_at_level (e_manifest e) (src + 1)))) (\<lambda>dst_metas.
     let src_ids = map meta_id src_metas; dst_ids = map meta_id dst_metas in
     st_bind (merge_tables (dst_ids @ src_ids) []) (\<lambda>all.
     st_bind (on_world (retain_live all)) (\<lambda>live.
     st_bind (compact_output (src + 1) live) (\<lambda>_.
       st_for (src_ids @ dst_ids) drop_table)))))))"

lemma compact_level_split:
  "compact_level l = st_bind (compact_front l) (\<lambda>_. st_bind save_manifest (\<lambda>_.
     count_metric (\<lambda>m. m\<lparr>m_compactions := m_compactions m + 1\<rparr>)))"
  by (simp add: compact_level_def compact_front_def st_bind_assoc Let_def)

lemma compact_front_unfold:
  assumes "src_metas e l \<noteq> []"
  shows "compact_front l (e, w) =
    st_bind (merge_tables (map meta_id (dst_metas e l) @ map meta_id (src_metas e l)) []) (\<lambda>all.
    st_bind (on_world (retain_live all)) (\<lambda>live.
    st_bind (compact_output (l + 1) live) (\<lambda>_.
      st_for (map meta_id (src_metas e l) @ map meta_id (dst_metas e l)) drop_table))) (e, w)"
  using assms by (simp add: compact_front_def src_metas_def dst_metas_def min_res_def max_res_def Let_def)

lemma compact_front_total:
  assumes ok: "eng_ok tbl ts e" and ord: "in_order ts e" and nf: "no_faults (w_disk w)"
    and clk: "\<forall>n. w_clock w n = now" and src: "src_metas e l \<noteq> []"
    and fits: "sst_fits (live_entries now ts e l)" and ids: "unat (e_next_sst e) + 1 < 2 ^ 64"
  shows "\<exists>bs c d k. compact_front l (e, w) =
      (Inr (), ((compacted e l (live_entries now ts e l) bs c)\<lparr>e_metrics := e_metrics e\<rparr>, w\<lparr>w_disk := d, w_ticks := k\<rparr>)) \<and>
    (live_entries now ts e l \<noteq> [] \<longrightarrow> sst_good (live_entries now ts e l) bs) \<and> cache_ok tbl c \<and> no_faults d \<and>
    (\<forall>q. files d q =
       (if q \<in> sst_path (e_path e) ` set (input_ids e l) then None
        else if live_entries now ts e l \<noteq> [] \<and> q = sst_path (e_path e) (e_next_sst e) then Some (sst_bytes bs)
        else files (w_disk w) q))"
proof -
  note o = eng_okD [OF ok]
  let ?live = "live_entries now ts e l" and ?dir = "e_path e"
  let ?sids = "map meta_id (src_metas e l)" and ?dids = "map meta_id (dst_metas e l)"
  obtain c where mg: "merge_tables (?dids @ ?sids) [] (e, w) = (Inr (merged (inputs ts e l) []), (e\<lparr>e_cache := c\<rparr>, w))" "cache_ok tbl c"
    using merge_tables_spec [OF o(3,6,2,4), of "?dids @ ?sids" "[]" w] by (auto simp: inputs_def input_ids_def)
  let ?e1 = "e\<lparr>e_cache := c\<rparr>"
  obtain k where rt: "retain_live (merged (inputs ts e l) []) w = (Inr ?live, w\<lparr>w_ticks := k\<rparr>)"
    using retain_live_const [OF clk] unfolding live_entries_def by blast
  let ?w1 = "w\<lparr>w_ticks := k\<rparr>"
  obtain bs d1 where co: "compact_output (l + 1) ?live (?e1, ?w1) =
      (Inr (), (with_output ?e1 (l + 1) ?live bs, ?w1\<lparr>w_disk := d1\<rparr>))"
    "?live \<noteq> [] \<longrightarrow> sst_good ?live bs" "no_faults d1"
    "\<forall>q. files d1 q = (if ?live \<noteq> [] \<and> q = sst_path (e_path ?e1) (e_next_sst ?e1) then Some (sst_bytes bs) else files (w_disk ?w1) q)"
    using compact_output_total [of ?w1 ?live ?e1 "l + 1", OF _ live_entries_spec(1) [OF o(3)] fits] nf ids by fastforce
  let ?e2 = "with_output ?e1 (l + 1) ?live bs" and ?w2 = "?w1\<lparr>w_disk := d1\<rparr>"
  let ?e3 = "?e2\<lparr>e_manifest := remove_ssts (input_ids e l) (e_manifest ?e2),
      e_readers := filter (\<lambda>(m, r). meta_id m \<notin> set (input_ids e l)) (e_readers ?e2)\<rparr>"
  have set_ids: "set (?sids @ ?dids) = set (input_ids e l)" by (auto simp: input_ids_def)
  have rm: "remove_ssts (?sids @ ?dids) (e_manifest ?e2) = remove_ssts (input_ids e l) (e_manifest ?e2)"
    using with_output_disjoint [OF ok ord] set_ids by (intro remove_ssts_cong) (simp_all add: with_output_cache)
  obtain d2 where dr: "st_for (?sids @ ?dids) drop_table (?e2, ?w2) = (Inr (), (?e3, ?w2\<lparr>w_disk := d2\<rparr>))"
    "\<forall>q. files d2 q = (if q \<in> sst_path ?dir ` set (input_ids e l) then None else files d1 q)" "no_faults d2"
    using drop_tables_total [of ?w2 "?sids @ ?dids" ?e2] co(3) by (simp only: rm set_ids) auto
  have "compact_front l (e, w) = (Inr (), ((compacted e l ?live bs c)\<lparr>e_metrics := e_metrics e\<rparr>, ?w2\<lparr>w_disk := d2\<rparr>))"
    by (simp only: compact_front_unfold [OF src] st_bind_eq(1) [where m = "merge_tables (?dids @ ?sids) []", OF mg(1)]
        on_world_simps rt prod.case sum.case st_bind_eq(1) [where m = "compact_output (l + 1) ?live", OF co(1)] dr(1))
      (simp add: compacted_def with_output_cache)
  then show ?thesis using co(2,4) mg(2) dr(2,3)
    by (intro exI [of _ bs] exI [of _ c] exI [of _ d2] exI [of _ k]) simp
qed

lemma compact_level_total:
  assumes ok: "eng_ok tbl ts e" and ord: "in_order ts e" and nf: "no_faults (w_disk w)"
    and clk: "\<forall>n. w_clock w n = now" and src: "src_metas e l \<noteq> []"
    and fits: "sst_fits (live_entries now ts e l)" and ids: "unat (e_next_sst e) + 1 < 2 ^ 64"
  shows "\<exists>bs c d k. compact_level l (e, w) =
      (Inr (), (compacted e l (live_entries now ts e l) bs c, w\<lparr>w_disk := d, w_ticks := k\<rparr>)) \<and>
    (live_entries now ts e l \<noteq> [] \<longrightarrow> sst_good (live_entries now ts e l) bs) \<and> cache_ok tbl c \<and> no_faults d \<and>
    (\<forall>q. files d q =
       (if q = manifest_path (e_path e)
        then Some (manifest_encode (e_manifest (compacted e l (live_entries now ts e l) bs c)))
        else if q \<in> sst_path (e_path e) ` set (input_ids e l) then None
        else if live_entries now ts e l \<noteq> [] \<and> q = sst_path (e_path e) (e_next_sst e) then Some (sst_bytes bs)
        else files (w_disk w) q))"
proof -
  let ?live = "live_entries now ts e l" and ?dir = "e_path e"
  obtain bs c d k where f: "compact_front l (e, w) =
      (Inr (), ((compacted e l ?live bs c)\<lparr>e_metrics := e_metrics e\<rparr>, w\<lparr>w_disk := d, w_ticks := k\<rparr>))"
    "?live \<noteq> [] \<longrightarrow> sst_good ?live bs" "cache_ok tbl c" "no_faults d"
    "\<forall>q. files d q = (if q \<in> sst_path ?dir ` set (input_ids e l) then None
       else if ?live \<noteq> [] \<and> q = sst_path ?dir (e_next_sst e) then Some (sst_bytes bs) else files (w_disk w) q)"
    using compact_front_total [OF ok ord nf clk src fits ids] by blast
  let ?c = "compacted e l ?live bs c"
  let ?e = "?c\<lparr>e_metrics := e_metrics e\<rparr>" and ?w = "w\<lparr>w_disk := d, w_ticks := k\<rparr>"
  obtain d3 where sv: "save_manifest (?e, ?w) = (Inr (), (?e, ?w\<lparr>w_disk := d3\<rparr>))" "no_faults d3"
    "only_file (manifest_path ?dir) d d3" "files d3 (manifest_path ?dir) = Some (manifest_encode (e_manifest ?c))"
    using save_manifest_total [of ?w ?e] f(4) by (auto simp: compacted_def)
  have "compact_level l (e, w) = (Inr (), (?c, ?w\<lparr>w_disk := d3\<rparr>))"
    by (simp only: compact_level_split st_bind_eq(1) [where m = "compact_front l", OF f(1)]
        st_bind_eq(1) [where m = save_manifest, OF sv(1)]) (simp add: compacted_def)
  moreover have "files d3 q = (if q = manifest_path ?dir then Some (manifest_encode (e_manifest ?c))
      else if q \<in> sst_path ?dir ` set (input_ids e l) then None
      else if ?live \<noteq> [] \<and> q = sst_path ?dir (e_next_sst e) then Some (sst_bytes bs) else files (w_disk w) q)" for q
    using sv(4) only_fileD [OF sv(3), of q] f(5) by auto
  ultimately show ?thesis using f(2,3) sv(2)
    by (intro exI [of _ bs] exI [of _ c] exI [of _ d3] exI [of _ k]) simp
qed

subsection \<open>What a compaction preserves\<close>

lemma input_ids_known: "set (input_ids e l) \<subseteq> set (map meta_id (concat (levels (e_manifest e))))"
  using ssts_at_level_set by (fastforce simp: input_ids_def src_metas_def dst_metas_def)

lemma filter_open_of:
  "filter (\<lambda>(m, r). meta_id m \<notin> I) (map open_of ts) = map open_of (filter (\<lambda>t. tid t \<notin> I) ts)"
  by (induction ts) (auto simp: open_of_def tid_def)

lemma tentries_out: "es \<noteq> [] \<longrightarrow> sst_good es bs \<Longrightarrow> t \<in> set (out_tables e dst es bs) \<Longrightarrow> tentries t = es"
  by (auto simp: out_tables_def tentries_good split: if_splits)

lemma table_lookup_out: "es \<noteq> [] \<longrightarrow> sst_good es bs \<Longrightarrow> table_lookup (out_tables e dst es bs) = map_of es"
  by (auto simp: out_tables_def tentries_good)

definition compacted_tables :: "table list \<Rightarrow> engine \<Rightarrow> nat \<Rightarrow> entry list \<Rightarrow> block list \<Rightarrow> table list" where
  "compacted_tables ts e l es bs = others ts e l @ out_tables e (l + 1) es bs"

lemma compacted_ok:
  assumes ok: "eng_ok tbl ts e" and ord: "in_order ts e" and good: "es \<noteq> [] \<longrightarrow> sst_good es bs"
    and c: "cache_ok tbl c" and ids: "unat (e_next_sst e) + 1 < 2 ^ 64"
  shows "eng_ok (if es = [] then tbl else tbl(e_next_sst e \<mapsto> bs)) (compacted_tables ts e l es bs) (compacted e l es bs c)"
proof -
  note o = eng_okD [OF ok]
  have new: "tbl (e_next_sst e) = None" using o(5) [of "e_next_sst e"] by (cases "tbl (e_next_sst e)") simp_all
  have fresh: "e_next_sst e \<notin> set (input_ids e l)" "e_next_sst e \<notin> tid ` set ts"
    using in_order_ids(4) [OF ok ord] input_ids_known tables_known [OF o(3) new] by blast+
  have readers: "e_readers (compacted e l es bs c) = map open_of (compacted_tables ts e l es bs)"
    using o(2) fresh(1)
    by (auto simp: compacted_def with_output_def compacted_tables_def others_def filter_open_of out_meta_def sst_meta_new_def)
  have "distinct (map tid (others ts e l))"
    using o(6) by (simp add: others_def distinct_map_filter)
  then have "distinct (map tid (compacted_tables ts e l es bs))"
    using fresh(2) by (auto simp: compacted_tables_def others_def)
  moreover have "tables_ok (if es = [] then tbl else tbl(e_next_sst e \<mapsto> bs)) (compacted_tables ts e l es bs)"
    using o(3) new good
    by (auto simp: compacted_tables_def tables_ok_def others_def out_tables_def tentries_good tid_def out_meta_def sst_meta_new_def)
  moreover have "mt_inv (e_mem (compacted e l es bs c))" using o(1) by (simp add: compacted_def)
  moreover have "cache_ok (if es = [] then tbl else tbl(e_next_sst e \<mapsto> bs)) (e_cache (compacted e l es bs c))"
    using c new by (simp add: compacted_def cache_ok_extend)
  moreover have "i < e_next_sst (compacted e l es bs c)" if "(if es = [] then tbl else tbl(e_next_sst e \<mapsto> bs)) i \<noteq> None" for i
    using that o(5) [of i] less_succ_u64 [OF ids, of i] less_imp_le
    by (auto simp: compacted_def with_output_def split: if_splits)
  ultimately show ?thesis using readers by (simp add: eng_ok_def)
qed

definition in_range :: "table \<Rightarrow> bool" where
  "in_range t \<longleftrightarrow> min_key (fst t) \<le> max_key (fst t) \<and>
     (\<forall>k \<in> fst ` set (tentries t). min_key (fst t) \<le> k \<and> k \<le> max_key (fst t))"

definition apart :: "sst_meta \<Rightarrow> sst_meta \<Rightarrow> bool" where
  "apart m m' \<longleftrightarrow> max_key m < min_key m' \<or> max_key m' < min_key m"

lemma apart_sym: "apart m m' \<Longrightarrow> apart m' m"
  by (auto simp: apart_def)

lemma apart_keys:
  assumes "in_range t" "in_range u" "apart (fst t) (fst u)"
  shows "fst ` set (tentries t) \<inter> fst ` set (tentries u) = {}"
  using assms by (force simp: in_range_def apart_def)

lemma dom_table_lookup: "dom (table_lookup ts) = (\<Union>t \<in> set ts. fst ` set (tentries t))"
  by (induction ts) (auto simp: dom_map_of_conv_image_fst)

lemma table_lookup_partition:
  assumes "\<forall>t \<in> set ts. \<forall>u \<in> set ts. P t \<longrightarrow> \<not> P u \<longrightarrow> fst ` set (tentries t) \<inter> fst ` set (tentries u) = {}"
  shows "table_lookup ts = table_lookup (filter (\<lambda>t. \<not> P t) ts) ++ table_lookup (filter P ts)"
  using assms
proof (induction ts)
  case (Cons t ts)
  let ?N = "table_lookup (filter (\<lambda>t. \<not> P t) ts)" and ?Q = "table_lookup (filter P ts)"
  have IH: "table_lookup ts = ?N ++ ?Q" using Cons by simp
  show ?case
  proof (cases "P t")
    case True
    then have "dom (map_of (tentries t)) \<inter> dom ?N = {}"
      using Cons.prems unfolding dom_table_lookup dom_map_of_conv_image_fst list.set set_filter by blast
    then have "map_of (tentries t) ++ (?N ++ ?Q) = ?N ++ (map_of (tentries t) ++ ?Q)"
      by (metis map_add_comm map_add_assoc)
    then show ?thesis using True IH by simp
  next
    case False
    then show ?thesis using IH by simp
  qed
qed simp

lemma concat_rev_split:
  "concat (rev ls) = concat (rev (drop (Suc l) ls)) @ (if l < length ls then ls ! l else []) @ concat (rev (take l ls))"
proof (induction l arbitrary: ls)
  case 0
  show ?case by (cases ls) simp_all
next
  case (Suc l)
  show ?case
  proof (cases ls)
    case (Cons x xs)
    then show ?thesis using Suc [of xs] by (simp del: concat.simps)
  qed simp
qed

lemma levels_split:
  assumes "\<forall>j < l. ssts_at_level mf j = []"
  shows "concat (rev (levels mf)) = concat (rev (drop (l + 2) (levels mf))) @ ssts_at_level mf (l + 1) @ ssts_at_level mf l"
proof -
  have "concat (rev (take l (levels mf))) = []"
    using assms by (auto simp: ssts_at_level_def in_set_conv_nth split: if_splits)
  then show ?thesis
    using concat_rev_split [of "levels mf" l] concat_rev_split [of "drop (Suc l) (levels mf)" 0]
    by (auto simp: ssts_at_level_def)
qed

lemma filter_tid_self:
  assumes "distinct (map tid ts)" "u \<in> set ts"
  shows "filter (\<lambda>t. tid t = tid u) ts = [u]"
  using assms
proof (induction ts)
  case (Cons t ts)
  show ?case
  proof (cases "u = t")
    case True
    then have "tid u \<notin> tid ` set ts" using Cons.prems(1) by simp
    then have "filter (\<lambda>t. tid t = tid u) ts = []" by (metis (mono_tags, lifting) filter_False imageI)
    then show ?thesis using True by simp
  next
    case False
    then have "tid t \<noteq> tid u" using Cons.prems by (metis distinct.simps(2) imageI list.set_map list.simps(9) set_ConsD)
    then show ?thesis using False Cons by simp
  qed
qed simp

lemma tables_of_self:
  assumes "distinct (map tid ts)" "set us \<subseteq> set ts"
  shows "tables_of ts (map tid us) = us"
  using assms(2) by (induction us) (simp_all add: filter_tid_self [OF assms(1)])

text \<open>\<open>level_apart mf l\<close>: no two tables of level \<open>l\<close> overlap, as the engine maintains for every level below the first.\<close>

definition level_apart :: "manifest \<Rightarrow> nat \<Rightarrow> bool" where
  "level_apart mf l \<longleftrightarrow> (\<forall>m \<in> set (ssts_at_level mf l). \<forall>m' \<in> set (ssts_at_level mf l). m \<noteq> m' \<longrightarrow> apart m m')"

text \<open>The tables of the levels below the destination of a compaction of level \<open>l\<close>.\<close>

definition deeper :: "table list \<Rightarrow> engine \<Rightarrow> nat \<Rightarrow> table list" where
  "deeper ts e l = take (length (concat (drop (l + 2) (levels (e_manifest e))))) ts"

lemma tables_split:
  assumes "in_order ts e" "\<forall>j < l. ssts_at_level (e_manifest e) j = []"
  obtains B S where "ts = deeper ts e l @ B @ S" "map fst B = ssts_at_level (e_manifest e) (l + 1)" "map fst S = src_metas e l"
proof -
  let ?D = "concat (rev (drop (l + 2) (levels (e_manifest e))))"
  have "map fst ts = ?D @ ssts_at_level (e_manifest e) (l + 1) @ src_metas e l"
    using assms by (simp add: in_order_def levels_split [of l] src_metas_def)
  from iffD1 [OF map_eq_append_conv this] obtain A R where a: "ts = A @ R" "?D = map fst A"
    "ssts_at_level (e_manifest e) (l + 1) @ src_metas e l = map fst R" by blast
  from iffD1 [OF append_eq_map_conv a(3)] obtain B S where s: "R = B @ S"
    "ssts_at_level (e_manifest e) (l + 1) = map fst B" "src_metas e l = map fst S" by blast
  have "length ?D = length (concat (drop (l + 2) (levels (e_manifest e))))"
    by (simp only: length_concat rev_map [symmetric] sum_list_rev)
  then have "length A = length (concat (drop (l + 2) (levels (e_manifest e))))"
    by (metis a(2) length_map)
  then have "deeper ts e l = A" using a(1) by (simp add: deeper_def)
  then show ?thesis using a(1) s that by simp
qed

lemma inputs_others_split:
  assumes ok: "eng_ok tbl ts e" and ord: "in_order ts e" and low: "\<forall>j < l. ssts_at_level (e_manifest e) j = []"
  obtains A B S where "deeper ts e l = A" "ts = A @ B @ S" "map fst B = ssts_at_level (e_manifest e) (l + 1)"
    "map fst S = src_metas e l" "inputs ts e l = filter (\<lambda>t. fst t \<in> set (dst_metas e l)) B @ S"
    "others ts e l = A @ filter (\<lambda>t. fst t \<notin> set (dst_metas e l)) B"
proof -
  obtain A B S where A: "deeper ts e l = A" and ts: "ts = A @ B @ S"
    and s: "map fst B = ssts_at_level (e_manifest e) (l + 1)" "map fst S = src_metas e l"
    using tables_split [OF ord low] by metis
  let ?dst = "dst_metas e l" and ?B = "filter (\<lambda>t. fst t \<in> set (dst_metas e l)) B"
  have dist: "distinct (map tid ts)" using eng_okD(6) [OF ok] .
  have "map fst ?B = filter (\<lambda>m. m \<in> set ?dst) (map fst B)" by (simp add: filter_map comp_def)
  also have "\<dots> = ?dst" unfolding s(1) dst_metas_def by (rule filter_cong [OF refl]) simp
  finally have dst: "?dst = map fst ?B" by simp
  have ids: "input_ids e l = map tid (?B @ S)"
    by (subst map_tid) (simp only: input_ids_def dst [symmetric] s(2) map_append)
  have "set (?B @ S) \<subseteq> set ts" by (auto simp: ts)
  then have "inputs ts e l = ?B @ S"
    using tables_of_self [OF dist] by (simp only: inputs_def ids)
  moreover have "others ts e l = A @ filter (\<lambda>t. fst t \<notin> set ?dst) B"
  proof -
    have inj: "inj_on tid (set ts)" using dist by (metis distinct_map)
    have disj: "set A \<inter> set (B @ S) = {}" "set B \<inter> set S = {}"
      using dist by (auto simp: ts)
    have mem: "tid t \<in> set (input_ids e l) \<longleftrightarrow> t \<in> set ?B \<union> set S" if "t \<in> set ts" for t
      using that inj by (auto simp: ids ts dest: inj_onD)
    have "others ts e l = filter (\<lambda>t. t \<notin> set ?B \<union> set S) ts"
      unfolding others_def by (rule filter_cong [OF refl]) (simp only: mem)
    also have "\<dots> = A @ filter (\<lambda>t. fst t \<notin> set ?dst) B"
    proof -
      have "filter (\<lambda>t. t \<notin> set ?B \<union> set S) A = A"
        by (rule filter_True) (use disj in auto)
      moreover have "filter (\<lambda>t. t \<notin> set ?B \<union> set S) B = filter (\<lambda>t. fst t \<notin> set ?dst) B"
        by (rule filter_cong [OF refl]) (use disj in auto)
      moreover have "filter (\<lambda>t. t \<notin> set ?B \<union> set S) S = []"
        by (rule filter_False) auto
      ultimately show ?thesis by (simp only: ts filter_append append_Nil2)
    qed
    finally show ?thesis .
  qed
  ultimately show ?thesis using A ts s that by blast
qed

text \<open>The condition under which dropping dead values is safe: no deeper table shows a value for a key whose newest
  value among the inputs is dead.\<close>

definition nothing_below :: "u64 \<Rightarrow> table list \<Rightarrow> engine \<Rightarrow> nat \<Rightarrow> bool" where
  "nothing_below now ts e l \<longleftrightarrow> (\<forall>k v. table_lookup (inputs ts e l) k = Some v \<longrightarrow> unpack_value now v = None \<longrightarrow>
     Option.bind (table_lookup (deeper ts e l) k) (unpack_value now) = None)"

definition ranges_ok :: "table list \<Rightarrow> bool" where
  "ranges_ok ts \<longleftrightarrow> (\<forall>t \<in> set ts. in_range t)"

lemma overlapping_key:
  assumes "s \<in> set (src_metas e l)" "m \<in> set (ssts_at_level (e_manifest e) (l + 1))"
    "min_key s \<le> k" "k \<le> max_key s" "min_key m \<le> k" "k \<le> max_key m"
  shows "m \<in> set (dst_metas e l)"
proof -
  have "Min (set (map min_key (src_metas e l))) \<le> min_key s" "max_key s \<le> Max (set (map max_key (src_metas e l)))"
    using assms(1) by simp_all
  then have "Min (set (map min_key (src_metas e l))) \<le> max_key m" "min_key m \<le> Max (set (map max_key (src_metas e l)))"
    using assms(3-6) by (meson order_trans)+
  then show ?thesis using assms(2) by (simp add: dst_metas_def overlapping_def)
qed

lemma compaction_lookup:
  assumes ok: "eng_ok tbl ts e" and ord: "in_order ts e" and rng: "ranges_ok ts"
    and low: "\<forall>j < l. ssts_at_level (e_manifest e) j = []" and apart: "level_apart (e_manifest e) (l + 1)"
  shows "table_lookup ts = table_lookup (others ts e l) ++ table_lookup (inputs ts e l)"
    "k \<in> dom (table_lookup (inputs ts e l)) \<Longrightarrow> table_lookup (others ts e l) k = table_lookup (deeper ts e l) k"
proof -
  obtain A B S where A: "deeper ts e l = A" and ts: "ts = A @ B @ S" and B: "map fst B = ssts_at_level (e_manifest e) (l + 1)"
    and S: "map fst S = src_metas e l" and ins: "inputs ts e l = filter (\<lambda>t. fst t \<in> set (dst_metas e l)) B @ S"
    and oth: "others ts e l = A @ filter (\<lambda>t. fst t \<notin> set (dst_metas e l)) B"
    by (rule inputs_others_split [OF ok ord low])
  let ?P = "\<lambda>t :: table. fst t \<in> set (dst_metas e l)"
  have lvl: "fst t \<in> set (ssts_at_level (e_manifest e) (l + 1))" if "t \<in> set B" for t
    using that B by (metis imageI list.set_map)
  have r: "in_range t" if "t \<in> set B \<union> set S" for t using that rng by (auto simp: ranges_ok_def ts)
  have split: "fst ` set (tentries t) \<inter> fst ` set (tentries u) = {}" if "t \<in> set B" "u \<in> set B" "?P t" "\<not> ?P u" for t u
  proof -
    have "apart (fst t) (fst u)" using apart lvl [OF that(1)] lvl [OF that(2)] that(3,4) unfolding level_apart_def by metis
    then show ?thesis using apart_keys r that(1,2) by blast
  qed
  have src: "fst ` set (tentries s) \<inter> fst ` set (tentries u) = {}" if "s \<in> set S" "u \<in> set B" "\<not> ?P u" for s u
  proof -
    have "fst s \<in> set (src_metas e l)" using that(1) S by (metis imageI list.set_map)
    moreover have "in_range s" "in_range u" using r that by simp_all
    ultimately have "k \<notin> fst ` set (tentries u)" if "k \<in> fst ` set (tentries s)" for k
      using overlapping_key [OF _ lvl [OF \<open>u \<in> set B\<close>], of "fst s" k] that \<open>\<not> ?P u\<close>
      unfolding in_range_def by metis
    then show ?thesis by blast
  qed
  have "table_lookup B = table_lookup (filter (\<lambda>t. \<not> ?P t) B) ++ table_lookup (filter ?P B)"
    using split by (intro table_lookup_partition) blast
  then show "table_lookup ts = table_lookup (others ts e l) ++ table_lookup (inputs ts e l)"
    by (simp add: ts oth [unfolded ts] ins [unfolded ts] map_add_assoc)
  have "dom (table_lookup (filter (\<lambda>t. \<not> ?P t) B)) \<inter> dom (table_lookup (inputs ts e l)) = {}"
    unfolding dom_table_lookup ins set_append set_filter using split src by blast
  then show "k \<in> dom (table_lookup (inputs ts e l)) \<Longrightarrow> table_lookup (others ts e l) k = table_lookup (deeper ts e l) k"
    by (auto simp: oth A map_add_def disjoint_iff split: option.splits)
qed

lemma bind_unpack_mono:
  assumes "now \<le> later" "Option.bind x (unpack_value now) = None"
  shows "Option.bind x (unpack_value later) = None"
proof (cases x)
  case (Some v)
  then show ?thesis using assms unpack_value_mono [of now later v] by (cases "unpack_value later v") auto
qed simp

text \<open>A compaction keeps what a read sees, now and later (time only takes values away).\<close>

lemma compacted_view:
  assumes ok: "eng_ok tbl ts e" and ord: "in_order ts e" and rng: "ranges_ok ts"
    and low: "\<forall>j < l. ssts_at_level (e_manifest e) j = []" and apart: "level_apart (e_manifest e) (l + 1)"
    and below: "nothing_below now ts e l" and good: "live_entries now ts e l \<noteq> [] \<longrightarrow> sst_good (live_entries now ts e l) bs"
    and later: "now \<le> t"
  shows "view t (compacted_tables ts e l (live_entries now ts e l) bs) (compacted e l (live_entries now ts e l) bs c) k = view t ts e k"
proof (cases "mt_lookup (e_mem e) k")
  case (Some v)
  then show ?thesis by (simp add: view_def stored_def compacted_def)
next
  case None
  note look = compaction_lookup [OF ok ord rng low apart]
  let ?I = "table_lookup (inputs ts e l)" and ?O = "table_lookup (others ts e l)"
  have new: "stored (compacted_tables ts e l (live_entries now ts e l) bs) (compacted e l (live_entries now ts e l) bs c) k =
      (?O ++ map_of (live_entries now ts e l)) k"
    using None by (simp add: stored_def compacted_tables_def compacted_def table_lookup_out [OF good] map_add_def)
  have old: "stored ts e k = (?O ++ ?I) k" using None look(1) by (simp add: stored_def map_add_def)
  have live: "map_of (live_entries now ts e l) k =
      (case ?I k of None \<Rightarrow> None | Some v \<Rightarrow> if unpack_value now v \<noteq> None then Some v else None)"
    by (rule live_entries_spec(2) [OF eng_okD(3) [OF ok]])
  show ?thesis
  proof (cases "?I k")
    case None
    then show ?thesis using new old live by (simp add: view_def map_add_def)
  next
    case (Some v)
    show ?thesis
    proof (cases "unpack_value now v")
      case None
      then have hidden: "unpack_value t v = None" using bind_unpack_mono [OF later, of "Some v"] by simp
      have "?O k = table_lookup (deeper ts e l) k" using look(2) Some by blast
      moreover have "Option.bind (table_lookup (deeper ts e l) k) (unpack_value now) = None"
        using below Some None by (auto simp: nothing_below_def)
      ultimately have "Option.bind (?O k) (unpack_value t) = None"
        using bind_unpack_mono [OF later] by metis
      then show ?thesis using new old live Some None hidden by (simp add: view_def map_add_def)
    next
      case (Some x)
      then show ?thesis using new old live \<open>?I k = Some v\<close> by (simp add: view_def map_add_def)
    qed
  qed
qed

end
