(* ===== verification/EngineState.thy ===== *)
theory EngineState
  imports EngineCompact
begin

text \<open>
  The state of the whole engine between operations: memtable, tables, manifest, files and log belong
  together (\<open>sys_ok\<close>). Flushes and compactions keep it and the map that reads see.
\<close>

subsection \<open>Names of table files\<close>

lemma digit_val_digit [simp]: "d < 10 \<Longrightarrow> digit_val (digit d) = Some d"
  by (simp add: digit_val_def digit_def Let_def)

lemma parse_digits_snoc:
  "parse_digits (xs @ [c]) acc = (case parse_digits xs acc of
     None \<Rightarrow> None
   | Some a \<Rightarrow> (case digit_val c of None \<Rightarrow> None | Some d \<Rightarrow> if 2 ^ 64 \<le> a * 10 + d then None else Some (a * 10 + d)))"
  by (induction xs arbitrary: acc) (auto split: option.splits)

lemma parse_digits_dec: "n < 2 ^ 64 \<Longrightarrow> parse_digits (dec n) 0 = Some n"
proof (induction n rule: dec.induct)
  case (1 n)
  show ?case
  proof (cases "n < 10")
    case True
    then show ?thesis by (simp add: dec.simps [of n])
  next
    case False
    have "parse_digits (dec (n div 10)) 0 = Some (n div 10)" using 1 False by simp
    then show ?thesis using False 1(2) by (simp add: dec.simps [of n] parse_digits_snoc)
  qed
qed

lemma parse_digits_zeros: "parse_digits (replicate k CHR ''0'' @ s) 0 = parse_digits s 0"
  by (induction k) (simp_all add: digit_val_def)

lemma dec_not_Nil [simp]: "dec n \<noteq> []"
  by (simp add: dec.simps [of n])

lemma dec_digits: "c \<in> set (dec n) \<Longrightarrow> digit_val c \<noteq> None"
proof (induction n rule: dec.induct)
  case (1 n)
  then show ?case by (cases "n < 10") (auto simp: dec.simps [of n])
qed

lemma pad6_digits: "c \<in> set (pad6 (dec n)) \<Longrightarrow> digit_val c \<noteq> None"
  using dec_digits [of c n] by (auto simp: pad6_def) (simp add: digit_val_def)

lemma no_digits: "digit_val CHR ''+'' = None" "digit_val CHR ''t'' = None"
  by (simp_all add: digit_val_def)

lemma pad6_not_Nil [simp]: "pad6 (dec n) \<noteq> []"
  by (simp add: pad6_def)

lemma trim_sst_name: "trim_sst (pad6 (dec n) @ ''.sst'') = pad6 (dec n)"
proof -
  have "last (pad6 (dec n)) \<noteq> CHR ''t''"
    using pad6_digits [OF last_in_set [OF pad6_not_Nil], of n] no_digits(2) by metis
  then have "\<not> ends_with ''.sst'' (pad6 (dec n))"
  proof (rule contrapos_nn)
    assume "ends_with ''.sst'' (pad6 (dec n))"
    then have "drop (length (pad6 (dec n)) - 4) (pad6 (dec n)) = ''.sst''"
      by (simp add: ends_with_def numeral_eq_Suc)
    moreover have "last (drop (length (pad6 (dec n)) - 4) (pad6 (dec n))) = last (pad6 (dec n))"
      by (rule last_drop) (simp add: pad6_def)
    ultimately show "last (pad6 (dec n)) = CHR ''t''" by simp
  qed
  then have "trim_sst (pad6 (dec n)) = pad6 (dec n)" by (subst trim_sst.simps) simp
  moreover have "ends_with ''.sst'' (pad6 (dec n) @ ''.sst'')" by (simp add: ends_with_def)
  ultimately show ?thesis by (subst trim_sst.simps) simp
qed

lemma parse_sst_name: "parse_u64 (trim_sst (pad6 (dec (unat i)) @ ''.sst'')) = Some i"
proof -
  have "parse_digits (pad6 (dec (unat i))) 0 = Some (unat i)"
    using parse_digits_dec [of "unat i"] unsigned_less [of i, where ?'a = nat]
    by (simp add: pad6_def parse_digits_zeros)
  moreover have "hd (pad6 (dec (unat i))) \<noteq> CHR ''+''"
    using pad6_digits [OF hd_in_set [OF pad6_not_Nil], of "unat i"] no_digits(1) by metis
  moreover obtain c cs where "pad6 (dec (unat i)) = c # cs"
    using pad6_not_Nil [of "unat i"] by (cases "pad6 (dec (unat i))") blast+
  ultimately show ?thesis
    unfolding parse_u64_def trim_sst_name by (simp add: Let_def)
qed

lemma sst_path_inject [simp]: "sst_path dir i = sst_path dir j \<longleftrightarrow> i = j"
proof
  assume "sst_path dir i = sst_path dir j"
  then have "pad6 (dec (unat i)) @ ''.sst'' = pad6 (dec (unat j)) @ ''.sst''"
    by (simp add: sst_path_def)
  then show "i = j" using parse_sst_name by (metis option.inject)
qed simp

subsection \<open>Weights\<close>

text \<open>The \<open>u32\<close> offsets of an SSTable bound what a flush or a compaction may write; the weight of the entries
  only shrinks when they are merged or filtered.\<close>

definition weight :: "entry list \<Rightarrow> nat" where
  "weight es = sum_list (map entry_weight es)"

definition short_keys :: "entry list \<Rightarrow> bool" where
  "short_keys es \<longleftrightarrow> (\<forall>e \<in> set es. length (fst e) < 2 ^ 16)"

lemma sst_fits_weight: "sst_fits es \<longleftrightarrow> short_keys es \<and> 32 + weight es < 2 ^ 32"
  by (simp add: sst_fits_def weight_def short_keys_def)

lemma weight_simps [simp]:
  "weight [] = 0" "weight (e # es) = entry_weight e + weight es" "weight (es @ fs) = weight es + weight fs"
  by (simp_all add: weight_def)

lemma short_keys_simps [simp]:
  "short_keys []" "short_keys (e # es) \<longleftrightarrow> length (fst e) < 2 ^ 16 \<and> short_keys es"
  by (auto simp: short_keys_def)

lemma weight_filter: "weight (filter P es) \<le> weight es"
  by (induction es) auto

lemma short_keys_filter: "short_keys es \<Longrightarrow> short_keys (filter P es)"
  by (auto simp: short_keys_def)

lemma weight_bt_insert: "weight (bt_insert k v m) \<le> entry_weight (k, v) + weight m"
  by (induction m) auto

lemma short_keys_bt_insert: "length k < 2 ^ 16 \<Longrightarrow> short_keys m \<Longrightarrow> short_keys (bt_insert k v m)"
  by (induction m) auto

lemma weight_bt_extend: "weight (bt_extend es m) \<le> weight es + weight m"
proof (induction es arbitrary: m)
  case (Cons e es)
  obtain k v where "e = (k, v)" by (cases e)
  then show ?case using Cons [of "bt_insert k v m"] weight_bt_insert [of k v m] by simp
qed simp

lemma short_keys_bt_extend: "short_keys es \<Longrightarrow> short_keys m \<Longrightarrow> short_keys (bt_extend es m)"
  by (induction es arbitrary: m) (auto simp: short_keys_bt_insert)

definition tables_weight :: "table list \<Rightarrow> nat" where
  "tables_weight ts = sum_list (map (\<lambda>t. weight (tentries t)) ts)"

lemma tables_weight_simps [simp]:
  "tables_weight [] = 0" "tables_weight (t # ts) = weight (tentries t) + tables_weight ts"
  "tables_weight (ts @ us) = tables_weight ts + tables_weight us"
  by (simp_all add: tables_weight_def)

lemma weight_merged: "weight (merged ts acc) \<le> tables_weight ts + weight acc"
proof (induction ts arbitrary: acc)
  case (Cons t ts)
  show ?case using Cons [of "bt_extend (tentries t) acc"] weight_bt_extend [of "tentries t" acc] by simp
qed simp

lemma short_keys_merged: "\<forall>t \<in> set ts. short_keys (tentries t) \<Longrightarrow> short_keys acc \<Longrightarrow> short_keys (merged ts acc)"
  by (induction ts arbitrary: acc) (auto simp: short_keys_bt_extend)

text \<open>All tables have short keys, as they went through the builder.\<close>

lemma tables_short: "tables_ok tbl ts \<Longrightarrow> t \<in> set ts \<Longrightarrow> short_keys (tentries t)"
  using sst_goodD by (auto simp: tables_ok_def sst_fits_weight)

lemma tables_weight_filter: "tables_weight (filter P ts) + tables_weight (filter (\<lambda>t. \<not> P t) ts) = tables_weight ts"
  by (induction ts) auto

subsection \<open>The tree of tables\<close>

definition tree_ok :: "table list \<Rightarrow> engine \<Rightarrow> bool" where
  "tree_ok ts e \<longleftrightarrow> in_order ts e \<and> ranges_ok ts \<and> (\<forall>l \<ge> 1. level_apart (e_manifest e) l)"

text \<open>\<open>shallow mf\<close>: nothing lies below level 1, so that a compaction of level 0 may drop what is dead.\<close>

definition shallow :: "manifest \<Rightarrow> bool" where
  "shallow mf \<longleftrightarrow> (\<forall>l \<ge> 2. ssts_at_level mf l = [])"

lemma shallow_new [simp]: "shallow manifest_new"
  by (simp add: shallow_def ssts_at_level_def manifest_new_def)

lemma tree_okD:
  assumes "tree_ok ts e"
  shows "in_order ts e" "ranges_ok ts" "1 \<le> l \<Longrightarrow> level_apart (e_manifest e) l"
  using assms by (auto simp: tree_ok_def)

lemma sorted_keys_hd_last:
  assumes "sorted_keys es" "k \<in> fst ` set es"
  shows "fst (hd es) \<le> k" "k \<le> fst (last es)"
proof -
  have srt: "sorted (map fst es)" "k \<in> set (map fst es)" "es \<noteq> []"
    using assms by (auto simp: sorted_keys_def strict_sorted_iff)
  from srt show "fst (hd es) \<le> k" by (cases es) auto
  have "es = butlast es @ [last es]" using srt(3) by simp
  then have "map fst es = map fst (butlast es) @ [fst (last es)]" by (metis list.simps(8,9) map_append)
  with srt(1,2) show "k \<le> fst (last es)" by (auto simp: sorted_append)
qed

lemma in_range_whole:
  assumes "sorted_keys es" "es \<noteq> []" "tentries (m, bs) = es" "min_key m = fst (hd es)" "max_key m = fst (last es)"
  shows "in_range (m, bs)"
  using assms sorted_keys_hd_last [OF assms(1)] by (auto simp: in_range_def)

lemma concat_rev_add_sst: "concat (rev (levels (add_sst 0 m mf))) = concat (rev (levels mf)) @ [m]"
  by (cases "levels mf") (simp_all add: add_sst_def Let_def)

lemma flushed_tree:
  assumes "tree_ok ts e" "sst_good es bs" "es \<noteq> []"
  shows "tree_ok (ts @ [(flushed_meta e es, bs)]) (flushed e es bs)"
proof -
  note t = tree_okD [OF assms(1)]
  have "in_range (flushed_meta e es, bs)"
    using assms(3) sst_goodD(2) [OF assms(2)] tentries_good [OF assms(2)]
    by (intro in_range_whole) (simp_all add: flushed_meta_def sst_meta_new_def)
  moreover have "level_apart (e_manifest (flushed e es bs)) l" if "1 \<le> l" for l
    using t(3) [OF that] that by (simp add: level_apart_def flushed_def ssts_at_level_add)
  ultimately show ?thesis
    using t(1,2) by (simp add: tree_ok_def in_order_def ranges_ok_def flushed_def concat_rev_add_sst)
qed

lemma flushed_shallow: "shallow (e_manifest e) \<Longrightarrow> shallow (e_manifest (flushed e es bs))"
  by (simp add: shallow_def flushed_def ssts_at_level_add)

text \<open>The levels after a compaction.\<close>

lemma ssts_at_level_remove:
  "level_ids_disjoint mf \<Longrightarrow>
     ssts_at_level (remove_ssts ids mf) l = filter (\<lambda>m. meta_id m \<notin> set ids) (ssts_at_level mf l)"
  by (simp add: remove_ssts_spec ssts_at_level_def)

lemma compacted_level:
  assumes "eng_ok tbl ts e" "in_order ts e"
  shows "ssts_at_level (e_manifest (compacted e l es bs c)) j =
    filter (\<lambda>m. meta_id m \<notin> set (input_ids e l)) (ssts_at_level (e_manifest e) j) @
    (if j = l + 1 \<and> es \<noteq> [] then [out_meta e (l + 1) es] else [])"
proof -
  have "e_next_sst e \<notin> set (input_ids e l)"
    using in_order_ids(4) [OF assms] input_ids_known by blast
  then show ?thesis
    using with_output_disjoint [OF assms]
    by (simp add: compacted_def ssts_at_level_remove)
      (auto simp: with_output_def ssts_at_level_add out_meta_def sst_meta_new_def)
qed

lemma compacted_source_empty:
  assumes "eng_ok tbl ts e" "in_order ts e"
  shows "ssts_at_level (e_manifest (compacted e l es bs c)) l = []"
  by (simp add: compacted_level [OF assms] filter_empty_conv input_ids_def src_metas_def)

lemma drop_levels_add: "drop (l + 2) (levels (add_sst (l + 1) m mf)) = drop (l + 2) (levels mf)"
  by (simp add: add_sst_def Let_def)

lemma map_fst_others: "map fst (others ts e l) = filter (\<lambda>m. meta_id m \<notin> set (input_ids e l)) (map fst ts)"
  by (simp add: others_def tid_def filter_map comp_def)

lemma compacted_in_order:
  assumes ok: "eng_ok tbl ts e" and ord: "in_order ts e" and low: "\<forall>j < l. ssts_at_level (e_manifest e) j = []"
  shows "in_order (compacted_tables ts e l es bs) (compacted e l es bs c)"
proof -
  let ?I = "set (input_ids e l)" and ?mf = "e_manifest (compacted e l es bs c)"
  have low': "\<forall>j < l. ssts_at_level ?mf j = []" using low by (simp add: compacted_level [OF ok ord])
  have "levels ?mf = map (filter (\<lambda>m. meta_id m \<notin> ?I)) (levels (e_manifest (with_output e (l + 1) es bs)))"
    using with_output_disjoint [OF ok ord] by (simp add: compacted_def remove_ssts_spec)
  then have dr: "drop (l + 2) (levels ?mf) = map (filter (\<lambda>m. meta_id m \<notin> ?I)) (drop (l + 2) (levels (e_manifest e)))"
    using drop_levels_add [of l "out_meta e (l + 1) es" "e_manifest e"] by (simp add: drop_map with_output_def)
  have "concat (rev (levels ?mf)) = filter (\<lambda>m. meta_id m \<notin> ?I) (concat (rev (drop (l + 2) (levels (e_manifest e))))) @
      filter (\<lambda>m. meta_id m \<notin> ?I) (ssts_at_level (e_manifest e) (l + 1)) @ (if es \<noteq> [] then [out_meta e (l + 1) es] else [])"
    unfolding levels_split [OF low'] compacted_source_empty [OF ok ord] dr
    by (simp add: compacted_level [OF ok ord] filter_concat rev_map)
  moreover have "filter (\<lambda>m. meta_id m \<notin> ?I) (ssts_at_level (e_manifest e) l) = []"
    by (simp add: filter_empty_conv input_ids_def src_metas_def)
  then have "map fst (others ts e l) = filter (\<lambda>m. meta_id m \<notin> ?I) (concat (rev (drop (l + 2) (levels (e_manifest e))))) @
      filter (\<lambda>m. meta_id m \<notin> ?I) (ssts_at_level (e_manifest e) (l + 1))"
    using ord levels_split [OF low] map_fst_others [of ts e l] by (simp add: in_order_def)
  moreover have "map fst (out_tables e (l + 1) es bs) = (if es \<noteq> [] then [out_meta e (l + 1) es] else [])"
    by (simp add: out_tables_def)
  ultimately show ?thesis by (simp add: in_order_def compacted_tables_def)
qed

text \<open>The tables left at the destination level stay apart from the new one: the inputs form one interval.\<close>

lemma output_apart:
  assumes m: "m \<in> set (ssts_at_level (e_manifest e) (l + 1))" "m \<notin> set (dst_metas e l)" "min_key m \<le> max_key m"
    and apart: "level_apart (e_manifest e) (l + 1)" and src: "src_metas e l \<noteq> []"
    and valid: "\<forall>s \<in> set (src_metas e l). min_key s \<le> max_key s"
    and lo: "\<exists>i \<in> set (dst_metas e l) \<union> set (src_metas e l). min_key i \<le> a \<and> a \<le> max_key i"
    and hi: "\<exists>i \<in> set (dst_metas e l) \<union> set (src_metas e l). min_key i \<le> b \<and> b \<le> max_key i"
  shows "max_key m < a \<and> max_key m < b \<or> b < min_key m \<and> a < min_key m"
proof -
  let ?lo = "Min (set (map min_key (src_metas e l)))" and ?hi = "Max (set (map max_key (src_metas e l)))"
  have s: "?lo \<le> min_key s" "max_key s \<le> ?hi" if "s \<in> set (src_metas e l)" for s using that by simp_all
  obtain s0 where s0: "s0 \<in> set (src_metas e l)" using src by (cases "src_metas e l") auto
  have lohi: "?lo \<le> ?hi" using s [OF s0] valid s0 by (meson order_trans)
  have out: "?hi < min_key m \<or> max_key m < ?lo"
    using m(1,2) by (auto simp: dst_metas_def overlapping_def not_le)
  have d: "?lo \<le> max_key i \<and> min_key i \<le> ?hi \<and> apart i m" if "i \<in> set (dst_metas e l)" for i
  proof -
    have "i \<in> set (ssts_at_level (e_manifest e) (l + 1))" "i \<noteq> m" using that m(2) by (auto simp: dst_metas_def)
    then have "apart i m" using apart m(1) unfolding level_apart_def by blast
    then show ?thesis using that by (simp add: dst_metas_def overlapping_def)
  qed
  from out show ?thesis
  proof
    assume above: "?hi < min_key m"
    have "x < min_key m" if "i \<in> set (dst_metas e l) \<union> set (src_metas e l)" "min_key i \<le> x" "x \<le> max_key i" for i x
    proof (cases "i \<in> set (src_metas e l)")
      case True
      then show ?thesis using s above that by (meson le_less_trans order_trans)
    next
      case False
      then have "min_key i \<le> ?hi" "apart i m" using d that(1) by auto
      then have "max_key i < min_key m"
        using less_trans [OF less_le_trans above, of "max_key m" "min_key i"] m(3) by (auto simp: apart_def)
      then show ?thesis using that(3) by (rule le_less_trans [rotated])
    qed
    then show ?thesis using lo hi by blast
  next
    assume below: "max_key m < ?lo"
    have "max_key m < x" if "i \<in> set (dst_metas e l) \<union> set (src_metas e l)" "min_key i \<le> x" "x \<le> max_key i" for i x
    proof (cases "i \<in> set (src_metas e l)")
      case True
      then show ?thesis using s below that by (meson less_le_trans order_trans)
    next
      case False
      then have "?lo \<le> max_key i" "apart i m" using d that(1) by auto
      then have "max_key m < min_key i"
        using less_le_trans [OF below, of "max_key i"] less_trans [of "max_key m" "max_key i" "min_key m"] m(3)
        by (auto simp: apart_def)
      then show ?thesis using that(2) by (rule less_le_trans)
    qed
    then show ?thesis using lo hi by blast
  qed
qed

lemma meta_of_table:
  assumes "in_order ts e" "m \<in> set (ssts_at_level (e_manifest e) l)"
  shows "\<exists>t \<in> set ts. fst t = m"
proof -
  have "m \<in> set (concat (rev (levels (e_manifest e))))" using ssts_at_level_set [OF assms(2)] by simp
  then have "m \<in> set (map fst ts)" using assms(1) by (simp only: in_order_def)
  then show ?thesis by auto
qed

lemma meta_valid:
  "in_order ts e \<Longrightarrow> ranges_ok ts \<Longrightarrow> m \<in> set (ssts_at_level (e_manifest e) l) \<Longrightarrow> min_key m \<le> max_key m"
  using meta_of_table by (fastforce simp: ranges_ok_def in_range_def)

lemma live_key_range:
  assumes ok: "eng_ok tbl ts e" and tree: "tree_ok ts e" and low: "\<forall>j < l. ssts_at_level (e_manifest e) j = []"
    and k: "k \<in> fst ` set (live_entries now ts e l)"
  shows "\<exists>i \<in> set (dst_metas e l) \<union> set (src_metas e l). min_key i \<le> k \<and> k \<le> max_key i"
proof -
  note t = tree_okD [OF tree]
  obtain A B S where ts: "ts = A @ B @ S" and S: "map fst S = src_metas e l"
    and ins: "inputs ts e l = filter (\<lambda>t. fst t \<in> set (dst_metas e l)) B @ S"
    by (rule inputs_others_split [OF ok t(1) low])
  have "map_of (live_entries now ts e l) k \<noteq> None" using k by (metis map_of_eq_None_iff)
  then have "k \<in> dom (table_lookup (inputs ts e l))"
    using live_entries_spec(2) [OF eng_okD(3) [OF ok], of now e l k] by (auto split: option.splits)
  then obtain u where u: "u \<in> set (inputs ts e l)" "k \<in> fst ` set (tentries u)"
    unfolding dom_table_lookup by blast
  have "u \<in> set ts" using u(1) by (simp add: inputs_def)
  then have "in_range u" using t(2) by (simp add: ranges_ok_def)
  moreover have "fst u \<in> set (dst_metas e l) \<union> set (src_metas e l)"
    using u(1) S by (auto simp: ins) (metis fst_conv imageI list.set_map)
  ultimately show ?thesis using u(2) unfolding in_range_def by blast
qed

lemma compacted_tree:
  assumes ok: "eng_ok tbl ts e" and tree: "tree_ok ts e" and low: "\<forall>j < l. ssts_at_level (e_manifest e) j = []"
    and src: "src_metas e l \<noteq> []" and es: "es = live_entries now ts e l" and good: "es \<noteq> [] \<longrightarrow> sst_good es bs"
  shows "tree_ok (compacted_tables ts e l es bs) (compacted e l es bs c)"
proof -
  note t = tree_okD [OF tree]
  have valid: "min_key m \<le> max_key m" if "m \<in> set (ssts_at_level (e_manifest e) j)" for m j
    using meta_valid [OF t(1,2) that] .
  have rng: "ranges_ok (compacted_tables ts e l es bs)"
  proof -
    have "in_range u" if "u \<in> set (out_tables e (l + 1) es bs)" for u
      using that good in_range_whole [of es "out_meta e (l + 1) es" bs]
        live_entries_spec(1) [OF eng_okD(3) [OF ok], of now e l, folded es]
      by (auto simp: out_tables_def tentries_good out_meta_def sst_meta_new_def split: if_splits)
    then show ?thesis using t(2) by (auto simp: ranges_ok_def compacted_tables_def others_def)
  qed
  have "apart m (out_meta e (l + 1) es)"
    if "es \<noteq> []" "m \<in> set (ssts_at_level (e_manifest e) (l + 1))" "meta_id m \<notin> set (input_ids e l)" for m
  proof -
    have "m \<notin> set (dst_metas e l)" using that(3) by (auto simp: input_ids_def)
    moreover have "fst (hd es) \<in> fst ` set es" "fst (last es) \<in> fst ` set es" using that(1) by simp_all
    ultimately have "max_key m < fst (hd es) \<and> max_key m < fst (last es) \<or> fst (last es) < min_key m \<and> fst (hd es) < min_key m"
      using live_key_range [OF ok tree low] valid [OF that(2)] valid that(2) t(3) [of "l + 1"] src unfolding es
      by (intro output_apart) (auto simp: src_metas_def)
    then show ?thesis by (auto simp: apart_def out_meta_def sst_meta_new_def)
  qed
  then have "level_apart (e_manifest (compacted e l es bs c)) j" if "1 \<le> j" for j
    using t(3) [OF that] by (auto simp: level_apart_def compacted_level [OF ok t(1)] intro: apart_sym)
  then show ?thesis using rng compacted_in_order [OF ok t(1) low] by (simp add: tree_ok_def)
qed

lemma compacted_shallow:
  assumes "eng_ok tbl ts e" "in_order ts e" "shallow (e_manifest e)"
  shows "shallow (e_manifest (compacted e 0 es bs c))"
  using assms by (simp add: shallow_def compacted_level [OF assms(1,2)])

lemma shallow_deeper: "shallow (e_manifest e) \<Longrightarrow> deeper ts e 0 = []"
proof -
  assume "shallow (e_manifest e)"
  then have "l = []" if "l \<in> set (drop 2 (levels (e_manifest e)))" for l
    using that by (auto simp: shallow_def ssts_at_level_def in_set_conv_nth split: if_splits)
  then have "concat (drop 2 (levels (e_manifest e))) = []" by auto
  then show ?thesis by (simp add: deeper_def numeral_2_eq_2)
qed

lemma compacted_weight:
  assumes ok: "eng_ok tbl ts e" and ord: "in_order ts e" and low: "\<forall>j < l. ssts_at_level (e_manifest e) j = []"
  shows "tables_weight (others ts e l) + tables_weight (inputs ts e l) = tables_weight ts"
    "weight (live_entries now ts e l) \<le> tables_weight (inputs ts e l)" "short_keys (live_entries now ts e l)"
proof -
  obtain A B S where ts: "ts = A @ B @ S" and ins: "inputs ts e l = filter (\<lambda>t. fst t \<in> set (dst_metas e l)) B @ S"
    and oth: "others ts e l = A @ filter (\<lambda>t. fst t \<notin> set (dst_metas e l)) B"
    by (rule inputs_others_split [OF ok ord low])
  have "tables_weight ts = tables_weight A + tables_weight B + tables_weight S" by (simp add: ts)
  then show "tables_weight (others ts e l) + tables_weight (inputs ts e l) = tables_weight ts"
    using tables_weight_filter [of "\<lambda>t. fst t \<in> set (dst_metas e l)" B] by (simp add: ins oth)
  show "weight (live_entries now ts e l) \<le> tables_weight (inputs ts e l)"
    using weight_filter weight_merged [of "inputs ts e l" "[]"] by (auto simp: live_entries_def intro: order_trans)
  show "short_keys (live_entries now ts e l)"
    using tables_short [OF inputs_ok(1) [OF eng_okD(3) [OF ok]], of _ e l]
    by (auto simp: live_entries_def intro!: short_keys_filter short_keys_merged)
qed

subsection \<open>The engine with its files\<close>

definition files_ok :: "table list \<Rightarrow> engine \<Rightarrow> disk \<Rightarrow> bool" where
  "files_ok ts e d \<longleftrightarrow> (\<forall>t \<in> set ts. files d (sst_path (e_path e) (tid t)) = Some (sst_bytes (snd t))) \<and>
     (files d (manifest_path (e_path e)) = Some (manifest_encode (e_manifest e)) \<or>
      files d (manifest_path (e_path e)) = None \<and> e_manifest e = manifest_new)"

text \<open>What a later restart relies on: every table is described by its metadata (\<open>whole\<close>), and the directory holds
  finitely many files and no log but the default one (\<open>tidy\<close>).\<close>

definition whole :: "table \<Rightarrow> bool" where
  "whole t \<longleftrightarrow> tentries t \<noteq> [] \<and> min_key (fst t) = fst (hd (tentries t)) \<and> max_key (fst t) = fst (last (tentries t))"

definition one_log :: "path \<Rightarrow> disk \<Rightarrow> bool" where
  "one_log dir d \<longleftrightarrow> (\<forall>name. files d (path_join dir name) \<noteq> None \<longrightarrow> ends_with ''.wal'' name \<longrightarrow> name = ''000001.wal'')"

definition tidy :: "path \<Rightarrow> disk \<Rightarrow> bool" where
  "tidy dir d \<longleftrightarrow> finite (dom (files d)) \<and> one_log dir d"

definition engine_files :: "path \<Rightarrow> path set" where
  "engine_files dir = {manifest_path dir, default_wal_path dir} \<union> range (sst_path dir)"

lemma tidy_extend:
  assumes "tidy dir d" "dom (files d') \<subseteq> dom (files d) \<union> engine_files dir"
  shows "tidy dir d'"
proof -
  have "finite (range (sst_path dir))" by (rule finite_imageI) (rule finite)
  then have "finite (engine_files dir)" by (simp add: engine_files_def)
  then have fin: "finite (dom (files d'))" using assms finite_subset by (fastforce simp: tidy_def)
  have "name = ''000001.wal''" if "files d' (path_join dir name) \<noteq> None" "ends_with ''.wal'' name" for name
  proof (cases "files d (path_join dir name) = None")
    case True
    then have "path_join dir name \<in> engine_files dir" using assms(2) that(1) by blast
    moreover have "name \<noteq> ''MANIFEST''" "name \<noteq> s @ ''.sst''" for s using that(2) by (auto simp: ends_with_def)
    ultimately show ?thesis
      by (auto simp: engine_files_def manifest_path_def default_wal_path_def sst_path_def simp del: append_assoc)
  next
    case False
    then show ?thesis using assms(1) that(2) by (auto simp: tidy_def one_log_def)
  qed
  then show ?thesis using fin by (simp add: tidy_def one_log_def)
qed

definition neat :: "table list \<Rightarrow> engine \<Rightarrow> disk \<Rightarrow> bool" where
  "neat ts e d \<longleftrightarrow> (\<forall>t \<in> set ts. whole t) \<and> length (levels (e_manifest e)) < 2 ^ 32 \<and> tidy (e_path e) d"

lemma length_levels_add: "length (levels (add_sst l m mf)) = max (length (levels mf)) (Suc l)"
  by (simp add: add_sst_def Let_def)

lemma whole_flushed: "sst_good es bs \<Longrightarrow> es \<noteq> [] \<Longrightarrow> whole (flushed_meta e es, bs)"
  by (simp add: whole_def tentries_good flushed_meta_def sst_meta_new_def)

lemma neat_flushed:
  assumes "neat ts e d" "sst_good es bs" "es \<noteq> []" "dom (files d') \<subseteq> dom (files d) \<union> engine_files (e_path e)"
  shows "neat (ts @ [(flushed_meta e es, bs)]) (flushed e es bs) d'"
  using assms tidy_extend [OF _ assms(4)]
  by (simp add: neat_def whole_flushed) (simp add: flushed_def length_levels_add)

lemma length_remove_ssts: "length (levels (remove_ssts ids mf)) = length (levels mf)"
  if "level_ids_disjoint mf"
  using that by (simp add: remove_ssts_spec)

lemma neat_compacted:
  assumes "neat ts e d" "eng_ok tbl ts e" "in_order ts e" "es \<noteq> [] \<longrightarrow> sst_good es bs"
    and "dom (files d') \<subseteq> dom (files d) \<union> engine_files (e_path e)" "l < 2 ^ 31"
  shows "neat (compacted_tables ts e l es bs) (compacted e l es bs c) d'"
proof -
  have "whole t" if "t \<in> set (compacted_tables ts e l es bs)" for t
    using that assms(1,4)
    by (auto simp: compacted_tables_def neat_def others_def out_tables_def out_meta_def sst_meta_new_def whole_def
        tentries_good split: if_splits)
  moreover have "length (levels (e_manifest (compacted e l es bs c))) < 2 ^ 32"
    using assms(1,6) with_output_disjoint [OF assms(2,3)]
    by (simp add: compacted_def length_remove_ssts) (simp add: with_output_def length_levels_add neat_def)
  ultimately show ?thesis using assms(1) tidy_extend [OF _ assms(5)] by (simp add: neat_def) (simp add: compacted_def)
qed

text \<open>\<open>sys_ok\<close> is the invariant of the engine between steps; \<open>settled\<close> adds that no flush is pending.\<close>

definition sys_ok :: "(u64 \<Rightarrow> block list option) \<Rightarrow> table list \<Rightarrow> engine \<Rightarrow> world \<Rightarrow> bool" where
  "sys_ok tbl ts e w \<longleftrightarrow> eng_ok tbl ts e \<and> tree_ok ts e \<and> no_faults (w_disk w) \<and>
     bw_path (e_wal e) = default_wal_path (e_path e) \<and> files_ok ts e (w_disk w) \<and> neat ts e (w_disk w)"

definition settled :: "engine \<Rightarrow> bool" where
  "settled e \<longleftrightarrow> immutable (e_mem e) = None"

lemma sys_okD:
  assumes "sys_ok tbl ts e w"
  shows "eng_ok tbl ts e" "tree_ok ts e" "in_order ts e" "no_faults (w_disk w)"
    "bw_path (e_wal e) = default_wal_path (e_path e)" "files_ok ts e (w_disk w)" "neat ts e (w_disk w)"
  using assms by (simp_all add: sys_ok_def tree_ok_def)

text \<open>What flushes and compactions leave alone: options, path, sequence number, clock and directory listing.\<close>

definition same_front :: "engine \<times> world \<Rightarrow> engine \<times> world \<Rightarrow> bool" where
  "same_front s s' \<longleftrightarrow> (case (s, s') of ((e, w), (e', w')) \<Rightarrow>
     e_opts e' = e_opts e \<and> e_path e' = e_path e \<and> e_next_seq e' = e_next_seq e \<and>
     w_clock w' = w_clock w \<and> w_readdir w' = w_readdir w)"

lemma same_front_simps [simp]:
  "same_front (e, w) (e', w') \<longleftrightarrow> e_opts e' = e_opts e \<and> e_path e' = e_path e \<and> e_next_seq e' = e_next_seq e \<and>
     w_clock w' = w_clock w \<and> w_readdir w' = w_readdir w"
  by (simp add: same_front_def)

lemma compact_sys:
  assumes sys: "sys_ok tbl ts e w" and clk: "\<forall>n. w_clock w n = now" and src: "ssts_at_level (e_manifest e) 0 \<noteq> []" and sh: "shallow (e_manifest e)"
    and small: "32 + tables_weight ts < 2 ^ 32" and ids: "unat (e_next_sst e) + 1 < 2 ^ 64"
  shows "\<exists>tbl' ts' e' w'. compact_level 0 (e, w) = (Inr (), (e', w')) \<and> sys_ok tbl' ts' e' w' \<and> shallow (e_manifest e') \<and>
    (\<forall>t \<ge> now. view t ts' e' = view t ts e) \<and> tables_weight ts' \<le> tables_weight ts \<and>
    e_mem e' = e_mem e \<and> e_wal e' = e_wal e \<and> same_front (e, w) (e', w') \<and>
    files (w_disk w') (default_wal_path (e_path e)) = files (w_disk w) (default_wal_path (e_path e)) \<and>
    unat (e_next_sst e') \<le> unat (e_next_sst e) + 1 \<and>
    length (ssts_at_level (e_manifest e') 1) \<le> length (ssts_at_level (e_manifest e) 1) + 1"
proof -
  note s = sys_okD [OF sys] and t = tree_okD [OF sys_okD(2) [OF sys]]
  let ?es = "live_entries now ts e 0"
  have low: "\<forall>j < 0. ssts_at_level (e_manifest e) j = []" by simp
  note cw = compacted_weight [OF s(1) t(1) low]
  have fits: "sst_fits ?es" using cw(1) cw(2,3) [of now] small by (simp add: sst_fits_weight)
  have src': "src_metas e 0 \<noteq> []" using src by (simp add: src_metas_def)
  obtain bs c d k where run: "compact_level 0 (e, w) = (Inr (), (compacted e 0 ?es bs c, w\<lparr>w_disk := d, w_ticks := k\<rparr>))"
    and good: "?es \<noteq> [] \<longrightarrow> sst_good ?es bs" and c: "cache_ok tbl c" and nf: "no_faults d"
    and fl: "\<forall>q. files d q =
       (if q = manifest_path (e_path e) then Some (manifest_encode (e_manifest (compacted e 0 ?es bs c)))
        else if q \<in> sst_path (e_path e) ` set (input_ids e 0) then None
        else if ?es \<noteq> [] \<and> q = sst_path (e_path e) (e_next_sst e) then Some (sst_bytes bs) else files (w_disk w) q)"
    using compact_level_total [OF s(1) t(1) s(4) clk src' fits ids] by blast
  let ?e = "compacted e 0 ?es bs c" and ?ts = "compacted_tables ts e 0 ?es bs"
  have front: "e_mem ?e = e_mem e" "e_wal ?e = e_wal e" "e_opts ?e = e_opts e" "e_path ?e = e_path e" "e_next_seq ?e = e_next_seq e"
    by (simp_all add: compacted_def)
  have fresh: "e_next_sst e \<notin> set (input_ids e 0)"
    using in_order_ids(4) [OF s(1) t(1)] input_ids_known by blast
  have new: "e_next_sst e \<notin> tid ` set ts"
    using tables_known [OF eng_okD(3) [OF s(1)]] eng_okD(5) [OF s(1), of "e_next_sst e"] by blast
  have "files d (sst_path (e_path e) (tid t)) = Some (sst_bytes (snd t))" if "t \<in> set ?ts" for t
  proof (cases "t \<in> set (others ts e 0)")
    case True
    then have t': "t \<in> set ts" "tid t \<notin> set (input_ids e 0)" by (simp_all add: others_def)
    then have "tid t \<noteq> e_next_sst e" using new by (metis imageI)
    then have "files d (sst_path (e_path e) (tid t)) = files (w_disk w) (sst_path (e_path e) (tid t))"
      using fl t'(2) by auto
    then show ?thesis using s(6) t'(1) by (simp add: files_ok_def)
  next
    case False
    then have "?es \<noteq> []" "tid t = e_next_sst e" "snd t = bs"
      using that by (auto simp: compacted_tables_def out_tables_def tid_def out_meta_def sst_meta_new_def split: if_splits)
    then show ?thesis using fl fresh by auto
  qed
  then have "files_ok ?ts ?e d" using fl front(4) by (simp add: files_ok_def)
  moreover have "eng_ok (if ?es = [] then tbl else tbl(e_next_sst e \<mapsto> bs)) ?ts ?e"
    by (rule compacted_ok [OF s(1) t(1) good c ids])
  moreover have "tree_ok ?ts ?e" by (rule compacted_tree [OF s(1,2) low src' refl good])
  moreover have "shallow (e_manifest ?e)" by (rule compacted_shallow [OF s(1) t(1) sh])
  moreover have "view t ?ts ?e = view t ts e" if "now \<le> t" for t
    using compacted_view [OF s(1) t(1,2) low _ _ good that] t(3) [of 1] shallow_deeper [OF sh]
    by (auto simp: nothing_below_def fun_eq_iff)
  moreover have "tables_weight ?ts \<le> tables_weight ts"
    using cw(1) cw(2) [of now] good by (auto simp: compacted_tables_def out_tables_def tentries_good)
  moreover have "unat (e_next_sst ?e) \<le> unat (e_next_sst e) + 1"
    using unat_add_u64 [of "e_next_sst e" 1] ids by (simp add: compacted_def with_output_def)
  moreover have "length (ssts_at_level (e_manifest ?e) 1) \<le> length (ssts_at_level (e_manifest e) 1) + 1"
    by (simp add: compacted_level [OF s(1) t(1)] le_SucI)
  moreover have "files d (default_wal_path (e_path e)) = files (w_disk w) (default_wal_path (e_path e))"
    using fl by auto
  moreover have "neat ?ts ?e d"
  proof (rule neat_compacted [OF s(7) s(1) t(1)])
    have "files d q = files (w_disk w) q" if "q \<notin> engine_files (e_path e)" for q
    proof -
      have "q \<noteq> manifest_path (e_path e)" "q \<notin> sst_path (e_path e) ` set (input_ids e 0)" "q \<noteq> sst_path (e_path e) (e_next_sst e)"
        using that by (auto simp: engine_files_def)
      then show ?thesis using spec [OF fl, of q] by simp
    qed
    then show "dom (files d) \<subseteq> dom (files (w_disk w)) \<union> engine_files (e_path e)" by fastforce
  qed (use good in auto)
  ultimately show ?thesis using run nf s(5) front unfolding sys_ok_def
    by (intro exI [of _ "if ?es = [] then tbl else tbl(e_next_sst e \<mapsto> bs)"] exI [of _ ?ts] exI [of _ ?e]
        exI [of _ "w\<lparr>w_disk := d, w_ticks := k\<rparr>"]) simp
qed

subsection \<open>Flushing with the compactions it triggers\<close>

text \<open>\<open>roomy\<close>: every level has a positive capacity that does not overflow, and level 1 takes another table
  without being due itself.\<close>

definition roomy :: "options \<Rightarrow> manifest \<Rightarrow> bool" where
  "roomy opts mf \<longleftrightarrow>
     (\<forall>level < o_max_levels opts - 1. \<exists>t > 0. level_threshold (o_l0_threshold opts) level = Inr t) \<and>
     (1 < o_max_levels opts - 1 \<longrightarrow> length (ssts_at_level mf 1) + 1 < o_l0_threshold opts * 10)"

definition compact_body :: "options \<Rightarrow> nat \<Rightarrow> unit eprog" where
  "compact_body opts level = st_bind (st_lift (level_threshold (o_l0_threshold opts) level)) (\<lambda>threshold.
     st_bind (e_gets (\<lambda>e. length (ssts_at_level (e_manifest e) level))) (\<lambda>n.
       if n < threshold then st_return () else compact_level level))"

lemma maybe_compact_body:
  "maybe_compact (e, w) = st_for [0..<o_max_levels (e_opts e) - 1] (compact_body (e_opts e)) (e, w)"
  by (simp add: maybe_compact_def compact_body_def [abs_def])

lemma compact_body_skip:
  "level_threshold (o_l0_threshold opts) level = Inr t \<Longrightarrow> length (ssts_at_level (e_manifest e) level) < t \<Longrightarrow>
     compact_body opts level (e, w) = (Inr (), (e, w))"
  by (simp add: compact_body_def st_return_def)

lemma deep_levels_quiet:
  assumes "shallow (e_manifest e)" "\<forall>level < o_max_levels opts - 1. \<exists>t > 0. level_threshold (o_l0_threshold opts) level = Inr t"
    "1 < o_max_levels opts - 1 \<longrightarrow> length (ssts_at_level (e_manifest e) 1) < o_l0_threshold opts * 10"
  shows "st_for [1..<o_max_levels opts - 1] (compact_body opts) (e, w) = (Inr (), (e, w))"
proof (rule st_for_skip)
  fix level assume l: "level \<in> set [1..<o_max_levels opts - 1]"
  then obtain t where t: "0 < t" "level_threshold (o_l0_threshold opts) level = Inr t" using assms(2) by auto
  have "length (ssts_at_level (e_manifest e) level) < t"
  proof (cases "level = 1")
    case True
    then have "t = o_l0_threshold opts * 10" using t(2) by (simp add: level_threshold_def split: if_splits)
    then show ?thesis using l assms(3) True by simp
  next
    case False
    then show ?thesis using l t(1) assms(1) by (simp add: shallow_def)
  qed
  then show "compact_body opts level (e, w) = (Inr (), (e, w))" by (rule compact_body_skip [OF t(2)])
qed

lemma maybe_compact_sys:
  assumes sys: "sys_ok tbl ts e w" and clk: "\<forall>n. w_clock w n = now" and room: "roomy (e_opts e) (e_manifest e)" and sh: "shallow (e_manifest e)"
    and small: "32 + tables_weight ts < 2 ^ 32" and ids: "unat (e_next_sst e) + 1 < 2 ^ 64"
  shows "\<exists>tbl' ts' e' w'. maybe_compact (e, w) = (Inr (), (e', w')) \<and> sys_ok tbl' ts' e' w' \<and> shallow (e_manifest e') \<and>
    (\<forall>t \<ge> now. view t ts' e' = view t ts e) \<and> tables_weight ts' \<le> tables_weight ts \<and>
    e_mem e' = e_mem e \<and> e_wal e' = e_wal e \<and> same_front (e, w) (e', w') \<and>
    files (w_disk w') (default_wal_path (e_path e)) = files (w_disk w) (default_wal_path (e_path e)) \<and>
    unat (e_next_sst e') \<le> unat (e_next_sst e) + 1"
proof -
  let ?opts = "e_opts e" and ?n = "o_max_levels (e_opts e) - 1"
  have stay: ?thesis if "maybe_compact (e, w) = (Inr (), (e, w))"
    using that sys sh by (intro exI [of _ tbl] exI [of _ ts] exI [of _ e] exI [of _ w]) simp
  have caps: "\<forall>level < ?n. \<exists>t > 0. level_threshold (o_l0_threshold ?opts) level = Inr t" using room by (simp add: roomy_def)
  show ?thesis
  proof (cases "?n = 0")
    case True
    then show ?thesis by (intro stay) (simp add: maybe_compact_body st_return_def)
  next
    case False
    then have "0 < ?n" by simp
    have l0: "level_threshold (o_l0_threshold ?opts) 0 = Inr (o_l0_threshold ?opts)" "0 < o_l0_threshold ?opts"
      using caps [rule_format, OF \<open>0 < ?n\<close>] by (simp_all add: level_threshold_def)
    have unfold: "maybe_compact (e, w) = st_bind (compact_body ?opts 0) (\<lambda>_. st_for [1..<?n] (compact_body ?opts)) (e, w)"
      using False by (simp add: maybe_compact_body upt_conv_Cons)
    show ?thesis
    proof (cases "length (ssts_at_level (e_manifest e) 0) < o_l0_threshold ?opts")
      case True
      have "st_for [1..<?n] (compact_body ?opts) (e, w) = (Inr (), (e, w))"
        by (rule deep_levels_quiet [OF sh caps]) (use room in \<open>auto simp: roomy_def\<close>)
      then show ?thesis
        by (intro stay) (simp add: unfold st_bind_eq(1) [where m = "compact_body ?opts 0", OF compact_body_skip [OF l0(1) True]])
    next
      case False
      then have "ssts_at_level (e_manifest e) 0 \<noteq> []" using l0(2) by auto
      from compact_sys [OF sys clk this sh small ids] obtain tbl' ts' e' w' where
        run: "compact_level 0 (e, w) = (Inr (), (e', w'))" and sys': "sys_ok tbl' ts' e' w'"
        and sh': "shallow (e_manifest e')"
        and rest: "\<forall>t \<ge> now. view t ts' e' = view t ts e" "tables_weight ts' \<le> tables_weight ts"
          "e_mem e' = e_mem e" "e_wal e' = e_wal e" "same_front (e, w) (e', w')"
          "files (w_disk w') (default_wal_path (e_path e)) = files (w_disk w) (default_wal_path (e_path e))"
          "unat (e_next_sst e') \<le> unat (e_next_sst e) + 1"
        and l1: "length (ssts_at_level (e_manifest e') 1) \<le> length (ssts_at_level (e_manifest e) 1) + 1" by blast
      have body: "compact_body ?opts 0 (e, w) = (Inr (), (e', w'))"
        using False run l0(1) by (simp add: compact_body_def)
      have "st_for [1..<?n] (compact_body ?opts) (e', w') = (Inr (), (e', w'))"
        by (rule deep_levels_quiet [OF sh' caps]) (use room l1 in \<open>auto simp: roomy_def\<close>)
      then have "maybe_compact (e, w) = (Inr (), (e', w'))"
        by (simp add: unfold st_bind_eq(1) [where m = "compact_body ?opts 0", OF body])
      then show ?thesis using sys' sh' rest by blast
    qed
  qed
qed

lemma flushed_files:
  assumes sys: "sys_ok tbl ts e w"
    and fl: "\<forall>q. q \<noteq> default_wal_path (e_path e) \<and> q \<noteq> bw_path (e_wal e) \<longrightarrow>
       files d q = ((files (w_disk w))(sst_path (e_path e) (e_next_sst e) \<mapsto> sst_bytes bs,
         manifest_path (e_path e) \<mapsto> manifest_encode (e_manifest (flushed e es bs)))) q"
  shows "files_ok (ts @ [(flushed_meta e es, bs)]) (flushed e es bs) d"
proof -
  note s = sys_okD [OF sys]
  have new: "e_next_sst e \<notin> tid ` set ts"
    using tables_known [OF eng_okD(3) [OF s(1)]] eng_okD(5) [OF s(1), of "e_next_sst e"] by blast
  have path: "e_path (flushed e es bs) = e_path e" by (simp add: flushed_def)
  have "files d (sst_path (e_path e) (tid t)) = Some (sst_bytes (snd t))" if "t \<in> set ts" for t
  proof -
    have "tid t \<noteq> e_next_sst e" using new that by (metis imageI)
    then show ?thesis using fl s(5,6) that by (simp add: files_ok_def)
  qed
  then show ?thesis using fl s(5) path by (simp add: files_ok_def)
qed

text \<open>A flush up to the compactions: the frozen list is a table of level 0, the manifest names it and the log is empty.\<close>

lemma flush_start:
  assumes sys: "sys_ok tbl ts e w" and imm: "immutable (e_mem e) = Some l"
    and buf: "bw_buf (e_wal e) = []" and short: "short_keys (sl_contents l)"
    and small: "32 + tables_weight ts + weight (sl_contents l) < 2 ^ 32" and id1: "unat (e_next_sst e) + 1 < 2 ^ 64"
  shows "\<exists>bs d. maybe_flush (e, w) = maybe_compact (flushed e (sl_contents l) bs, w\<lparr>w_disk := d\<rparr>) \<and> sst_good (sl_contents l) bs \<and>
    sys_ok (tbl(e_next_sst e \<mapsto> bs)) (ts @ [(flushed_meta e (sl_contents l), bs)]) (flushed e (sl_contents l) bs) (w\<lparr>w_disk := d\<rparr>) \<and>
    files d (default_wal_path (e_path e)) = Some []"
proof -
  note s = sys_okD [OF sys]
  let ?es = "sl_contents l"
  have fits: "sst_fits ?es" using short small by (simp add: sst_fits_weight)
  obtain bs d where run: "maybe_flush (e, w) = maybe_compact (flushed e ?es bs, w\<lparr>w_disk := d\<rparr>)"
    and good: "sst_good ?es bs" and nf: "no_faults d"
    and fl: "\<forall>q. q \<noteq> default_wal_path (e_path e) \<and> q \<noteq> bw_path (e_wal e) \<longrightarrow>
       files d q = ((files (w_disk w))(sst_path (e_path e) (e_next_sst e) \<mapsto> sst_bytes bs,
         manifest_path (e_path e) \<mapsto> manifest_encode (e_manifest (flushed e ?es bs)))) q"
    and wal: "files d (default_wal_path (e_path e)) = Some []"
    using maybe_flush_spec [OF eng_okD(1) [OF s(1)] s(4) imm fits id1] buf by blast
  let ?e = "flushed e ?es bs" and ?ts = "ts @ [(flushed_meta e ?es, bs)]" and ?tbl = "tbl(e_next_sst e \<mapsto> bs)"
  have ne: "?es \<noteq> []" using eng_okD(1) [OF s(1)] imm by (simp add: mt_inv_def)
  have "files d q = files (w_disk w) q" if "q \<notin> engine_files (e_path e)" for q
    using fl s(5) that by (auto simp: engine_files_def)
  then have "dom (files d) \<subseteq> dom (files (w_disk w)) \<union> engine_files (e_path e)" by fastforce
  from neat_flushed [OF s(7) good ne this]
  have sys1: "sys_ok ?tbl ?ts ?e (w\<lparr>w_disk := d\<rparr>)"
    using flushed_ok(1) [OF s(1) imm good id1] flushed_tree [OF s(2) good ne] nf
      flushed_files [OF sys fl]
    by (simp add: sys_ok_def) (simp add: flushed_def)
  then show ?thesis using run good wal by blast
qed

lemma flush_sys:
  assumes sys: "sys_ok tbl ts e w" and clk: "\<forall>n. w_clock w n = now" and imm: "immutable (e_mem e) = Some l"
    and buf: "bw_buf (e_wal e) = []"
    and room: "roomy (e_opts e) (e_manifest e)" and sh: "shallow (e_manifest e)" and short: "short_keys (sl_contents l)"
    and small: "32 + tables_weight ts + weight (sl_contents l) < 2 ^ 32" and ids: "unat (e_next_sst e) + 2 < 2 ^ 64"
  shows "\<exists>tbl' ts' e' w'. maybe_flush (e, w) = (Inr (), (e', w')) \<and> sys_ok tbl' ts' e' w' \<and> shallow (e_manifest e') \<and> settled e' \<and>
    (\<forall>t \<ge> now. view t ts' e' = view t ts e) \<and> tables_weight ts' \<le> tables_weight ts + weight (sl_contents l) \<and>
    e_mem e' = (e_mem e)\<lparr>immutable := None\<rparr> \<and> same_front (e, w) (e', w') \<and> bw_buf (e_wal e') = [] \<and>
    files (w_disk w') (default_wal_path (e_path e)) = Some [] \<and> unat (e_next_sst e') \<le> unat (e_next_sst e) + 2"
proof -
  note s = sys_okD [OF sys]
  let ?es = "sl_contents l"
  have id1: "unat (e_next_sst e) + 1 < 2 ^ 64" using ids by simp
  obtain bs d where run: "maybe_flush (e, w) = maybe_compact (flushed e ?es bs, w\<lparr>w_disk := d\<rparr>)" and good: "sst_good ?es bs"
    and sys1: "sys_ok (tbl(e_next_sst e \<mapsto> bs)) (ts @ [(flushed_meta e ?es, bs)]) (flushed e ?es bs) (w\<lparr>w_disk := d\<rparr>)"
    and wal: "files d (default_wal_path (e_path e)) = Some []"
    using flush_start [OF sys imm buf short small id1] by blast
  let ?e = "flushed e ?es bs" and ?ts = "ts @ [(flushed_meta e ?es, bs)]"
  have next1: "unat (e_next_sst ?e) = unat (e_next_sst e) + 1"
    using unat_add_u64 [of "e_next_sst e" 1] id1 by (simp add: flushed_def)
  have "roomy (e_opts ?e) (e_manifest ?e)" using room by (simp add: flushed_def roomy_def ssts_at_level_add)
  moreover have "32 + tables_weight ?ts < 2 ^ 32" using small by (simp add: tentries_good [OF good])
  moreover have "\<forall>n. w_clock (w\<lparr>w_disk := d\<rparr>) n = now" using clk by simp
  moreover have "unat (e_next_sst ?e) + 1 < 2 ^ 64" using next1 ids by simp
  moreover have "shallow (e_manifest ?e)" by (rule flushed_shallow [OF sh])
  ultimately obtain tbl' ts' e' w' where c: "maybe_compact (?e, w\<lparr>w_disk := d\<rparr>) = (Inr (), (e', w'))" "sys_ok tbl' ts' e' w'"
    "shallow (e_manifest e')" "\<forall>t \<ge> now. view t ts' e' = view t ?ts ?e" "tables_weight ts' \<le> tables_weight ?ts" "e_mem e' = e_mem ?e" "e_wal e' = e_wal ?e"
    "same_front (?e, w\<lparr>w_disk := d\<rparr>) (e', w')"
    "files (w_disk w') (default_wal_path (e_path ?e)) = files d (default_wal_path (e_path ?e))"
    "unat (e_next_sst e') \<le> unat (e_next_sst ?e) + 1"
    using maybe_compact_sys [OF sys1] by fastforce
  have "view t ?ts ?e = view t ts e" for t
    using flushed_ok(2) [OF s(1) imm good id1] by (simp add: view_def fun_eq_iff)
  then show ?thesis
    using run c next1 wal
    by (intro exI [of _ tbl'] exI [of _ ts'] exI [of _ e'] exI [of _ w'])
      (simp add: settled_def tentries_good [OF good], simp add: flushed_def)
qed

end
