(* ===== verification/EngineOps.thy ===== *)
theory EngineOps
  imports EngineState
begin

text \<open>
  The writing operations of the engine on its invariant: \<open>put\<close>, \<open>delete\<close> and \<open>put_with_ttl\<close> succeed when
  no system call fails, change what a read sees at their key only, and keep the log able to rebuild the
  memtable.
\<close>

subsection \<open>The log and the memtable\<close>

text \<open>The map that replaying a log builds: a delete record stands for the bare tombstone.\<close>

definition rec_stored :: "wal_record \<Rightarrow> bytes" where
  "rec_stored r = (case rec_op r of Put \<Rightarrow> rec_value r | Delete \<Rightarrow> tombstone)"

definition replayed :: "wal_record list \<Rightarrow> bytes \<Rightarrow> bytes option" where
  "replayed rs = foldl (\<lambda>m r. m(rec_key r \<mapsto> rec_stored r)) Map.empty rs"

lemma replayed_simps [simp]:
  "replayed [] = Map.empty" "replayed (rs @ [r]) = (replayed rs)(rec_key r \<mapsto> rec_stored r)"
  by (simp_all add: replayed_def)

text \<open>Two stores that no read can tell apart, whatever lies below them, the first no larger than the second.\<close>

definition alike :: "(bytes \<Rightarrow> bytes option) \<Rightarrow> (bytes \<Rightarrow> bytes option) \<Rightarrow> bool" where
  "alike m m' \<longleftrightarrow> (\<forall>k. (m k = None \<longleftrightarrow> m' k = None) \<and>
     (\<forall>t. Option.bind (m k) (unpack_value t) = Option.bind (m' k) (unpack_value t)) \<and>
     length (the (m k)) \<le> length (the (m' k)))"

lemma alike_refl [simp]: "alike m m"
  by (simp add: alike_def)

lemma alike_upd: "alike m m' \<Longrightarrow> \<forall>t. unpack_value t v = unpack_value t v' \<Longrightarrow> length v \<le> length v' \<Longrightarrow> alike (m(k \<mapsto> v)) (m'(k \<mapsto> v'))"
  by (simp add: alike_def)

lemma alike_over:
  assumes "alike m m'"
  shows "Option.bind ((b ++ m) k) (unpack_value t) = Option.bind ((b ++ m') k) (unpack_value t)"
  using assms [unfolded alike_def, rule_format, of k]
  by (cases "m k"; cases "m' k") (auto simp: map_add_def)

text \<open>\<open>log_ok\<close>: the log file holds, with nothing left in the writer's buffer, records that rebuild the memtable.\<close>

definition log_ok :: "checksum \<Rightarrow> wal_record list \<Rightarrow> engine \<Rightarrow> world \<Rightarrow> bool" where
  "log_ok crc rs e w \<longleftrightarrow> (\<forall>r \<in> set rs. record_fits r) \<and> bw_buf (e_wal e) = [] \<and>
     files (w_disk w) (default_wal_path (e_path e)) = Some (log_bytes crc rs) \<and> alike (replayed rs) (mt_lookup (e_mem e))"

text \<open>The total size of what is stored, which bounds every SSTable the engine may write.\<close>

definition load :: "table list \<Rightarrow> engine \<Rightarrow> nat" where
  "load ts e = tables_weight ts + weight (sl_contents (active (e_mem e)))"

definition calm :: "engine \<Rightarrow> bool" where
  "calm e \<longleftrightarrow> settled e \<and> short_keys (sl_contents (active (e_mem e)))"

text \<open>The bounds under which one more write cannot overflow a counter or an offset, with room for a table in level 1 and
  nothing below level 1.\<close>

definition fits_write :: "table list \<Rightarrow> engine \<Rightarrow> bytes \<Rightarrow> bytes \<Rightarrow> bool" where
  "fits_write ts e key val \<longleftrightarrow> length key < 2 ^ 16 \<and> 64 + load ts e + entry_weight (key, val) < 2 ^ 32 \<and>
     unat (e_next_sst e) + 2 < 2 ^ 64 \<and> unat (e_next_seq e) + 1 < 2 ^ 64 \<and> roomy (e_opts e) (e_manifest e) \<and>
     shallow (e_manifest e)"

lemma mt_lookup_settled: "immutable m = None \<Longrightarrow> mt_lookup m = map_of (sl_contents (active m))"
  by (simp add: mt_lookup_def imm_contents_def)

lemma view_upd:
  "stored ts' e' = (stored ts e)(k \<mapsto> v) \<Longrightarrow> view t ts' e' = (view t ts e)(k := unpack_value t v)"
  by (auto simp: view_def fun_eq_iff)

text \<open>Writing to the log and to the memtable keeps the rest.\<close>

lemma logged_sys:
  assumes sys: "sys_ok tbl ts e w" and b: "bw_path b = bw_path (e_wal e)" "only_file (bw_path (e_wal e)) (w_disk w) d"
    and nf: "no_faults d" and m: "mt_inv m"
  shows "sys_ok tbl ts (e\<lparr>e_wal := b, e_mem := m, e_metrics := mt\<rparr>) (w\<lparr>w_disk := d, w_rng := rng\<rparr>)"
proof -
  note s = sys_okD [OF sys]
  let ?e = "e\<lparr>e_wal := b, e_mem := m, e_metrics := mt\<rparr>"
  have files: "files_ok ts ?e d"
    using s(5,6) only_fileD [OF b(2)] by (simp add: files_ok_def)
  have ok: "eng_ok tbl ts ?e" using s(1) m by (simp add: eng_ok_def)
  have "files d q = files (w_disk w) q" if "q \<notin> engine_files (e_path e)" for q
    using only_fileD [OF b(2)] s(5) that by (simp add: engine_files_def)
  then have "dom (files d) \<subseteq> dom (files (w_disk w)) \<union> engine_files (e_path e)" by fastforce
  then have "neat ts ?e d" using s(7) tidy_extend [of "e_path e" "w_disk w" d] by (simp add: neat_def)
  then show ?thesis
    using s ok nf b(1) files by (simp add: sys_ok_def tree_ok_def in_order_def)
qed

subsection \<open>One write\<close>

lemma write_sys:
  assumes sys: "sys_ok tbl ts e w" and calm: "calm e" and log: "log_ok crc rs e w" and clk: "\<forall>n. w_clock w n = now"
    and sync: "o_sync_wal (e_opts e)" and r: "rec_key r = key" "\<forall>t. unpack_value t (rec_stored r) = unpack_value t enc"
      "length (rec_stored r) \<le> length enc"
    and fit: "record_fits r" and bound: "length key < 2 ^ 16" "32 + load ts e + entry_weight (key, enc) < 2 ^ 32"
      "unat (e_next_sst e) + 2 < 2 ^ 64" "roomy (e_opts e) (e_manifest e)" "shallow (e_manifest e)"
  shows "\<exists>tbl' ts' rs' e' w'. log_and_apply (wal_append_record crc r) key enc metric (e, w) = (Inr (), (e', w')) \<and>
    sys_ok tbl' ts' e' w' \<and> shallow (e_manifest e') \<and> calm e' \<and> log_ok crc rs' e' w' \<and>
    (\<forall>t \<ge> now. view t ts' e' = (view t ts e)(key := unpack_value t enc)) \<and>
    load ts' e' \<le> load ts e + entry_weight (key, enc) \<and> same_front (e, w) (e', w') \<and>
    unat (e_next_sst e') \<le> unat (e_next_sst e) + 2"
proof -
  note s = sys_okD [OF sys]
  have imm: "immutable (e_mem e) = None" and short: "short_keys (sl_contents (active (e_mem e)))"
    using calm by (simp_all add: calm_def settled_def)
  obtain b m d where run: "log_and_apply (wal_append_record crc r) key enc metric (e, w) =
      maybe_flush (e\<lparr>e_wal := b, e_mem := m, e_metrics := metric (e_metrics e)\<rparr>,
        w\<lparr>w_disk := d, w_rng := xorshift (w_rng w)\<rparr>)"
    and nf: "no_faults d" and b: "bw_path b = bw_path (e_wal e)" "only_file (bw_path (e_wal e)) (w_disk w) d"
      "bw_content b d = bw_content (e_wal e) (w_disk w) @ record_encode crc r" "bw_buf b = []"
    and m: "mt_inv m" "mt_lookup m = (mt_lookup (e_mem e))(key \<mapsto> enc)"
      "case immutable m of
         None \<Rightarrow> sl_contents (active m) = bt_insert key enc (sl_contents (active (e_mem e)))
       | Some l \<Rightarrow> sl_contents (active m) = [] \<and> sl_contents l = bt_insert key enc (sl_contents (active (e_mem e)))"
    using log_and_apply_spec [OF eng_okD(1) [OF s(1)] imm s(4), of crc r key enc metric] sync by blast
  let ?e = "e\<lparr>e_wal := b, e_mem := m, e_metrics := metric (e_metrics e)\<rparr>"
  let ?w = "w\<lparr>w_disk := d, w_rng := xorshift (w_rng w)\<rparr>" and ?ins = "bt_insert key enc (sl_contents (active (e_mem e)))"
  have sys1: "sys_ok tbl ts ?e ?w" using logged_sys [OF sys b(1,2) nf m(1)] by blast
  have view: "view t ts ?e = (view t ts e)(key := unpack_value t enc)" for t
    using m(2) by (intro view_upd) (simp add: stored_def fun_eq_iff map_add_def)
  have ins: "weight ?ins \<le> entry_weight (key, enc) + weight (sl_contents (active (e_mem e)))" "short_keys ?ins"
    using weight_bt_insert short_keys_bt_insert [OF bound(1) short] by auto
  show ?thesis
  proof (cases "immutable m")
    case None
    have "file_bytes d (bw_path (e_wal e)) = log_bytes crc (rs @ [r])"
      using b log s(5) by (simp add: bw_content_def log_ok_def file_bytes_def)
    moreover have "log_bytes crc (rs @ [r]) \<noteq> []" using length_record_encode [of crc r] by auto
    ultimately have "files d (default_wal_path (e_path e)) = Some (log_bytes crc (rs @ [r]))"
      using s(5) by (auto simp: file_bytes_def split: option.splits)
    moreover have "alike (replayed (rs @ [r])) (mt_lookup m)"
      using log r m(2) by (simp add: log_ok_def alike_upd)
    ultimately have "log_ok crc (rs @ [r]) ?e ?w" using log fit b(4) by (simp add: log_ok_def)
    moreover have "maybe_flush (?e, ?w) = (Inr (), (?e, ?w))" using None by (simp add: maybe_flush_nothing)
    moreover have "calm ?e" "load ts ?e \<le> load ts e + entry_weight (key, enc)"
      using None m(3) ins by (simp_all add: calm_def settled_def load_def)
    ultimately show ?thesis using run sys1 view bound(5)
      by (intro exI [of _ tbl] exI [of _ ts] exI [of _ "rs @ [r]"] exI [of _ ?e] exI [of _ ?w]) simp
  next
    case (Some l)
    then have l: "sl_contents (active m) = []" "sl_contents l = ?ins" using m(3) by simp_all
    have "32 + tables_weight ts + weight (sl_contents l) < 2 ^ 32" using bound(2) ins(1) l(2) by (simp add: load_def)
    then obtain tbl' ts' e' w' where f: "maybe_flush (?e, ?w) = (Inr (), (e', w'))" "sys_ok tbl' ts' e' w'" "shallow (e_manifest e')" "settled e'"
      "\<forall>t \<ge> now. view t ts' e' = view t ts ?e" "tables_weight ts' \<le> tables_weight ts + weight (sl_contents l)"
      "e_mem e' = m\<lparr>immutable := None\<rparr>" "same_front (?e, ?w) (e', w')" "bw_buf (e_wal e') = []"
      "files (w_disk w') (default_wal_path (e_path ?e)) = Some []" "unat (e_next_sst e') \<le> unat (e_next_sst ?e) + 2"
      using flush_sys [OF sys1, of now l] clk Some l ins(2) bound(3-5) b(4) by auto
    have act: "sl_contents (active (e_mem e')) = []" using f(7) l(1) by simp
    then have "mt_lookup (e_mem e') = Map.empty" using f(4) by (simp add: settled_def mt_lookup_settled)
    then have "log_ok crc [] e' w'" using f(8-10) by (simp add: log_ok_def)
    moreover have "calm e'" "load ts' e' \<le> load ts e + entry_weight (key, enc)"
      using f(4,6) act ins(1) l(2) by (simp_all add: calm_def load_def)
    ultimately show ?thesis using run f view
      by (intro exI [of _ tbl'] exI [of _ ts'] exI [of _ "[]"] exI [of _ e'] exI [of _ w']) simp
  qed
qed

subsection \<open>The database invariant\<close>

text \<open>\<open>db_ok\<close>: what holds between operations of an engine that syncs its log on every write.\<close>

definition db_ok :: "checksum \<Rightarrow> table list \<Rightarrow> engine \<Rightarrow> world \<Rightarrow> bool" where
  "db_ok crc ts e w \<longleftrightarrow> (\<exists>tbl rs. sys_ok tbl ts e w \<and> log_ok crc rs e w) \<and> calm e \<and> o_sync_wal (e_opts e)"

text \<open>One write grows the store by at most its own entry and uses at most two table ids and one sequence number; nothing
  lies below level 1 after it.\<close>

definition grown :: "table list \<Rightarrow> engine \<Rightarrow> table list \<Rightarrow> engine \<Rightarrow> nat \<Rightarrow> bool" where
  "grown ts e ts' e' n \<longleftrightarrow> load ts' e' \<le> load ts e + n \<and> unat (e_next_sst e') \<le> unat (e_next_sst e) + 2 \<and>
     unat (e_next_seq e') = unat (e_next_seq e) + 1 \<and> e_opts e' = e_opts e \<and> e_path e' = e_path e \<and>
     shallow (e_manifest e')"

definition same_env :: "world \<Rightarrow> world \<Rightarrow> bool" where
  "same_env w w' \<longleftrightarrow> w_clock w' = w_clock w \<and> w_readdir w' = w_readdir w"

lemma next_seq_simps [simp]:
  "sys_ok tbl ts (e\<lparr>e_next_seq := n\<rparr>) w = sys_ok tbl ts e w" "log_ok crc rs (e\<lparr>e_next_seq := n\<rparr>) w = log_ok crc rs e w"
  "calm (e\<lparr>e_next_seq := n\<rparr>) = calm e" "view t ts (e\<lparr>e_next_seq := n\<rparr>) = view t ts e"
  "load ts (e\<lparr>e_next_seq := n\<rparr>) = load ts e"
  by (simp_all add: sys_ok_def eng_ok_def tree_ok_def in_order_def files_ok_def neat_def log_ok_def calm_def settled_def
      view_def stored_def load_def fun_eq_iff)

lemma take_seq_bind:
  "unat (e_next_seq e) + 1 < 2 ^ 64 \<Longrightarrow>
     st_bind take_seq f (e, w) = f (e_next_seq e) (e\<lparr>e_next_seq := e_next_seq e + 1\<rparr>, w)"
  by (simp add: take_seq_def st_bind_def [of _ f] add_u64_def st_return_def)

lemma length_encode_with_seq [simp]: "length (encode_with_seq v s) = 8 + length v"
  by (simp add: encode_with_seq_def)

lemma encode_with_seq_not_Nil [simp]: "encode_with_seq v s \<noteq> []"
  using length_encode_with_seq [of v s] by (metis list.size(3) add_is_0 zero_neq_numeral)

lemma record_fits_write:
  "32 + n + entry_weight (key, enc) < 2 ^ 32 \<Longrightarrow> record_fits \<lparr>rec_op = x, rec_key = key, rec_value = enc\<rparr>"
  by (simp add: record_fits_def entry_weight_def)

text \<open>A write of the encoded value \<open>enc\<close> under a fresh sequence number, logged as \<open>r\<close>.\<close>

lemma seq_write:
  assumes db: "db_ok crc ts e w" and clk: "\<forall>n. w_clock w n = now"
    and r: "r = \<lparr>rec_op = x, rec_key = key, rec_value = enc\<rparr>" "x = Delete \<longrightarrow> enc \<noteq> [] \<and> (\<forall>t. unpack_value t enc = None)"
    and fits: "fits_write ts e key enc"
  shows "\<exists>ts' e' w'. log_and_apply (wal_append_record crc r) key enc metric (e\<lparr>e_next_seq := e_next_seq e + 1\<rparr>, w) =
      (Inr (), (e', w')) \<and> db_ok crc ts' e' w' \<and>
    (\<forall>t \<ge> now. view t ts' e' = (view t ts e)(key := unpack_value t enc)) \<and>
    grown ts e ts' e' (entry_weight (key, enc)) \<and> same_env w w'"
proof -
  let ?e = "e\<lparr>e_next_seq := e_next_seq e + 1\<rparr>"
  obtain tbl rs where sys: "sys_ok tbl ts ?e w" and log: "log_ok crc rs ?e w" and calm: "calm ?e" and sync: "o_sync_wal (e_opts ?e)"
    using db by (auto simp: db_ok_def)
  have ub: "unpack_value t tombstone = None" for t
    by (simp add: unpack_value_def decode_with_seq_def unpack_inner_def tombstone_def)
  have stored: "\<forall>t. unpack_value t (rec_stored r) = unpack_value t enc" "length (rec_stored r) \<le> length enc"
  proof -
    have rs: "rec_stored r = (case x of Put \<Rightarrow> enc | Delete \<Rightarrow> tombstone)" by (simp only: r(1) rec_stored_def wal_record.simps)
    have "enc \<noteq> [] \<Longrightarrow> length tombstone \<le> length enc" by (cases enc) (simp_all add: tombstone_def)
    then show "\<forall>t. unpack_value t (rec_stored r) = unpack_value t enc" "length (rec_stored r) \<le> length enc"
      unfolding rs using r(2) ub by (cases x, auto)+
  qed
  have key: "rec_key r = key" using r(1) by simp
  have bound: "length key < 2 ^ 16" "32 + load ts ?e + entry_weight (key, enc) < 2 ^ 32"
    "unat (e_next_sst ?e) + 2 < 2 ^ 64" "roomy (e_opts ?e) (e_manifest ?e)"
    "shallow (e_manifest ?e)"
    using fits by (simp_all add: fits_write_def)
  have "record_fits r" using record_fits_write [OF bound(2)] by (simp add: r(1))
  from write_sys [OF sys calm log clk sync key stored this bound] obtain tbl' ts' rs' e' w' where
    w': "log_and_apply (wal_append_record crc r) key enc metric (?e, w) = (Inr (), (e', w'))"
    "sys_ok tbl' ts' e' w'" "shallow (e_manifest e')" "calm e'" "log_ok crc rs' e' w'"
    "\<forall>t \<ge> now. view t ts' e' = (view t ts ?e)(key := unpack_value t enc)"
    "load ts' e' \<le> load ts ?e + entry_weight (key, enc)" "same_front (?e, w) (e', w')"
    "unat (e_next_sst e') \<le> unat (e_next_sst ?e) + 2" by blast
  have "unat (e_next_seq e') = unat (e_next_seq e) + 1"
    using w'(8) fits unat_add_u64 [of "e_next_seq e" 1] by (simp add: fits_write_def)
  then show ?thesis using w' sync
    by (intro exI [of _ ts'] exI [of _ e'] exI [of _ w']) (auto simp: db_ok_def grown_def same_env_def)
qed

theorem eng_put_spec:
  assumes "db_ok crc ts e w" "\<forall>n. w_clock w n = now" "fits_write ts e key (encode_with_seq val (e_next_seq e))"
  shows "\<exists>ts' e' w'. eng_put crc key val (e, w) = (Inr (), (e', w')) \<and> db_ok crc ts' e' w' \<and>
    (\<forall>t \<ge> now. view t ts' e' = (view t ts e)(key := unpack_value t (encode_with_seq val (e_next_seq e)))) \<and>
    grown ts e ts' e' (entry_weight (key, encode_with_seq val (e_next_seq e))) \<and> same_env w w'"
  using seq_write [OF assms(1,2) refl _ assms(3), of Put] assms(3)
  by (simp add: eng_put_def take_seq_bind wal_append_is_record fits_write_def Let_def)

theorem eng_delete_spec:
  assumes "db_ok crc ts e w" "\<forall>n. w_clock w n = now" "fits_write ts e key (encode_with_seq tombstone (e_next_seq e))"
  shows "\<exists>ts' e' w'. eng_delete crc key (e, w) = (Inr (), (e', w')) \<and> db_ok crc ts' e' w' \<and>
    (\<forall>t \<ge> now. view t ts' e' = (view t ts e)(key := None)) \<and>
    grown ts e ts' e' (entry_weight (key, encode_with_seq tombstone (e_next_seq e))) \<and> same_env w w'"
  using seq_write [OF assms(1,2) refl _ assms(3), of Delete] assms(3)
  by (simp add: eng_delete_def take_seq_bind fits_write_def unpack_tombstone Let_def)

text \<open>\<open>put_with_ttl\<close> reads the clock once and panics when the expiry overflows.\<close>

lemma ticks_simps [simp]:
  "db_ok crc ts e (w\<lparr>w_ticks := n\<rparr>) = db_ok crc ts e w" "same_env (w\<lparr>w_ticks := n\<rparr>) w' = same_env w w'"
  "same_env w (w'\<lparr>w_ticks := n\<rparr>) = same_env w w'" "same_env w w"
  by (simp_all add: db_ok_def sys_ok_def log_ok_def same_env_def)

theorem eng_put_with_ttl_spec:
  assumes "db_ok crc ts e w" "\<forall>n. w_clock w n = now" "unat now + unat ttl < 2 ^ 64"
    "fits_write ts e key (encode_with_seq (ttl_encode (now + ttl) val) (e_next_seq e))"
  shows "\<exists>ts' e' w'. eng_put_with_ttl crc key val ttl (e, w) = (Inr (), (e', w')) \<and> db_ok crc ts' e' w' \<and>
    (\<forall>t \<ge> now. view t ts' e' = (view t ts e)(key := if now + ttl \<le> t then None else Some val)) \<and>
    grown ts e ts' e' (entry_weight (key, encode_with_seq (ttl_encode (now + ttl) val) (e_next_seq e))) \<and> same_env w w'"
  using seq_write [of crc ts e "w\<lparr>w_ticks := Suc (w_ticks w)\<rparr>" now, OF _ _ refl _ assms(4), of Put] assms
  by (simp add: eng_put_with_ttl_def take_seq_bind wal_append_is_record fits_write_def Let_def add_u64_def unpack_ttl)

lemma ttl_overflow:
  assumes "2 ^ 64 \<le> unat (w_clock w (w_ticks w)) + unat ttl"
  shows "fst (eng_put_with_ttl crc key val ttl (e, w)) = Inl (Panic ''attempt to add with overflow'')"
  using assms by (simp add: eng_put_with_ttl_def add_u64_def)

subsection \<open>Reads keep the invariant\<close>

definition unchanged :: "table list \<Rightarrow> engine \<Rightarrow> engine \<Rightarrow> bool" where
  "unchanged ts e e' \<longleftrightarrow> (\<forall>t. view t ts e' = view t ts e) \<and> load ts e' = load ts e \<and> e_manifest e' = e_manifest e \<and>
     e_next_sst e' = e_next_sst e \<and> e_next_seq e' = e_next_seq e \<and> e_opts e' = e_opts e \<and> e_path e' = e_path e"

lemma db_ok_read:
  assumes s: "sys_ok tbl ts e w" "log_ok crc rs e w" "calm e" "o_sync_wal (e_opts e)" and c: "cache_ok tbl c"
  shows "db_ok crc ts (e\<lparr>e_metrics := mt, e_cache := c\<rparr>) (w\<lparr>w_ticks := n\<rparr>)"
    "unchanged ts e (e\<lparr>e_metrics := mt, e_cache := c\<rparr>)"
proof -
  have "sys_ok tbl ts (e\<lparr>e_metrics := mt, e_cache := c\<rparr>) w"
    using sys_okD [OF s(1)] c by (simp add: sys_ok_def eng_ok_def tree_ok_def in_order_def files_ok_def neat_def)
  then have "db_ok crc ts (e\<lparr>e_metrics := mt, e_cache := c\<rparr>) w"
    using s(2-4) by (auto simp: db_ok_def calm_def settled_def log_ok_def)
  then show "db_ok crc ts (e\<lparr>e_metrics := mt, e_cache := c\<rparr>) (w\<lparr>w_ticks := n\<rparr>)" by simp
  show "unchanged ts e (e\<lparr>e_metrics := mt, e_cache := c\<rparr>)"
    by (simp add: unchanged_def view_def stored_def load_def fun_eq_iff)
qed

lemma db_okE:
  assumes "db_ok crc ts e w"
  obtains tbl rs where "sys_ok tbl ts e w" "log_ok crc rs e w" "calm e" "o_sync_wal (e_opts e)" "eng_ok tbl ts e"
  using assms sys_okD(1) by (auto simp: db_ok_def)

theorem eng_get_db:
  assumes "db_ok crc ts e w"
  shows "\<exists>e' w'. eng_get k (e, w) = (Inr (view (w_clock w (w_ticks w)) ts e k), (e', w')) \<and> db_ok crc ts e' w' \<and>
    unchanged ts e e' \<and> same_env w w'"
proof -
  obtain tbl rs where s: "sys_ok tbl ts e w" "log_ok crc rs e w" "calm e" "o_sync_wal (e_opts e)" "eng_ok tbl ts e"
    using assms by (rule db_okE)
  let ?e = "\<lambda>c. e\<lparr>e_metrics := (e_metrics e)\<lparr>m_reads := m_reads (e_metrics e) + 1\<rparr>, e_cache := c\<rparr>"
  obtain c n where r: "eng_get k (e, w) = (Inr (view (w_clock w (w_ticks w)) ts e k), (?e c, w\<lparr>w_ticks := n\<rparr>))" "cache_ok tbl c"
    using eng_get_spec [OF s(5), of k w] by blast
  then show ?thesis using db_ok_read [OF s(1-4) r(2)]
    by (intro exI [of _ "?e c"] exI [of _ "w\<lparr>w_ticks := n\<rparr>"]) simp
qed

theorem eng_scan_db:
  assumes "db_ok crc ts e w" "\<forall>n. w_clock w n = now"
  shows "\<exists>es e' w'. eng_scan lo hi (e, w) = (Inr es, (e', w')) \<and> db_ok crc ts e' w' \<and> unchanged ts e e' \<and> same_env w w' \<and>
    sorted_keys es \<and> (\<forall>k. map_of es k = (if lo \<le> k \<and> k < hi then view now ts e k else None))"
proof -
  obtain tbl rs where s: "sys_ok tbl ts e w" "log_ok crc rs e w" "calm e" "o_sync_wal (e_opts e)" "eng_ok tbl ts e"
    using assms(1) by (rule db_okE)
  obtain es c n where r: "eng_scan lo hi (e, w) = (Inr es, (e\<lparr>e_cache := c\<rparr>, w\<lparr>w_ticks := n\<rparr>))" "cache_ok tbl c"
    "sorted_keys es" "\<forall>k. map_of es k = (if lo \<le> k \<and> k < hi then view now ts e k else None)"
    using eng_scan_spec [OF s(5) assms(2), of lo hi] by blast
  have "e\<lparr>e_cache := c\<rparr> = e\<lparr>e_metrics := e_metrics e, e_cache := c\<rparr>" by simp
  then show ?thesis using r db_ok_read [OF s(1-4) r(2), of "e_metrics e"]
    by (intro exI [of _ es] exI [of _ "e\<lparr>e_cache := c\<rparr>"] exI [of _ "w\<lparr>w_ticks := n\<rparr>"]) simp
qed

end
