(* ===== verification/EngineOpen.thy ===== *)
theory EngineOpen
  imports EngineOps
begin

text \<open>
  Opening a database: the manifest, the tables it names and the log of the directory become the engine.
  The readers come in the order of the manifest, level 0 first.
\<close>

subsection \<open>Pieces\<close>

lemma on_disk_eq: "m (w_disk w) = (Inr x, d) \<Longrightarrow> st_bind (on_disk m) f w = f x (w\<lparr>w_disk := d\<rparr>)"
  by (simp add: st_bind_def on_disk_def)

lemma make_dirs_total: "no_faults d \<Longrightarrow> make_dirs p d = (Inr (), tick d)"
  by (simp add: make_dirs_def fault_now_def no_faults_def)

lemma sst_open_good:
  assumes "no_faults d" "files d p = Some (sst_bytes bs)" "sst_good es bs"
  shows "sst_open p i d = (Inr (opened bs i), tick d)"
  using assms by (simp add: sst_open_def st_bind_def read_file_total st_lift_def sst_parse_written)

lemma manifest_load_total:
  assumes "no_faults d" "files d p = Some (manifest_encode mf) \<and> manifest_fits mf \<or> files d p = None \<and> mf = manifest_new"
  shows "\<exists>n. manifest_load p d = (Inr (forget_levels mf), d\<lparr>io_count := n\<rparr>)"
  using assms(2)
proof (elim disjE conjE)
  assume f: "files d p = Some (manifest_encode mf)" "manifest_fits mf"
  then have "manifest_load p d = (Inr (forget_levels mf), tick d)"
    using assms(1) by (simp add: manifest_load_def exists_file_def st_bind_def read_file_total st_lift_def manifest_roundtrip)
  then show ?thesis by (simp add: tick_def) blast
next
  assume "files d p = None" "mf = manifest_new"
  then have "manifest_load p d = (Inr (forget_levels mf), d\<lparr>io_count := io_count d\<rparr>)"
    by (simp add: manifest_load_def exists_file_def forget_levels_def manifest_new_def)
  then show ?thesis by blast
qed

definition same_files :: "disk \<Rightarrow> disk \<Rightarrow> bool" where
  "same_files d d' \<longleftrightarrow> files d' = files d \<and> durable d' = durable d \<and> faults d' = faults d"

lemma same_files_simps [simp]:
  "same_files d d" "same_files d (tick d') = same_files d d'" "same_files d (d'\<lparr>io_count := n\<rparr>) = same_files d d'"
  by (auto simp: same_files_def)

lemma same_filesD: "same_files d d' \<Longrightarrow> files d' = files d" "same_files d d' \<Longrightarrow> no_faults d' = no_faults d"
  by (auto simp: same_files_def no_faults_def)

lemma same_files_trans: "same_files d d' \<Longrightarrow> same_files d' d'' \<Longrightarrow> same_files d d''"
  by (simp add: same_files_def)

lemma add_u64_succ: "unat i + 1 < 2 ^ 64 \<Longrightarrow> add_u64 i 1 = Inr (i + 1)"
  by (simp add: add_u64_def)

lemma open_tables_spec:
  assumes "no_faults (w_disk w)"
    "\<forall>t \<in> set ts. files (w_disk w) (sst_path dir (tid t)) = Some (sst_bytes (snd t)) \<and> sst_good (tentries t) (snd t) \<and>
       unat (tid t) + 1 < 2 ^ 64"
  shows "\<exists>j d. open_tables dir (map fst ts) i rs w = (Inr (j, rs @ map open_of ts), w\<lparr>w_disk := d\<rparr>) \<and>
    same_files (w_disk w) d \<and> i \<le> j \<and> (\<forall>t \<in> set ts. tid t < j) \<and>
    (\<forall>n. unat i \<le> n \<longrightarrow> (\<forall>t \<in> set ts. unat (tid t) + 1 \<le> n) \<longrightarrow> unat j \<le> n)"
  using assms
proof (induction ts arbitrary: i rs w)
  case Nil
  then show ?case by (intro exI [of _ i] exI [of _ "w_disk w"]) (simp add: st_return_def)
next
  case (Cons t ts)
  let ?p = "sst_path dir (tid t)" and ?w = "w\<lparr>w_disk := tick (w_disk w)\<rparr>"
  let ?i = "if i \<le> tid t then tid t + 1 else i"
  have t: "files (w_disk w) ?p = Some (sst_bytes (snd t))" "sst_good (tentries t) (snd t)" "unat (tid t) + 1 < 2 ^ 64"
    using Cons.prems(2) by simp_all
  have le: "i \<le> ?i" "tid t < ?i"
    using less_succ_u64 [OF t(3), of "tid t"] less_succ_u64 [OF t(3), of i] by (auto simp: not_le less_imp_le)
  obtain j d where j: "open_tables dir (map fst ts) ?i (rs @ [open_of t]) ?w =
      (Inr (j, (rs @ [open_of t]) @ map open_of ts), ?w\<lparr>w_disk := d\<rparr>)" "same_files (w_disk ?w) d" "?i \<le> j"
    "\<forall>t \<in> set ts. tid t < j" "\<forall>n. unat ?i \<le> n \<longrightarrow> (\<forall>t \<in> set ts. unat (tid t) + 1 \<le> n) \<longrightarrow> unat j \<le> n"
    using Cons.IH [of ?w ?i "rs @ [open_of t]"] Cons.prems by auto
  have "unat ?i = (if i \<le> tid t then unat (tid t) + 1 else unat i)" using unat_add_u64 [of "tid t" 1] t(3) by simp
  then have bound: "unat j \<le> n" if "unat i \<le> n" "\<forall>u \<in> set (t # ts). unat (tid u) + 1 \<le> n" for n
    using that j(5) by simp
  have "open_tables dir (map fst (t # ts)) i rs w = open_tables dir (map fst ts) ?i (rs @ [open_of t]) ?w"
    using t(1)
    by (simp add: exists_file_def tid_def add_u64_succ [OF t(3) [unfolded tid_def]] open_of_def
        on_disk_eq [where m = "sst_open ?p (tid t)", OF sst_open_good [OF Cons.prems(1) t(1,2)], unfolded tid_def])
  then show ?case
    using j(1-4) le bound
    by (intro exI [of _ j] exI [of _ d]) (auto simp: same_files_def intro: less_le_trans)
qed

lemma sst_open_any:
  "sst_open p i d = (r, d') \<Longrightarrow> files d' = files d \<and> faults d' = faults d"
  by (auto simp: sst_open_def read_file_def st_bind_def st_lift_def split: option.splits)

text \<open>Tables of the manifest whose file is missing are skipped without an error.\<close>

lemma open_tables_skip:
  "open_tables dir ms i rs w =
     open_tables dir (filter (\<lambda>m. files (w_disk w) (sst_path dir (meta_id m)) \<noteq> None) ms) i rs w"
proof (induction ms arbitrary: i rs w)
  case (Cons m ms)
  let ?p = "sst_path dir (meta_id m)"
  obtain r d where r: "sst_open ?p (meta_id m) (w_disk w) = (r, d)" by (metis surj_pair)
  have "files d = files (w_disk w)" using sst_open_any [OF r] by simp
  then show ?case
    using Cons.IH [of i rs w] Cons.IH [of _ _ "w\<lparr>w_disk := d\<rparr>"] r
    by (auto simp: exists_file_def st_bind_def st_simps on_disk_def split: sum.splits)
qed simp

subsection \<open>Replaying the log\<close>

lemma replay_map_Inr:
  assumes "mt_inv m" "immutable m = None"
  shows "\<exists>m' rng'. replay (map Inr rs) (m, rng) = Inr (m', rng') \<and> mt_inv m' \<and> immutable m' = None \<and> max_size m' = max_size m \<and>
    mt_lookup m' = foldl (\<lambda>m r. m(rec_key r \<mapsto> rec_stored r)) (mt_lookup m) rs"
  using assms
proof (induction rs arbitrary: m rng)
  case (Cons r rs)
  obtain m1 where m1: "mt_put_no_freeze (rec_key r) (rec_stored r) (m, rng) = Inr (m1, xorshift rng)" "mt_inv m1"
    "mt_lookup m1 = (mt_lookup m)(rec_key r \<mapsto> rec_stored r)" "immutable m1 = immutable m" "max_size m1 = max_size m"
    using mt_put_no_freeze_spec [OF Cons.prems(1), of "rec_key r" "rec_stored r" rng] by blast
  show ?case using Cons.IH [of m1 "xorshift rng"] m1 Cons.prems(2) by (simp add: rec_stored_def)
qed simp

text \<open>The log of the directory reads as \<open>rs\<close>, possibly with a torn tail; an absent file counts as an empty log.\<close>

definition log_file :: "checksum \<Rightarrow> wal_record list \<Rightarrow> disk \<Rightarrow> path \<Rightarrow> bool" where
  "log_file crc rs d p \<longleftrightarrow> wal_read crc (file_bytes d p) = map Inr rs"

lemma wal_read_Nil [simp]: "wal_read crc [] = []"
  by (simp add: wal_read.simps [of crc "[]"] wal_next_def)

lemma wal_read_log: "\<forall>r \<in> set rs. record_fits r \<Longrightarrow> wal_read crc (log_bytes crc rs) = map Inr rs"
  using wal_read_append [of rs crc "[]"] by simp

lemma log_file_exact: "\<forall>r \<in> set rs. record_fits r \<Longrightarrow> files d p = Some (log_bytes crc rs) \<Longrightarrow> log_file crc rs d p"
  by (simp add: log_file_def file_bytes_def wal_read_log)

lemma log_file_empty: "files d p = None \<or> files d p = Some [] \<Longrightarrow> log_file crc [] d p"
  by (auto simp: log_file_def file_bytes_def)

lemma replay_wal_total:
  assumes "no_faults (w_disk w)" "log_file crc rs (w_disk w) p"
  shows "\<exists>m d rng. replay_wal crc p ms w = (Inr m, w\<lparr>w_disk := d, w_rng := rng\<rparr>) \<and> same_files (w_disk w) d \<and>
    mt_inv m \<and> immutable m = None \<and> mt_lookup m = replayed rs \<and> max_size m = ms"
proof -
  obtain m0 where m0: "mt_with_max_size ms = Inr m0" "mt_inv m0" "mt_lookup m0 = Map.empty" "immutable m0 = None" "max_size m0 = ms"
    using mt_new_spec [of ms] by blast
  obtain m rng where m: "replay (map Inr rs) (m0, w_rng w) = Inr (m, rng)" "mt_inv m" "immutable m = None" "mt_lookup m = replayed rs"
    "max_size m = ms"
    using replay_map_Inr [OF m0(2,4), of rs "w_rng w"] m0(3,5) by (auto simp: replayed_def)
  show ?thesis
  proof (cases "files (w_disk w) p")
    case None
    then have "rs = []" using assms(2) by (simp add: log_file_def file_bytes_def)
    then show ?thesis using m m0 None
      by (intro exI [of _ m] exI [of _ "w_disk w"] exI [of _ "w_rng w"])
        (simp add: replay_wal_def exists_file_def st_return_def)
  next
    case (Some c)
    then have c: "wal_read crc c = map Inr rs" using assms(2) by (simp add: log_file_def file_bytes_def)
    show ?thesis using Some m m0(1)
      by (intro exI [of _ m] exI [of _ "tick (w_disk w)"] exI [of _ rng])
        (simp add: replay_wal_def exists_file_def st_return_def c
          on_disk_eq [where m = "read_file p", OF read_file_total [OF assms(1) Some]])
  qed
qed

lemma wal_open_total:
  "no_faults d \<Longrightarrow> wal_open p d = (Inr \<lparr>bw_path = p, bw_buf = []\<rparr>,
     (case files d p of None \<Rightarrow> set_file p (Some []) (tick d) | Some _ \<Rightarrow> tick d))"
  by (simp add: wal_open_def open_append_def fault_now_def no_faults_def st_bind_def st_return_def)

subsection \<open>Opening\<close>

text \<open>The tables of the manifest, in its order, as they are read back: the level of a table is forgotten.\<close>

definition reloaded :: "table list \<Rightarrow> table list" where
  "reloaded ts = map (\<lambda>(m, bs). (m\<lparr>meta_level := 0\<rparr>, bs)) ts"

lemma reloaded_simps [simp]:
  "reloaded [] = []" "reloaded (t # ts) = ((fst t)\<lparr>meta_level := 0\<rparr>, snd t) # reloaded ts"
  "reloaded (ts @ us) = reloaded ts @ reloaded us"
  by (simp_all add: reloaded_def split: prod.splits)

lemma reloaded_fields [simp]:
  "map tid (reloaded ts) = map tid ts" "table_lookup (reloaded ts) = table_lookup ts"
  "tables_weight (reloaded ts) = tables_weight ts" "ranges_ok (reloaded ts) = ranges_ok ts"
  "tables_ok tbl (reloaded ts) = tables_ok tbl ts"
  by (induction ts) (simp_all add: tid_def tentries_def ranges_ok_def in_range_def)

lemma reloaded_files:
  "\<forall>t \<in> set ts. P (tid t) (snd t) (tentries t) \<Longrightarrow> \<forall>t \<in> set (reloaded ts). P (tid t) (snd t) (tentries t)"
  by (auto simp: reloaded_def tid_def tentries_def)

lemma whole_relevel: "whole (m\<lparr>meta_level := 0\<rparr>, bs) = whole (m, bs)"
  by (simp add: whole_def tentries_def)

lemma reloaded_whole: "\<forall>t \<in> set ts. whole t \<Longrightarrow> \<forall>t \<in> set (reloaded ts). whole t"
  by (auto simp only: reloaded_def set_map image_iff case_prod_unfold whole_relevel surjective_pairing [symmetric])

lemma map_fst_reloaded: "map fst (reloaded ts) = map (\<lambda>m. m\<lparr>meta_level := 0\<rparr>) (map fst ts)"
  by (induction ts) simp_all

lemma reloaded_present:
  "map fst ts = filter (\<lambda>m. P (meta_id m)) (concat ls) \<Longrightarrow>
     map fst (reloaded ts) = filter (\<lambda>m. P (meta_id m)) (concat (map (map (\<lambda>m. m\<lparr>meta_level := 0\<rparr>)) ls))"
  by (simp only: map_fst_reloaded map_concat [symmetric]) (simp add: filter_map comp_def)

text \<open>The manifest does not record levels per table, so forgetting them does not change its bytes.\<close>

lemma manifest_encode_forget: "manifest_encode (forget_levels mf) = manifest_encode mf"
proof -
  have "encode_meta (m\<lparr>meta_level := 0\<rparr>) = encode_meta m" for m by (simp add: encode_meta_def)
  then have "encode_level (map (\<lambda>m. m\<lparr>meta_level := 0\<rparr>) l) = encode_level l" for l
    by (simp add: encode_level_def comp_def)
  then show ?thesis by (simp add: manifest_encode_def forget_levels_def comp_def)
qed

lemma forget_levels_new: "forget_levels manifest_new = manifest_new"
  by (simp add: forget_levels_def manifest_new_def)

text \<open>What a directory must hold, and what \<open>read_dir\<close> must list, for the engine to find its log.\<close>

definition lists_files :: "(disk \<Rightarrow> path \<Rightarrow> string list) \<Rightarrow> disk \<Rightarrow> path \<Rightarrow> bool" where
  "lists_files readdir d dir \<longleftrightarrow> (\<forall>d'. files d' = files d \<longrightarrow>
     (\<forall>name. name \<in> set (readdir d' dir) \<longleftrightarrow> files d (path_join dir name) \<noteq> None \<and> CHR ''/'' \<notin> set name))"

lemma wal_path_total:
  assumes "no_faults (w_disk w)" "lists_files (w_readdir w) (w_disk w) dir" "one_log dir (w_disk w)"
  shows "wal_path_for_dir dir w = (Inr (default_wal_path dir), w\<lparr>w_disk := tick (w_disk w)\<rparr>)"
proof -
  let ?names = "w_readdir w (w_disk w) dir"
  have "name = ''000001.wal''" if "name \<in> set (filter (ends_with ''.wal'') ?names)" for name
    using that assms(2,3) by (auto simp: lists_files_def one_log_def)
  then have "(case filter (ends_with ''.wal'') ?names of name # _ \<Rightarrow> path_join dir name | [] \<Rightarrow> default_wal_path dir) = default_wal_path dir"
    by (cases "filter (ends_with ''.wal'') ?names") (simp_all add: default_wal_path_def)
  moreover have "read_dir dir w = (Inr ?names, w\<lparr>w_disk := tick (w_disk w)\<rparr>)"
    using assms(1) by (simp add: read_dir_def fault_now_def no_faults_def)
  ultimately show ?thesis
    by (simp only: wal_path_for_dir_def st_bind_eq(1) [where m = "read_dir dir"] st_return_def)
qed

definition table_map :: "table list \<Rightarrow> u64 \<Rightarrow> block list option" where
  "table_map ts = map_of (map (\<lambda>t. (tid t, snd t)) ts)"

lemma tables_ok_map:
  assumes "distinct (map tid ts)" "\<forall>t \<in> set ts. sst_good (tentries t) (snd t)"
  shows "tables_ok (table_map ts) ts"
proof -
  have "distinct (map fst (map (\<lambda>t. (tid t, snd t)) ts))" using assms(1) by (simp add: comp_def)
  then show ?thesis using assms(2) by (auto simp: tables_ok_def table_map_def intro!: map_of_is_SomeI)
qed

lemma eng_open_present:
  assumes nf: "no_faults (w_disk w)"
    and mf: "files (w_disk w) (manifest_path dir) = Some (manifest_encode mf) \<and> manifest_fits mf \<or>
      files (w_disk w) (manifest_path dir) = None \<and> mf = manifest_new"
    and ts: "map fst ts = filter (\<lambda>m. files (w_disk w) (sst_path dir (meta_id m)) \<noteq> None) (concat (levels mf))" "distinct (map tid ts)"
      "\<forall>t \<in> set ts. files (w_disk w) (sst_path dir (tid t)) = Some (sst_bytes (snd t)) \<and> sst_good (tentries t) (snd t) \<and>
         unat (tid t) + 1 < 2 ^ 64"
    and log: "log_file crc rs (w_disk w) (default_wal_path dir)"
    and ls: "lists_files (w_readdir w) (w_disk w) dir" "one_log dir (w_disk w)"
  shows "\<exists>e' w'. eng_open crc dir opts w = (Inr e', w') \<and> eng_ok (table_map ts) (reloaded ts) e' \<and> settled e' \<and>
    stored (reloaded ts) e' = table_lookup ts ++ replayed rs \<and> mt_lookup (e_mem e') = replayed rs \<and>
    e_manifest e' = forget_levels mf \<and> e_path e' = dir \<and> e_opts e' = opts \<and>
    (\<forall>n. 1 \<le> n \<longrightarrow> (\<forall>t \<in> set ts. unat (tid t) + 1 \<le> n) \<longrightarrow> unat (e_next_sst e') \<le> n) \<and>
    e_next_seq e' = 1 \<and> e_wal e' = \<lparr>bw_path = default_wal_path dir, bw_buf = []\<rparr> \<and> same_env w w' \<and> no_faults (w_disk w') \<and>
    files (w_disk w') = (files (w_disk w))(default_wal_path dir \<mapsto> file_bytes (w_disk w) (default_wal_path dir)) \<and>
    max_size (e_mem e') = o_memtable_size opts"
proof -
  let ?wal = "default_wal_path dir" and ?ts = "reloaded ts"
  let ?w1 = "w\<lparr>w_disk := tick (w_disk w)\<rparr>"
  obtain n where mfl: "manifest_load (manifest_path dir) (w_disk ?w1) = (Inr (forget_levels mf), (w_disk ?w1)\<lparr>io_count := n\<rparr>)"
    using manifest_load_total [of "w_disk ?w1" "manifest_path dir" mf] nf mf by auto
  let ?w2 = "?w1\<lparr>w_disk := (w_disk ?w1)\<lparr>io_count := n\<rparr>\<rparr>"
  have w2: "same_files (w_disk w) (w_disk ?w2)" "no_faults (w_disk ?w2)" using nf by (simp_all add: no_faults_def tick_def)
  have "\<forall>t \<in> set ?ts. files (w_disk ?w2) (sst_path dir (tid t)) = Some (sst_bytes (snd t)) \<and> sst_good (tentries t) (snd t) \<and>
      unat (tid t) + 1 < 2 ^ 64"
    using reloaded_files [of ts "\<lambda>i bs es. files (w_disk w) (sst_path dir i) = Some (sst_bytes bs) \<and> sst_good es bs \<and> unat i + 1 < 2 ^ 64"]
      ts(3) by simp
  moreover have "open_tables dir (concat (levels (forget_levels mf))) 1 [] ?w2 = open_tables dir (map fst ?ts) 1 [] ?w2"
  proof -
    have "map fst ?ts = filter (\<lambda>m. files (w_disk w) (sst_path dir (meta_id m)) \<noteq> None) (concat (levels (forget_levels mf)))"
      using reloaded_present [OF ts(1)] by (simp add: forget_levels_def)
    then show ?thesis using same_filesD(1) [OF w2(1)] by (subst open_tables_skip) (simp only:)
  qed
  ultimately obtain j d3 where ot: "open_tables dir (concat (levels (forget_levels mf))) 1 [] ?w2 = (Inr (j, map open_of ?ts), ?w2\<lparr>w_disk := d3\<rparr>)"
    "same_files (w_disk ?w2) d3" "\<forall>t \<in> set ?ts. tid t < j"
    "\<forall>n. unat (1 :: u64) \<le> n \<longrightarrow> (\<forall>t \<in> set ?ts. unat (tid t) + 1 \<le> n) \<longrightarrow> unat j \<le> n"
    using open_tables_spec [OF w2(2), of ?ts dir 1 "[]"] by fastforce
  let ?w3 = "?w2\<lparr>w_disk := d3\<rparr>"
  have w3: "same_files (w_disk w) d3" "no_faults d3"
    using w2 ot(2) same_files_trans same_filesD(2) by blast+
  then have wp: "wal_path_for_dir dir ?w3 = (Inr ?wal, ?w3\<lparr>w_disk := tick d3\<rparr>)"
    using wal_path_total [of ?w3 dir] ls same_filesD(1) [OF w3(1)] by (simp add: one_log_def lists_files_def)
  let ?w4 = "?w3\<lparr>w_disk := tick d3\<rparr>"
  obtain m d5 rng where rw: "replay_wal crc ?wal (o_memtable_size opts) ?w4 = (Inr m, ?w4\<lparr>w_disk := d5, w_rng := rng\<rparr>)"
    "same_files (w_disk ?w4) d5" "mt_inv m" "immutable m = None" "mt_lookup m = replayed rs" "max_size m = o_memtable_size opts"
    using replay_wal_total [of ?w4 crc rs ?wal "o_memtable_size opts"] log w3(2) same_filesD(1) [OF w3(1)] by (auto simp: log_file_def file_bytes_def)
  have "same_files (w_disk w) d5" using w3(1) rw(2) by (simp add: same_files_def)
  then have w5: "files d5 = files (w_disk w)" "no_faults d5" using same_filesD nf by blast+
  let ?w5 = "?w4\<lparr>w_disk := d5, w_rng := rng\<rparr>"
  let ?d6 = "case files d5 ?wal of None \<Rightarrow> set_file ?wal (Some []) (tick d5) | Some _ \<Rightarrow> tick d5"
  have wo: "wal_open ?wal (w_disk ?w5) = (Inr \<lparr>bw_path = ?wal, bw_buf = []\<rparr>, ?d6)"
    using wal_open_total [OF w5(2)] by simp
  let ?e = "\<lparr>e_path = dir, e_wal = \<lparr>bw_path = ?wal, bw_buf = []\<rparr>, e_mem = m, e_manifest = forget_levels mf,
      e_readers = map open_of ?ts, e_next_sst = j, e_next_seq = 1, e_opts = opts, e_metrics = metrics_new,
      e_cache = (if 0 < o_cache_size opts then Some (cache_new (o_cache_size opts)) else None)\<rparr>"
  have run: "eng_open crc dir opts w = (Inr ?e, ?w5\<lparr>w_disk := ?d6\<rparr>)"
  proof -
    have 1: "on_disk (make_dirs dir) w = (Inr (), ?w1)" using make_dirs_total [OF nf] by (simp add: on_disk_def)
    have 2: "on_disk (manifest_load (manifest_path dir)) ?w1 = (Inr (forget_levels mf), ?w2)"
      using mfl by (simp add: on_disk_def)
    have 3: "on_disk (wal_open ?wal) ?w5 = (Inr \<lparr>bw_path = ?wal, bw_buf = []\<rparr>, ?w5\<lparr>w_disk := ?d6\<rparr>)"
      using wo by (simp add: on_disk_def)
    define w1 w2 w3 w4 w5 w6 where "w1 = ?w1" "w2 = ?w2" "w3 = ?w3" "w4 = ?w4" "w5 = ?w5" "w6 = ?w5\<lparr>w_disk := ?d6\<rparr>"
    note eqs = 1 [folded w1_w2_w3_w4_w5_w6_def] 2 [folded w1_w2_w3_w4_w5_w6_def] ot(1) [folded w1_w2_w3_w4_w5_w6_def]
      wp [folded w1_w2_w3_w4_w5_w6_def] rw(1) [folded w1_w2_w3_w4_w5_w6_def] 3 [folded w1_w2_w3_w4_w5_w6_def]
    show ?thesis
      unfolding w1_w2_w3_w4_w5_w6_def(6) [symmetric]
      by (simp add: eng_open_def st_bind_def eqs Let_def st_return_def)
  qed
  have "eng_ok (table_map ts) ?ts ?e"
  proof -
    have "i < j" if "table_map ts i \<noteq> None" for i
    proof -
      have "i \<in> tid ` set ts" using that
        by (simp only: table_map_def map_of_eq_None_iff not_not) (auto simp: image_image)
      then have "i \<in> set (map tid ?ts)" by simp
      then show ?thesis using ot(3) unfolding set_map by blast
    qed
    moreover have "tables_ok (table_map ts) ?ts" using tables_ok_map [OF ts(2)] ts(3) by simp
    ultimately show ?thesis using rw(3) ts(2) by (simp add: eng_ok_def cache_ok_new)
  qed
  moreover have "files ?d6 = (files (w_disk w))(?wal \<mapsto> file_bytes (w_disk w) ?wal)" "no_faults ?d6"
    using w5 by (auto simp: file_bytes_def fun_eq_iff split: option.splits)
  moreover have "unat j \<le> n" if "1 \<le> n" "\<forall>t \<in> set ts. unat (tid t) + 1 \<le> n" for n
    using that ot(4) reloaded_files [of ts "\<lambda>i bs es. unat i + 1 \<le> n"] by simp
  ultimately show ?thesis using run rw(4-6)
    by (intro exI [of _ ?e] exI [of _ "?w5\<lparr>w_disk := ?d6\<rparr>"])
      (simp add: settled_def stored_def same_env_def)
qed

lemma eng_open_total:
  assumes "no_faults (w_disk w)"
    and "files (w_disk w) (manifest_path dir) = Some (manifest_encode mf) \<and> manifest_fits mf \<or>
      files (w_disk w) (manifest_path dir) = None \<and> mf = manifest_new"
    and ts: "map fst ts = concat (levels mf)" and "distinct (map tid ts)"
    and good: "\<forall>t \<in> set ts. files (w_disk w) (sst_path dir (tid t)) = Some (sst_bytes (snd t)) \<and> sst_good (tentries t) (snd t) \<and>
         unat (tid t) + 1 < 2 ^ 64"
    and "log_file crc rs (w_disk w) (default_wal_path dir)" "lists_files (w_readdir w) (w_disk w) dir" "one_log dir (w_disk w)"
  shows "\<exists>e' w'. eng_open crc dir opts w = (Inr e', w') \<and> eng_ok (table_map ts) (reloaded ts) e' \<and> settled e' \<and>
    stored (reloaded ts) e' = table_lookup ts ++ replayed rs \<and> mt_lookup (e_mem e') = replayed rs \<and>
    e_manifest e' = forget_levels mf \<and> e_path e' = dir \<and> e_opts e' = opts \<and>
    (\<forall>n. 1 \<le> n \<longrightarrow> (\<forall>t \<in> set ts. unat (tid t) + 1 \<le> n) \<longrightarrow> unat (e_next_sst e') \<le> n) \<and>
    e_next_seq e' = 1 \<and> e_wal e' = \<lparr>bw_path = default_wal_path dir, bw_buf = []\<rparr> \<and> same_env w w' \<and> no_faults (w_disk w') \<and>
    files (w_disk w') = (files (w_disk w))(default_wal_path dir \<mapsto> file_bytes (w_disk w) (default_wal_path dir)) \<and>
    max_size (e_mem e') = o_memtable_size opts"
proof (rule eng_open_present [OF assms(1,2) _ assms(4-8)])
  have "\<forall>m \<in> set (concat (levels mf)). files (w_disk w) (sst_path dir (meta_id m)) \<noteq> None"
    using good unfolding ts [symmetric] by (auto simp: tid_def)
  then show "map fst ts = filter (\<lambda>m. files (w_disk w) (sst_path dir (meta_id m)) \<noteq> None) (concat (levels mf))"
    using ts by (simp only: filter_True)
qed

subsection \<open>Opening what the engine left behind\<close>

lemma short_keys_replayed:
  assumes "settled e" "alike (mt_lookup (e_mem e)) (replayed rs)" "calm e0" "alike (replayed rs) (mt_lookup (e_mem e0))"
    "mt_lookup (e_mem e) = replayed rs"
  shows "calm e"
proof -
  have eq: "mt_lookup (e_mem e) = map_of (sl_contents (active (e_mem e)))" "mt_lookup (e_mem e0) = map_of (sl_contents (active (e_mem e0)))"
    using assms(1,3) by (simp_all add: mt_lookup_settled settled_def calm_def)
  have "k \<in> fst ` set (sl_contents (active (e_mem e0)))" if "k \<in> fst ` set (sl_contents (active (e_mem e)))" for k
  proof -
    have "mt_lookup (e_mem e) k \<noteq> None" using that by (simp add: eq map_of_eq_None_iff)
    then have "mt_lookup (e_mem e0) k \<noteq> None" using assms(4,5) by (metis alike_def)
    then show ?thesis by (simp add: eq map_of_eq_None_iff)
  qed
  then show ?thesis using assms(1,3) by (fastforce simp: calm_def short_keys_def)
qed

lemma forget_levels_simps [simp]:
  "ssts_at_level (forget_levels mf) l = map (\<lambda>m. m\<lparr>meta_level := 0\<rparr>) (ssts_at_level mf l)"
  "shallow (forget_levels mf) = shallow mf"
  by (simp_all add: forget_levels_def ssts_at_level_def shallow_def)

lemma level_apart_forget: "level_apart mf l \<Longrightarrow> level_apart (forget_levels mf) l"
  by (auto simp: level_apart_def apart_def)

text \<open>\<open>read_dir\<close> lists the names of the entries of a directory, each once or more, and nothing else. Only finitely
  many files exist.\<close>

definition sound_listing :: "(disk \<Rightarrow> path \<Rightarrow> string list) \<Rightarrow> bool" where
  "sound_listing readdir \<longleftrightarrow> (\<forall>d dir. finite (dom (files d)) \<longrightarrow>
     (\<forall>name. name \<in> set (readdir d dir) \<longleftrightarrow> files d (path_join dir name) \<noteq> None \<and> CHR ''/'' \<notin> set name))"

lemma sound_listing_lists: "sound_listing rd \<Longrightarrow> tidy dir d \<Longrightarrow> lists_files rd d dir"
  by (simp add: sound_listing_def lists_files_def tidy_def)

text \<open>The bounds of the manifest's format follow from the bound on what is stored.\<close>

lemma length_level: "l \<in> set ls \<Longrightarrow> length l \<le> length (concat (rev ls))"
  by (induction ls) auto

lemma tables_count: "\<forall>t \<in> set ts. whole t \<Longrightarrow> length ts \<le> tables_weight ts"
proof (induction ts)
  case (Cons t ts)
  then have "tentries t \<noteq> []" by (simp add: whole_def)
  then have "1 \<le> weight (tentries t)" by (cases "tentries t") (simp_all add: entry_weight_def)
  then show ?case using Cons by simp
qed simp

lemma neat_fits:
  assumes "neat ts e d" "in_order ts e" "tables_ok tbl ts" "tables_weight ts < 2 ^ 32"
  shows "manifest_fits (e_manifest e)"
proof -
  have len: "length l < 2 ^ 32" if "l \<in> set (levels (e_manifest e))" for l
  proof -
    have "length l \<le> length (map fst ts)" using length_level [OF that] assms(2) by (simp only: in_order_def)
    then show ?thesis using tables_count [of ts] assms(1,4) by (simp add: neat_def)
  qed
  have "meta_fits m" if "l \<in> set (levels (e_manifest e))" "m \<in> set l" for l m
  proof -
    have "m \<in> set (map fst ts)" using that assms(2) by (simp only: in_order_def) auto
    then obtain t where t: "t \<in> set ts" "m = fst t" by auto
    have "whole t" "sst_good (tentries t) (snd t)" using assms(1,3) t(1) by (auto simp: neat_def tables_ok_def)
    then have w: "tentries t \<noteq> []" "min_key m = fst (hd (tentries t))" "max_key m = fst (last (tentries t))"
      and short: "short_keys (tentries t)" using sst_goodD(3) t(2) by (auto simp: whole_def sst_fits_weight)
    have "length (min_key m) < 2 ^ 16" "length (max_key m) < 2 ^ 16"
      using short hd_in_set [OF w(1)] last_in_set [OF w(1)] unfolding short_keys_def w(2,3) by blast+
    then show ?thesis by (simp add: meta_fits_def)
  qed
  then show ?thesis using len assms(1) by (simp add: manifest_fits_def neat_def)
qed

lemma weight_sum:
  "distinct (map fst es) \<Longrightarrow> weight es = (\<Sum>k \<in> dom (map_of es). 22 + 2 * length k + length (the (map_of es k)))"
proof (induction es)
  case (Cons e es)
  have new: "fst e \<notin> dom (map_of es)" using Cons.prems by (simp add: dom_map_of_conv_image_fst)
  have "(\<Sum>k \<in> dom (map_of es). 22 + 2 * length k + length (the (((map_of es)(fst e \<mapsto> snd e)) k))) = weight es"
    using Cons new by (auto intro!: sum.cong)
  moreover have "dom (map_of (e # es)) = insert (fst e) (dom (map_of es))" by (cases e) auto
  moreover have "map_of (e # es) = (map_of es)(fst e \<mapsto> snd e)" by (cases e) simp
  ultimately show ?case using new
    by (simp only: sum.insert [OF finite_dom_map_of new]) (simp add: entry_weight_def)
qed simp

lemma weight_alike:
  assumes "distinct (map fst es)" "distinct (map fst fs)" "alike (map_of es) (map_of fs)"
  shows "weight es \<le> weight fs"
proof -
  have "map_of es k = None \<longleftrightarrow> map_of fs k = None" for k using assms(3) by (simp add: alike_def)
  then have "dom (map_of es) = dom (map_of fs)" by (simp add: dom_def)
  moreover have "length (the (map_of es k)) \<le> length (the (map_of fs k))" for k using assms(3) unfolding alike_def by blast
  ultimately show ?thesis
    by (simp only: weight_sum [OF assms(1)] weight_sum [OF assms(2)]) (intro sum_mono add_left_mono, blast)
qed

lemma settled_weight:
  assumes "mt_inv (e_mem e)" "mt_inv (e_mem e')" "settled e" "settled e'" "alike (mt_lookup (e_mem e)) (mt_lookup (e_mem e'))"
  shows "weight (sl_contents (active (e_mem e))) \<le> weight (sl_contents (active (e_mem e')))"
proof (rule weight_alike)
  show "distinct (map fst (sl_contents (active (e_mem e))))" "distinct (map fst (sl_contents (active (e_mem e'))))"
    using assms(1,2) mt_inv_lists(4) sorted_keys_distinct by blast+
  show "alike (map_of (sl_contents (active (e_mem e)))) (map_of (sl_contents (active (e_mem e'))))"
    using assms(3-5) by (simp add: settled_def mt_lookup_settled)
qed

text \<open>When one level holds all tables, the order of the manifest is the order of age.\<close>

definition one_level :: "manifest \<Rightarrow> bool" where
  "one_level mf \<longleftrightarrow> concat (levels mf) = concat (rev (levels mf))"

theorem open_fresh:
  assumes "no_faults (w_disk w)" "files (w_disk w) (manifest_path dir) = None" "files (w_disk w) (default_wal_path dir) = None"
    "sound_listing (w_readdir w)" "tidy dir (w_disk w)" "o_sync_wal opts"
  shows "\<exists>e' w'. eng_open crc dir opts w = (Inr e', w') \<and> db_ok crc [] e' w' \<and> (\<forall>t k. view t [] e' k = None) \<and>
    e_opts e' = opts \<and> e_path e' = dir \<and> e_next_seq e' = 1 \<and> unat (e_next_sst e') \<le> 1 \<and>
    e_manifest e' = manifest_new \<and> load [] e' = 0 \<and> same_env w w' \<and> max_size (e_mem e') = o_memtable_size opts"
proof -
  have ts: "map fst ([] :: table list) = concat (levels manifest_new)" by (simp add: manifest_new_def)
  have log: "log_file crc [] (w_disk w) (default_wal_path dir)" using assms(3) by (simp add: log_file_empty)
  have ls: "lists_files (w_readdir w) (w_disk w) dir" "one_log dir (w_disk w)"
    using assms(4,5) sound_listing_lists by (simp_all add: tidy_def)
  obtain e' w' where e': "eng_open crc dir opts w = (Inr e', w')" "eng_ok (table_map []) [] e'" "settled e'"
    "stored [] e' = Map.empty" "mt_lookup (e_mem e') = Map.empty" "e_manifest e' = manifest_new" "e_path e' = dir" "e_opts e' = opts"
    "unat (e_next_sst e') \<le> 1" "e_next_seq e' = 1" "e_wal e' = \<lparr>bw_path = default_wal_path dir, bw_buf = []\<rparr>" "same_env w w'"
    "no_faults (w_disk w')" "files (w_disk w') = (files (w_disk w))(default_wal_path dir \<mapsto> [])"
    "max_size (e_mem e') = o_memtable_size opts"
    using eng_open_total [OF assms(1) _ ts _ _ log ls, of opts] assms(2,3) by (auto simp: forget_levels_def manifest_new_def file_bytes_def)
  have empty: "sl_contents (active (e_mem e')) = []"
    using e'(3,5) by (simp add: settled_def mt_lookup_settled)
  have "dom (files (w_disk w')) \<subseteq> dom (files (w_disk w)) \<union> engine_files dir" using e'(14) by (auto simp: engine_files_def)
  from tidy_extend [OF assms(5) this] have "neat [] e' (w_disk w')" using e'(6,7) by (simp add: neat_def manifest_new_def)
  then have "sys_ok (table_map []) [] e' w'"
    using e' assms(2) by (simp add: sys_ok_def tree_ok_def in_order_def ranges_ok_def level_apart_def files_ok_def
        ssts_at_level_def manifest_new_def)
  moreover have "log_ok crc [] e' w'" using e' by (simp add: log_ok_def)
  moreover have "calm e'" using e'(3) empty by (simp add: calm_def)
  ultimately have "db_ok crc [] e' w'" using e'(8) assms(6) by (auto simp: db_ok_def)
  then show ?thesis using e' empty by (intro exI [of _ e'] exI [of _ w']) (simp add: view_def load_def)
qed

text \<open>The tables in the order of the manifest, which \<open>open\<close> takes for the order of age.\<close>

definition reordered :: "table list \<Rightarrow> engine \<Rightarrow> table list" where
  "reordered ts e = map (\<lambda>m. (m, the (map_of ts m))) (concat (levels (e_manifest e)))"

lemma map_fst_reordered: "map fst (reordered ts e) = concat (levels (e_manifest e))"
  by (simp only: reordered_def list.map_comp comp_def fst_conv list.map_ident)

lemma distinct_metas: "distinct (map tid ts) \<Longrightarrow> distinct (map fst ts)"
  by (auto simp: distinct_map inj_on_def tid_def)

lemma reordered_self:
  assumes "distinct (map fst ts)" "map fst ts = concat (levels (e_manifest e))"
  shows "reordered ts e = ts"
proof -
  have "reordered ts e = map (\<lambda>t. (fst t, the (map_of ts (fst t)))) ts"
    by (simp only: reordered_def assms(2) [symmetric] list.map_comp comp_def)
  also have "\<dots> = ts" using assms(1) by (intro map_idI) auto
  finally show ?thesis .
qed

lemma reordered_set:
  assumes "in_order ts e" "distinct (map fst ts)"
  shows "set (reordered ts e) = set ts"
proof -
  have "set (concat (levels (e_manifest e))) = set (concat (rev (levels (e_manifest e))))" by simp
  then have "set (concat (levels (e_manifest e))) = fst ` set ts" using assms(1) by (simp only: in_order_def set_map [symmetric])
  then have "set (reordered ts e) = (\<lambda>t. (fst t, the (map_of ts (fst t)))) ` set ts"
    by (simp only: reordered_def set_map image_image)
  moreover have "(fst t, the (map_of ts (fst t))) = t" if "t \<in> set ts" for t
    using assms(2) that by (cases t) simp
  ultimately show ?thesis by simp
qed

lemma reordered_distinct:
  assumes "in_order ts e" "distinct (map tid ts)"
  shows "distinct (map tid (reordered ts e))"
proof -
  have "mset (concat (levels (e_manifest e))) = mset (concat (rev (levels (e_manifest e))))" by (simp add: mset_concat rev_map [symmetric] sum_list_rev)
  then have "mset (map fst (reordered ts e)) = mset (map fst ts)"
    using assms(1) by (simp only: in_order_def map_fst_reordered)
  then have "mset (map meta_id (map fst (reordered ts e))) = mset (map meta_id (map fst ts))" by (simp only: mset_map)
  then show ?thesis using assms(2) mset_eq_imp_distinct_iff unfolding tid_def [abs_def] list.map_comp comp_def by metis
qed

text \<open>Opening the directory of a good database, whatever its levels hold.\<close>

lemma sys_reopen:
  assumes sys: "sys_ok tbl ts e w" and log: "log_file crc rs (w_disk w) (default_wal_path (e_path e))"
    and small: "tables_weight ts < 2 ^ 32" and listing: "sound_listing (w_readdir w)"
  shows "\<exists>e' w'. eng_open crc (e_path e) opts w = (Inr e', w') \<and>
    eng_ok (table_map (reordered ts e)) (reloaded (reordered ts e)) e' \<and> settled e' \<and>
    stored (reloaded (reordered ts e)) e' = table_lookup (reordered ts e) ++ replayed rs \<and> mt_lookup (e_mem e') = replayed rs \<and>
    e_manifest e' = forget_levels (e_manifest e) \<and> e_path e' = e_path e \<and> e_opts e' = opts \<and>
    unat (e_next_sst e') \<le> max 1 (unat (e_next_sst e)) \<and> e_next_seq e' = 1 \<and>
    e_wal e' = \<lparr>bw_path = default_wal_path (e_path e), bw_buf = []\<rparr> \<and> same_env w w' \<and> no_faults (w_disk w') \<and>
    files (w_disk w') = (files (w_disk w))(default_wal_path (e_path e) \<mapsto> file_bytes (w_disk w) (default_wal_path (e_path e))) \<and>
    max_size (e_mem e') = o_memtable_size opts"
proof -
  note sd = sys_okD [OF sys] and t = tree_okD [OF sys_okD(2) [OF sys]] and o = eng_okD [OF sys_okD(1) [OF sys]]
  let ?dir = "e_path e" and ?mf = "e_manifest e" and ?us = "reordered ts e"
  have fits: "manifest_fits ?mf" using neat_fits [OF sd(7) t(1) o(3)] small by simp
  have tidy: "tidy ?dir (w_disk w)" using sd(7) by (simp add: neat_def)
  then have ls: "lists_files (w_readdir w) (w_disk w) ?dir" "one_log ?dir (w_disk w)"
    using sound_listing_lists [OF listing] by (simp_all add: tidy_def)
  have mf: "files (w_disk w) (manifest_path ?dir) = Some (manifest_encode ?mf) \<and> manifest_fits ?mf \<or>
      files (w_disk w) (manifest_path ?dir) = None \<and> ?mf = manifest_new"
    using sd(6) fits by (simp add: files_ok_def)
  note us = reordered_set [OF t(1) distinct_metas [OF o(6)]] reordered_distinct [OF t(1) o(6)] map_fst_reordered [of ts e]
  have below: "unat (tid u) + 1 \<le> unat (e_next_sst e)" if "u \<in> set ts" for u
  proof -
    have "tid u < e_next_sst e" using o(3) that o(5) [of "tid u"] by (auto simp: tables_ok_def)
    then show ?thesis by (simp add: word_less_nat_alt)
  qed
  have tabs: "\<forall>u \<in> set ?us. files (w_disk w) (sst_path ?dir (tid u)) = Some (sst_bytes (snd u)) \<and> sst_good (tentries u) (snd u) \<and>
      unat (tid u) + 1 < 2 ^ 64"
  proof
    fix u assume "u \<in> set ?us"
    then have u: "u \<in> set ts" by (simp only: us(1))
    have "unat (tid u) + 1 < 2 ^ 64" using below [OF u] unsigned_less [of "e_next_sst e", where ?'a = nat] by simp
    then show "files (w_disk w) (sst_path ?dir (tid u)) = Some (sst_bytes (snd u)) \<and> sst_good (tentries u) (snd u) \<and> unat (tid u) + 1 < 2 ^ 64"
      using u o(3) sd(6) by (simp add: files_ok_def tables_ok_def)
  qed
  obtain e' w' where e': "eng_open crc ?dir opts w = (Inr e', w')" "eng_ok (table_map ?us) (reloaded ?us) e'" "settled e'"
    "stored (reloaded ?us) e' = table_lookup ?us ++ replayed rs" "mt_lookup (e_mem e') = replayed rs"
    "e_manifest e' = forget_levels ?mf" "e_path e' = ?dir" "e_opts e' = opts"
    "\<forall>n. 1 \<le> n \<longrightarrow> (\<forall>t \<in> set ?us. unat (tid t) + 1 \<le> n) \<longrightarrow> unat (e_next_sst e') \<le> n" "e_next_seq e' = 1"
    "e_wal e' = \<lparr>bw_path = default_wal_path ?dir, bw_buf = []\<rparr>" "same_env w w'" "no_faults (w_disk w')"
    "files (w_disk w') = (files (w_disk w))(default_wal_path ?dir \<mapsto> file_bytes (w_disk w) (default_wal_path ?dir))" "max_size (e_mem e') = o_memtable_size opts"
    using eng_open_total [OF sd(4) mf us(3) us(2) tabs log ls, of opts] by blast
  have "\<forall>t \<in> set ?us. unat (tid t) + 1 \<le> max 1 (unat (e_next_sst e))" using below unfolding us(1) by (blast intro: max.coboundedI2)
  then have "unat (e_next_sst e') \<le> max 1 (unat (e_next_sst e))" using e'(9) by simp
  then show ?thesis using e' by blast
qed

lemma db_reopen:
  assumes db: "db_ok crc ts e w" and small: "load ts e < 2 ^ 32" and listing: "sound_listing (w_readdir w)"
  shows "\<exists>e' w' rs. eng_open crc (e_path e) opts w = (Inr e', w') \<and> log_ok crc rs e w \<and>
    eng_ok (table_map (reordered ts e)) (reloaded (reordered ts e)) e' \<and> settled e' \<and>
    stored (reloaded (reordered ts e)) e' = table_lookup (reordered ts e) ++ replayed rs \<and> mt_lookup (e_mem e') = replayed rs \<and>
    e_manifest e' = forget_levels (e_manifest e) \<and> e_path e' = e_path e \<and> e_opts e' = opts \<and>
    unat (e_next_sst e') \<le> max 1 (unat (e_next_sst e)) \<and> e_next_seq e' = 1 \<and>
    e_wal e' = \<lparr>bw_path = default_wal_path (e_path e), bw_buf = []\<rparr> \<and> same_env w w' \<and> no_faults (w_disk w') \<and>
    files (w_disk w') = (files (w_disk w))(default_wal_path (e_path e) \<mapsto> log_bytes crc rs)"
proof -
  obtain tbl rs where s: "sys_ok tbl ts e w" "log_ok crc rs e w"
    using db by (rule db_okE)
  have "log_file crc rs (w_disk w) (default_wal_path (e_path e))" "tables_weight ts < 2 ^ 32"
    using s(2) small log_file_exact by (auto simp: log_ok_def load_def)
  moreover have "file_bytes (w_disk w) (default_wal_path (e_path e)) = log_bytes crc rs"
    using s(2) by (simp add: log_ok_def file_bytes_def)
  ultimately show ?thesis using sys_reopen [OF s(1) _ _ listing, of crc rs opts] s(2) by (simp only:) blast
qed

text \<open>A process that dies between two operations loses nothing: opening the directory again gives an engine
  that reads the same.\<close>

theorem crash_reopen:
  assumes db: "db_ok crc ts e w" and one: "one_level (e_manifest e)" and small: "load ts e < 2 ^ 32"
    and listing: "sound_listing (w_readdir w)" and sync: "o_sync_wal opts"
  shows "\<exists>e' w'. eng_open crc (e_path e) opts w = (Inr e', w') \<and> db_ok crc (reloaded ts) e' w' \<and>
    (\<forall>t. view t (reloaded ts) e' = view t ts e) \<and> e_opts e' = opts \<and> e_path e' = e_path e \<and> e_next_seq e' = 1 \<and>
    unat (e_next_sst e') \<le> max 1 (unat (e_next_sst e)) \<and> e_manifest e' = forget_levels (e_manifest e) \<and>
    load (reloaded ts) e' \<le> load ts e \<and> same_env w w'"
proof -
  obtain tbl where s: "sys_ok tbl ts e w" "calm e" and ok: "eng_ok tbl ts e"
    using db by (rule db_okE)
  note o = eng_okD [OF ok] and sd = sys_okD [OF s(1)] and t = tree_okD [OF sys_okD(2) [OF s(1)]]
  let ?dir = "e_path e" and ?mf = "e_manifest e"
  have tidy: "tidy ?dir (w_disk w)" using sd(7) by (simp add: neat_def)
  have us: "reordered ts e = ts"
    using reordered_self [OF distinct_metas [OF o(6)]] t(1) one by (simp add: in_order_def one_level_def)
  obtain e' w' rs where e': "eng_open crc ?dir opts w = (Inr e', w')" "eng_ok (table_map ts) (reloaded ts) e'" "settled e'"
    "stored (reloaded ts) e' = table_lookup ts ++ replayed rs" "mt_lookup (e_mem e') = replayed rs"
    "e_manifest e' = forget_levels ?mf" "e_path e' = ?dir" "e_opts e' = opts"
    "unat (e_next_sst e') \<le> max 1 (unat (e_next_sst e))" "e_next_seq e' = 1"
    "e_wal e' = \<lparr>bw_path = default_wal_path ?dir, bw_buf = []\<rparr>" "same_env w w'" "no_faults (w_disk w')"
    "files (w_disk w') = (files (w_disk w))(default_wal_path ?dir \<mapsto> log_bytes crc rs)" and log: "log_ok crc rs e w"
    using db_reopen [OF db small listing, of opts] unfolding us by blast
  have "in_order (reloaded ts) e'"
    using t(1) unfolding in_order_def map_fst_reloaded e'(6) by (simp add: forget_levels_def map_concat rev_map)
  moreover have "files_ok (reloaded ts) e' (w_disk w')"
    using sd(6) e'(6,7,14) reloaded_files [of ts "\<lambda>i bs es. files (w_disk w) (sst_path ?dir i) = Some (sst_bytes bs)"]
    by (auto simp: files_ok_def manifest_encode_forget forget_levels_new)
  moreover have "neat (reloaded ts) e' (w_disk w')"
  proof -
    have "dom (files (w_disk w')) \<subseteq> dom (files (w_disk w)) \<union> engine_files ?dir" using e'(14) by (auto simp: engine_files_def)
    then have "tidy ?dir (w_disk w')" by (rule tidy_extend [OF tidy])
    moreover have "\<forall>u \<in> set (reloaded ts). whole u" using sd(7) reloaded_whole unfolding neat_def by blast
    ultimately show ?thesis using sd(7) e'(6,7) by (simp add: neat_def forget_levels_def)
  qed
  ultimately have "sys_ok (table_map ts) (reloaded ts) e' w'"
    using e' t(2,3) by (simp add: sys_ok_def tree_ok_def level_apart_forget)
  moreover have al: "alike (replayed rs) (mt_lookup (e_mem e))" using log by (simp add: log_ok_def)
  moreover have "log_ok crc rs e' w'" using log e' by (simp add: log_ok_def)
  moreover have "calm e'" using short_keys_replayed [OF e'(3) _ s(2) al e'(5)] e'(5) by simp
  ultimately have "db_ok crc (reloaded ts) e' w'" using e'(8) sync by (auto simp: db_ok_def)
  moreover have "view t (reloaded ts) e' = view t ts e" for t
    using alike_over [OF al] by (simp add: view_def e'(4) stored_def [of ts] fun_eq_iff)
  moreover have "load (reloaded ts) e' \<le> load ts e"
    using settled_weight [OF eng_okD(1) [OF e'(2)] o(1) e'(3)] s(2) al e'(5) by (simp add: load_def calm_def)
  ultimately show ?thesis using e' by blast
qed

end
