(* ===== verification/EngineRuns.thy ===== *)
theory EngineRuns
  imports EngineOpen Runs "HOL-Library.Char_ord"
begin

text \<open>
  Runs of the database: calls, the passing of time and restarts (a crash between two operations followed by
  \<open>open\<close>) as a step relation on the engine with its world, and the map with expiry times that a client may
  take the database for. Every run of the first is a run of the second with the same answers.
\<close>

subsection \<open>Labels\<close>

datatype call =
    Put_call bytes bytes
  | Ttl_call bytes bytes u64
  | Delete_call bytes
  | Get_call bytes
  | Scan_call bytes bytes

datatype answer = Done | Found "bytes option" | Listed "entry list"

datatype label = Call call answer | Wait u64 | Restart options

fun run_call :: "checksum \<Rightarrow> call \<Rightarrow> answer eprog" where
  "run_call crc (Put_call k v) = st_bind (eng_put crc k v) (\<lambda>_. st_return Done)"
| "run_call crc (Ttl_call k v ttl) = st_bind (eng_put_with_ttl crc k v ttl) (\<lambda>_. st_return Done)"
| "run_call crc (Delete_call k) = st_bind (eng_delete crc k) (\<lambda>_. st_return Done)"
| "run_call crc (Get_call k) = st_bind (eng_get k) (\<lambda>r. st_return (Found r))"
| "run_call crc (Scan_call lo hi) = st_bind (eng_scan lo hi) (\<lambda>es. st_return (Listed es))"

subsection \<open>The specification\<close>

text \<open>What a client stores: a value that stays, or a value with the time at which it expires.\<close>

type_synonym spec = "bytes \<Rightarrow> (bytes \<times> u64 option) option"

definition shown :: "spec \<Rightarrow> u64 \<Rightarrow> bytes \<Rightarrow> bytes option" where
  "shown m now k =
     (case m k of
        None \<Rightarrow> None
      | Some (v, None) \<Rightarrow> Some v
      | Some (v, Some expiry) \<Rightarrow> if expiry \<le> now then None else Some v)"

text \<open>What a plain \<open>put\<close> of a value means: the values that look like one of the engine's markers are taken for it.\<close>

definition meaning :: "bytes \<Rightarrow> (bytes \<times> u64 option) option" where
  "meaning v =
     (if v = tombstone then None
      else if 9 \<le> length v \<and> v ! 0 = 1 then Some (drop 9 v, Some (rd_u64 v 1))
      else Some (v, None))"

lemma meaning_plain: "\<not> marker_like v \<Longrightarrow> meaning v = Some (v, None)"
  by (auto simp: meaning_def marker_like_def)

inductive spec_step :: "u64 \<times> spec \<Rightarrow> label \<Rightarrow> u64 \<times> spec \<Rightarrow> bool" where
  Put: "spec_step (now, m) (Call (Put_call k v) Done) (now, m(k := meaning v))"
| Ttl: "unat now + unat ttl < 2 ^ 64 \<Longrightarrow> spec_step (now, m) (Call (Ttl_call k v ttl) Done) (now, m(k \<mapsto> (v, Some (now + ttl))))"
| Delete: "spec_step (now, m) (Call (Delete_call k) Done) (now, m(k := None))"
| Get: "spec_step (now, m) (Call (Get_call k) (Found (shown m now k))) (now, m)"
| Scan: "sorted_keys es \<Longrightarrow> \<forall>k. map_of es k = (if lo \<le> k \<and> k < hi then shown m now k else None) \<Longrightarrow>
    spec_step (now, m) (Call (Scan_call lo hi) (Listed es)) (now, m)"
| Wait: "now \<le> later \<Longrightarrow> spec_step (now, m) (Wait later) (later, m)"
| Restart: "spec_step (now, m) (Restart opts) (now, m)"

abbreviation spec_run :: "u64 \<times> spec \<Rightarrow> label list \<Rightarrow> u64 \<times> spec \<Rightarrow> bool" where
  "spec_run \<equiv> runs spec_step"

inductive_cases spec_putE: "spec_step a (Call (Put_call k v) r) b"
inductive_cases spec_ttlE: "spec_step a (Call (Ttl_call k v ttl) r) b"
inductive_cases spec_deleteE: "spec_step a (Call (Delete_call k) r) b"
inductive_cases spec_getE: "spec_step a (Call (Get_call k) r) b"
inductive_cases spec_scanE: "spec_step a (Call (Scan_call lo hi) r) b"
inductive_cases spec_waitE: "spec_step a (Wait later) b"
inductive_cases spec_restartE: "spec_step a (Restart opts) b"

subsection \<open>The system\<close>

text \<open>A restart drops the engine without any of its code running, as when the process is killed, and opens the
  directory again.\<close>

inductive sys_step :: "checksum \<Rightarrow> engine \<times> world \<Rightarrow> label \<Rightarrow> engine \<times> world \<Rightarrow> bool" for crc where
  Call: "run_call crc c s = (Inr a, s') \<Longrightarrow> sys_step crc s (Call c a) s'"
| Wait: "w_clock w (w_ticks w) \<le> later \<Longrightarrow> sys_step crc (e, w) (Wait later) (e, w\<lparr>w_clock := \<lambda>_. later\<rparr>)"
| Restart: "eng_open crc (e_path e) opts w = (Inr e', w') \<Longrightarrow> sys_step crc (e, w) (Restart opts) (e', w')"

inductive_cases sys_callE: "sys_step crc s (Call c a) s'"
inductive_cases sys_waitE: "sys_step crc s (Wait later) s'"
inductive_cases sys_restartE: "sys_step crc s (Restart opts) s'"

text \<open>The steps the theorems are about: writes with keys below 64 KiB while level 1 has room for another table, and
  restarts while one level holds all tables. \<open>cost\<close> is what a write adds to the store at most.\<close>

fun writes :: "call \<Rightarrow> bytes option" where
  "writes (Put_call k v) = Some k"
| "writes (Ttl_call k v ttl) = Some k"
| "writes (Delete_call k) = Some k"
| "writes (Get_call k) = None"
| "writes (Scan_call lo hi) = None"

fun allowed :: "label \<Rightarrow> engine \<Rightarrow> bool" where
  "allowed (Call c a) e = (case writes c of None \<Rightarrow> True | Some k \<Rightarrow> length k < 2 ^ 16 \<and> roomy (e_opts e) (e_manifest e))"
| "allowed (Wait later) e = True"
| "allowed (Restart opts) e = (o_sync_wal opts \<and> one_level (e_manifest e))"

fun call_cost :: "call \<Rightarrow> nat" where
  "call_cost (Put_call k v) = 30 + 2 * length k + length v"
| "call_cost (Ttl_call k v ttl) = 39 + 2 * length k + length v"
| "call_cost (Delete_call k) = 31 + 2 * length k"
| "call_cost (Get_call k) = 0"
| "call_cost (Scan_call lo hi) = 0"

fun label_cost :: "label \<Rightarrow> nat" where
  "label_cost (Call c a) = call_cost c"
| "label_cost (Wait later) = 0"
| "label_cost (Restart opts) = 0"

definition cost :: "label list \<Rightarrow> nat" where
  "cost ls = sum_list (map label_cost ls)"

definition sys_next :: "checksum \<Rightarrow> engine \<times> world \<Rightarrow> label \<Rightarrow> engine \<times> world \<Rightarrow> bool" where
  "sys_next crc s l s' \<longleftrightarrow> allowed l (fst s) \<and> sys_step crc s l s'"

abbreviation sys_run :: "checksum \<Rightarrow> engine \<times> world \<Rightarrow> label list \<Rightarrow> engine \<times> world \<Rightarrow> bool" where
  "sys_run crc \<equiv> runs (sys_next crc)"

lemma sys_run_step: "sys_run crc s ls s' \<Longrightarrow> allowed l (fst s') \<Longrightarrow> sys_step crc s' l s'' \<Longrightarrow> sys_run crc s (ls @ [l]) s''"
  by (rule runs.Step) (simp_all add: sys_next_def)

subsection \<open>The simulation\<close>

definition sim :: "checksum \<Rightarrow> nat \<Rightarrow> engine \<times> world \<Rightarrow> u64 \<times> spec \<Rightarrow> bool" where
  "sim crc room s a \<longleftrightarrow> (case (s, a) of ((e, w), (now, m)) \<Rightarrow>
     (\<exists>ts. db_ok crc ts e w \<and> shallow (e_manifest e) \<and> (\<forall>n. w_clock w n = now) \<and> sound_listing (w_readdir w) \<and>
        (\<forall>t \<ge> now. view t ts e = shown m t) \<and> 64 + load ts e + room < 2 ^ 32 \<and>
        unat (e_next_sst e) + room < 2 ^ 33 \<and> unat (e_next_seq e) + room < 2 ^ 33))"

lemma sim_iff:
  "sim crc room (e, w) (now, m) \<longleftrightarrow>
     (\<exists>ts. db_ok crc ts e w \<and> shallow (e_manifest e) \<and> (\<forall>n. w_clock w n = now) \<and> sound_listing (w_readdir w) \<and>
        (\<forall>t \<ge> now. view t ts e = shown m t) \<and> 64 + load ts e + room < 2 ^ 32 \<and>
        unat (e_next_sst e) + room < 2 ^ 33 \<and> unat (e_next_seq e) + room < 2 ^ 33)"
  by (simp add: sim_def)

lemma sim_less: "sim crc room s a \<Longrightarrow> room' \<le> room \<Longrightarrow> sim crc room' s a"
  unfolding sim_def by (fastforce split: prod.splits)

lemma shown_put: "unpack_value t (encode_with_seq v s) = shown (\<lambda>_. meaning v) t k"
  by (simp add: shown_def meaning_def unpack_plain)

lemma entry_weight_enc: "entry_weight (k, encode_with_seq v s) = 30 + 2 * length k + length v"
  by (simp add: entry_weight_def)

lemma length_ttl_encode [simp]: "length (ttl_encode x v) = 9 + length v"
  by (simp add: ttl_encode_def)

lemma st_bind_done: "m s = (Inr x, s') \<Longrightarrow> st_bind m (\<lambda>x. st_return (f x)) s = (Inr (f x), s')"
  by (simp add: st_bind_def st_return_def)

text \<open>What a call needs to return: a write is allowed and the expiry of \<open>put_with_ttl\<close> does not overflow.\<close>

fun expiry_ok :: "u64 \<Rightarrow> call \<Rightarrow> bool" where
  "expiry_ok now (Ttl_call k v ttl) \<longleftrightarrow> unat now + unat ttl < 2 ^ 64"
| "expiry_ok now c \<longleftrightarrow> True"

text \<open>What every write promises: for a key below 64 KiB, room in level 1, nothing below level 1 and a store that stays
  below the bounds it returns, keeps the invariant, adds at most \<open>added\<close> bytes and shows, now and later, \<open>entry\<close> at its key.\<close>

locale write_call =
  fixes prog :: "checksum \<Rightarrow> unit eprog"
    and key :: bytes
    and added :: nat
    and accepts :: "u64 \<Rightarrow> bool"
    and entry :: "u64 \<Rightarrow> (bytes \<times> u64 option) option"
  assumes added_ids: "2 \<le> added"
    and effect: "db_ok crc ts e w \<Longrightarrow> \<forall>n. w_clock w n = now \<Longrightarrow> 64 + load ts e + added < 2 ^ 32 \<Longrightarrow>
      unat (e_next_sst e) + 2 < 2 ^ 64 \<Longrightarrow> unat (e_next_seq e) + 1 < 2 ^ 64 \<Longrightarrow>
      length key < 2 ^ 16 \<Longrightarrow> roomy (e_opts e) (e_manifest e) \<Longrightarrow> shallow (e_manifest e) \<Longrightarrow> accepts now \<Longrightarrow>
      \<exists>ts' e' w'. prog crc (e, w) = (Inr (), (e', w')) \<and> db_ok crc ts' e' w' \<and>
        (\<forall>t \<ge> now. view t ts' e' = (view t ts e)(key := shown (\<lambda>_. entry now) t key)) \<and>
        grown ts e ts' e' added \<and> same_env w w'"
begin

lemma write_sim:
  assumes "sim crc (added + room) (e, w) (now, m)" "length key < 2 ^ 16" "roomy (e_opts e) (e_manifest e)" "accepts now"
  shows "\<exists>e' w'. prog crc (e, w) = (Inr (), (e', w')) \<and> sim crc room (e', w') (now, m(key := entry now)) \<and>
    e_path e' = e_path e"
proof -
  obtain ts where s: "db_ok crc ts e w" "\<forall>n. w_clock w n = now" "sound_listing (w_readdir w)" "\<forall>t \<ge> now. view t ts e = shown m t"
    "64 + load ts e + (added + room) < 2 ^ 32" "unat (e_next_sst e) + (added + room) < 2 ^ 33"
    "unat (e_next_seq e) + (added + room) < 2 ^ 33" "shallow (e_manifest e)"
    using assms(1) by (auto simp: sim_iff)
  have bounds: "64 + load ts e + added < 2 ^ 32" "unat (e_next_sst e) + 2 < 2 ^ 64" "unat (e_next_seq e) + 1 < 2 ^ 64"
    using s(5-7) added_ids by simp_all
  obtain ts' e' w' where r: "prog crc (e, w) = (Inr (), (e', w'))" "db_ok crc ts' e' w'"
    "\<forall>t \<ge> now. view t ts' e' = (view t ts e)(key := shown (\<lambda>_. entry now) t key)" "grown ts e ts' e' added" "same_env w w'"
    using effect [OF s(1,2) bounds assms(2,3) s(8) assms(4)] by auto
  have "view t ts' e' = shown (m(key := entry now)) t" if "now \<le> t" for t
    using r(3) s(4) that by (simp add: shown_def fun_eq_iff)
  moreover have "64 + load ts' e' + room < 2 ^ 32" "unat (e_next_sst e') + room < 2 ^ 33" "unat (e_next_seq e') + room < 2 ^ 33"
    "shallow (e_manifest e')"
    using r(4) s(5-7) added_ids by (simp_all add: grown_def)
  ultimately have "sim crc room (e', w') (now, m(key := entry now))"
    using r(2,5) s(2,3) unfolding sim_iff same_env_def by (intro exI [of _ ts']) simp
  then show ?thesis using r(1,4) by (auto simp: grown_def)
qed

end

interpretation put_op: write_call "\<lambda>crc. eng_put crc k v" k "call_cost (Put_call k v)" "\<lambda>_. True" "\<lambda>_. meaning v" for k v
proof unfold_locales
  fix crc ts e w now assume a: "db_ok crc ts e w" "\<forall>n. w_clock w n = now" "64 + load ts e + call_cost (Put_call k v) < 2 ^ 32"
    "unat (e_next_sst e) + 2 < 2 ^ 64" "unat (e_next_seq e) + 1 < 2 ^ 64" "length k < 2 ^ 16" "roomy (e_opts e) (e_manifest e)"
    "shallow (e_manifest e)"
  then have "fits_write ts e k (encode_with_seq v (e_next_seq e))" by (simp add: fits_write_def entry_weight_enc)
  note spec = eng_put_spec [OF a(1,2) this]
  have eq: "shown (\<lambda>_. meaning v) t k = unpack_value t (encode_with_seq v (e_next_seq e))" for t
    by (rule shown_put [symmetric])
  show "\<exists>ts' e' w'. eng_put crc k v (e, w) = (Inr (), (e', w')) \<and> db_ok crc ts' e' w' \<and>
    (\<forall>t \<ge> now. view t ts' e' = (view t ts e)(k := shown (\<lambda>_. meaning v) t k)) \<and>
    grown ts e ts' e' (call_cost (Put_call k v)) \<and> same_env w w'"
    using spec by (simp only: eq call_cost.simps entry_weight_enc)
qed simp

interpretation ttl_op: write_call "\<lambda>crc. eng_put_with_ttl crc k v ttl" k "call_cost (Ttl_call k v ttl)"
  "\<lambda>now. unat now + unat ttl < 2 ^ 64" "\<lambda>now. Some (v, Some (now + ttl))" for k v ttl
proof unfold_locales
  fix crc ts e w now assume a: "db_ok crc ts e w" "\<forall>n. w_clock w n = now" "64 + load ts e + call_cost (Ttl_call k v ttl) < 2 ^ 32"
    "unat (e_next_sst e) + 2 < 2 ^ 64" "unat (e_next_seq e) + 1 < 2 ^ 64" "length k < 2 ^ 16" "roomy (e_opts e) (e_manifest e)"
    "shallow (e_manifest e)"
    "unat now + unat ttl < 2 ^ 64"
  then have "fits_write ts e k (encode_with_seq (ttl_encode (now + ttl) v) (e_next_seq e))"
    by (simp add: fits_write_def entry_weight_enc)
  note spec = eng_put_with_ttl_spec [OF a(1,2,9) this]
  have eq: "shown (\<lambda>_. Some (v, Some (now + ttl))) t k = (if now + ttl \<le> t then None else Some v)"
    "entry_weight (k, encode_with_seq (ttl_encode (now + ttl) v) (e_next_seq e)) = call_cost (Ttl_call k v ttl)" for t
    by (simp_all add: shown_def entry_weight_enc)
  show "\<exists>ts' e' w'. eng_put_with_ttl crc k v ttl (e, w) = (Inr (), (e', w')) \<and> db_ok crc ts' e' w' \<and>
    (\<forall>t \<ge> now. view t ts' e' = (view t ts e)(k := shown (\<lambda>_. Some (v, Some (now + ttl))) t k)) \<and>
    grown ts e ts' e' (call_cost (Ttl_call k v ttl)) \<and> same_env w w'"
    using spec by (simp only: eq)
qed simp

interpretation delete_op: write_call "\<lambda>crc. eng_delete crc k" k "call_cost (Delete_call k)" "\<lambda>_. True" "\<lambda>_. None" for k
proof unfold_locales
  fix crc ts e w now assume a: "db_ok crc ts e w" "\<forall>n. w_clock w n = now" "64 + load ts e + call_cost (Delete_call k) < 2 ^ 32"
    "unat (e_next_sst e) + 2 < 2 ^ 64" "unat (e_next_seq e) + 1 < 2 ^ 64" "length k < 2 ^ 16" "roomy (e_opts e) (e_manifest e)"
    "shallow (e_manifest e)"
  have len: "length tombstone = 1" by (simp add: tombstone_def)
  with a have "fits_write ts e k (encode_with_seq tombstone (e_next_seq e))" by (simp add: fits_write_def entry_weight_enc)
  from eng_delete_spec [OF a(1,2) this]
  show "\<exists>ts' e' w'. eng_delete crc k (e, w) = (Inr (), (e', w')) \<and> db_ok crc ts' e' w' \<and>
    (\<forall>t \<ge> now. view t ts' e' = (view t ts e)(k := shown (\<lambda>_. None) t k)) \<and>
    grown ts e ts' e' (call_cost (Delete_call k)) \<and> same_env w w'"
    by (simp add: shown_def entry_weight_enc len)
qed simp

lemma sim_read:
  assumes "\<And>ts. db_ok crc ts e w \<Longrightarrow> \<forall>n. w_clock w n = now \<Longrightarrow> \<forall>t \<ge> now. view t ts e = shown m t \<Longrightarrow>
      \<exists>x e' w'. prog (e, w) = (Inr x, (e', w')) \<and> db_ok crc ts e' w' \<and> unchanged ts e e' \<and> same_env w w' \<and> P x"
    and "sim crc room (e, w) (now, m)"
  shows "\<exists>x e' w'. prog (e, w) = (Inr x, (e', w')) \<and> sim crc room (e', w') (now, m) \<and> P x \<and> e_path e' = e_path e"
proof -
  obtain ts where s: "db_ok crc ts e w" "\<forall>n. w_clock w n = now" "sound_listing (w_readdir w)" "\<forall>t \<ge> now. view t ts e = shown m t"
    "64 + load ts e + room < 2 ^ 32" "unat (e_next_sst e) + room < 2 ^ 33" "unat (e_next_seq e) + room < 2 ^ 33" "shallow (e_manifest e)"
    using assms(2) by (auto simp: sim_iff)
  obtain x e' w' where r: "prog (e, w) = (Inr x, (e', w'))" "db_ok crc ts e' w'" "unchanged ts e e'" "same_env w w'" "P x"
    using assms(1) [OF s(1,2,4)] by blast
  have "sim crc room (e', w') (now, m)" using r s unfolding sim_iff same_env_def unchanged_def by (intro exI [of _ ts]) simp
  then show ?thesis using r(1,3,5) by (auto simp: unchanged_def)
qed

lemma sim_get:
  assumes "sim crc room (e, w) (now, m)"
  shows "\<exists>e' w'. eng_get k (e, w) = (Inr (shown m now k), (e', w')) \<and> sim crc room (e', w') (now, m) \<and> e_path e' = e_path e"
  using sim_read [OF _ assms, of "eng_get k" "\<lambda>x. x = shown m now k"] eng_get_db [of crc _ e w k] by fastforce

lemma sim_scan:
  assumes "sim crc room (e, w) (now, m)"
  shows "\<exists>es e' w'. eng_scan lo hi (e, w) = (Inr es, (e', w')) \<and> sim crc room (e', w') (now, m) \<and>
    sorted_keys es \<and> (\<forall>k. map_of es k = (if lo \<le> k \<and> k < hi then shown m now k else None))"
  using sim_read [OF _ assms, of "eng_scan lo hi" "\<lambda>es. sorted_keys es \<and>
      (\<forall>k. map_of es k = (if lo \<le> k \<and> k < hi then shown m now k else None))"] eng_scan_db [of crc _ e w now lo hi]
  by fastforce

text \<open>An allowed call returns, with an answer of the specification.\<close>

lemma sim_call:
  assumes "sim crc (call_cost c + room) (e, w) (now, m)" "allowed (Call c a0) e" "expiry_ok now c"
  shows "\<exists>a e' w' m'. run_call crc c (e, w) = (Inr a, (e', w')) \<and> spec_step (now, m) (Call c a) (now, m') \<and>
    sim crc room (e', w') (now, m')"
proof (cases c)
  case (Put_call k v)
  then obtain e' w' where "eng_put crc k v (e, w) = (Inr (), (e', w'))" "sim crc room (e', w') (now, m(k := meaning v))"
    using assms(1,2) put_op.write_sim [of crc k v room e w now m] by auto
  then show ?thesis using Put_call spec_step.Put [of now m k v] st_bind_done [of "eng_put crc k v"] by fastforce
next
  case (Ttl_call k v ttl)
  then obtain e' w' where "eng_put_with_ttl crc k v ttl (e, w) = (Inr (), (e', w'))"
    "sim crc room (e', w') (now, m(k \<mapsto> (v, Some (now + ttl))))"
    using assms ttl_op.write_sim [of crc k v ttl room e w now m] by auto
  then show ?thesis
    using Ttl_call assms(3) spec_step.Ttl [of now ttl m k v] st_bind_done [of "eng_put_with_ttl crc k v ttl"] by fastforce
next
  case (Delete_call k)
  then obtain e' w' where "eng_delete crc k (e, w) = (Inr (), (e', w'))" "sim crc room (e', w') (now, m(k := None))"
    using assms(1,2) delete_op.write_sim [of crc k room e w now m] by auto
  then show ?thesis using Delete_call spec_step.Delete [of now m k] st_bind_done [of "eng_delete crc k"] by fastforce
next
  case (Get_call k)
  then obtain e' w' where "eng_get k (e, w) = (Inr (shown m now k), (e', w'))" "sim crc room (e', w') (now, m)"
    using assms(1) sim_get [of crc room e w now m k] by auto
  then show ?thesis using Get_call spec_step.Get [of now m k] st_bind_done [of "eng_get k"] by fastforce
next
  case (Scan_call lo hi)
  then obtain es e' w' where "eng_scan lo hi (e, w) = (Inr es, (e', w'))" "sim crc room (e', w') (now, m)"
    "sorted_keys es" "\<forall>k. map_of es k = (if lo \<le> k \<and> k < hi then shown m now k else None)"
    using assms(1) sim_scan [of crc room e w now m lo hi] by auto
  then show ?thesis using Scan_call spec_step.Scan [of es lo hi m now]
st_bind_done [of "eng_scan lo hi"] by fastforce
qed

lemma run_call_expiry:
  assumes "run_call crc c (e, w) = (Inr a, s')"
  shows "expiry_ok (w_clock w (w_ticks w)) c"
proof (cases c)
  case (Ttl_call k v ttl)
  obtain r s1 where r: "eng_put_with_ttl crc k v ttl (e, w) = (r, s1)" by (cases "eng_put_with_ttl crc k v ttl (e, w)") auto
  have "\<exists>x. r = Inr x" using assms r Ttl_call by (cases r) (auto simp: st_bind_def)
  then have "fst (eng_put_with_ttl crc k v ttl (e, w)) \<noteq> Inl (Panic ''attempt to add with overflow'')" using r by auto
  then show ?thesis using ttl_overflow [of w ttl crc k v e] Ttl_call by (simp add: not_le) (meson not_le)
qed simp_all

lemma sim_wait:
  assumes "sim crc room (e, w) (now, m)" "now \<le> later"
  shows "sim crc room (e, w\<lparr>w_clock := \<lambda>_. later\<rparr>) (later, m)"
proof -
  have "db_ok crc ts e (w\<lparr>w_clock := \<lambda>_. later\<rparr>) = db_ok crc ts e w" for ts
    by (simp add: db_ok_def sys_ok_def log_ok_def)
  then show ?thesis using assms by (auto simp: sim_iff)
qed

lemma sim_restart:
  assumes "sim crc room (e, w) (now, m)" "o_sync_wal opts" "one_level (e_manifest e)"
  shows "\<exists>e' w'. eng_open crc (e_path e) opts w = (Inr e', w') \<and> sim crc room (e', w') (now, m)"
proof -
  obtain ts where s: "db_ok crc ts e w" "\<forall>n. w_clock w n = now" "sound_listing (w_readdir w)" "\<forall>t \<ge> now. view t ts e = shown m t"
    "64 + load ts e + room < 2 ^ 32" "unat (e_next_sst e) + room < 2 ^ 33" "unat (e_next_seq e) + room < 2 ^ 33" "shallow (e_manifest e)"
    using assms(1) by (auto simp: sim_iff)
  have "load ts e < 2 ^ 32" using s(5) by simp
  from crash_reopen [OF s(1) assms(3) this s(3) assms(2)] obtain e' w' where
    r: "eng_open crc (e_path e) opts w = (Inr e', w')" "db_ok crc (reloaded ts) e' w'" "\<forall>t. view t (reloaded ts) e' = view t ts e"
      "e_next_seq e' = 1" "unat (e_next_sst e') \<le> max 1 (unat (e_next_sst e))" "load (reloaded ts) e' \<le> load ts e" "same_env w w'"
      "e_manifest e' = forget_levels (e_manifest e)"
    by blast
  have "sim crc room (e', w') (now, m)"
    using r s unfolding sim_iff same_env_def by (intro exI [of _ "reloaded ts"]) (simp add: forget_levels_simps max_def split: if_splits)
  then show ?thesis using r(1) by blast
qed

lemma sim_step:
  assumes sim: "sim crc (label_cost l + room) s a" and al: "allowed l (fst s)" and step: "sys_step crc s l s'"
  shows "\<exists>a'. spec_step a l a' \<and> sim crc room s' a'"
proof -
  obtain e w now m where s: "s = (e, w)" "a = (now, m)" by (metis surj_pair)
  have clk: "w_clock w n = now" for n using sim by (auto simp: s sim_iff)
  show ?thesis using step
  proof cases
    case (Call c r)
    have "expiry_ok now c" using run_call_expiry [of crc c e w r s'] Call(2) by (simp add: s clk)
    from sim_call [OF _ _ this, of crc room e w m r] show ?thesis using sim al Call by (auto simp: s)
  next
    case (Wait w' later e')
    then have "spec_step (now, m) l (later, m)" using clk by (auto simp: s intro: spec_step.Wait)
    then show ?thesis using sim_wait [of crc room e w now m later] sim Wait clk by (auto simp: s)
  next
    case (Restart e0 opts w0 e' w')
    then have "sim crc room (e', w') (now, m)"
      using sim_restart [of crc room e w now m opts] sim al by (auto simp: s)
    then show ?thesis using Restart spec_step.Restart [of now m opts] by (auto simp: s)
  qed
qed

lemma cost_simps [simp]: "cost [] = 0" "cost (ls @ ks) = cost ls + cost ks" "cost (l # ls) = label_cost l + cost ls"
  by (simp_all add: cost_def)

interpretation engine_sim: simulation "sys_next crc" spec_step "sim crc" label_cost for crc
  by unfold_locales (use sim_step in \<open>simp add: sys_next_def\<close>)

lemmas sys_run_sim = engine_sim.runs_sim [folded cost_def]

text \<open>An empty directory, and the run that opens it first.\<close>

definition fresh_dir :: "path \<Rightarrow> u64 \<Rightarrow> world \<Rightarrow> bool" where
  "fresh_dir dir now w \<longleftrightarrow> no_faults (w_disk w) \<and> files (w_disk w) (manifest_path dir) = None \<and>
     files (w_disk w) (default_wal_path dir) = None \<and> sound_listing (w_readdir w) \<and> tidy dir (w_disk w) \<and>
     (\<forall>n. w_clock w n = now)"

lemma sim_open:
  assumes "fresh_dir dir now w" "o_sync_wal opts" "64 + room < 2 ^ 32"
  shows "\<exists>e' w'. eng_open crc dir opts w = (Inr e', w') \<and> sim crc room (e', w') (now, Map.empty) \<and> e_opts e' = opts \<and>
    e_manifest e' = manifest_new \<and> e_path e' = dir"
proof -
  obtain e' w' where o: "eng_open crc dir opts w = (Inr e', w')" "db_ok crc [] e' w'" "\<forall>t k. view t [] e' k = None"
    "e_next_seq e' = 1" "unat (e_next_sst e') \<le> 1" "load [] e' = 0" "same_env w w'" "e_opts e' = opts" "e_manifest e' = manifest_new"
    "e_path e' = dir"
    using open_fresh [of w dir opts crc] assms(1,2) by (auto simp: fresh_dir_def)
  have "\<forall>t. view t [] e' = shown Map.empty t" using o(3) by (simp add: shown_def fun_eq_iff)
  then have "sim crc room (e', w') (now, Map.empty)"
    using o assms(1,3) unfolding sim_iff same_env_def fresh_dir_def by (intro exI [of _ "[]"]) (simp add: shallow_new)
  then show ?thesis using o by blast
qed

subsection \<open>What the specification keeps\<close>

text \<open>A label that writes the key \<open>k\<close>.\<close>

fun touches :: "bytes \<Rightarrow> label \<Rightarrow> bool" where
  "touches k (Call c a) \<longleftrightarrow> writes c = Some k"
| "touches k (Wait later) \<longleftrightarrow> False"
| "touches k (Restart opts) \<longleftrightarrow> False"

lemma spec_step_keeps: "spec_step a l b \<Longrightarrow> \<not> touches k l \<Longrightarrow> snd b k = snd a k \<and> fst a \<le> fst b"
  by (induction rule: spec_step.induct) auto

lemma spec_run_keeps:
  assumes "spec_run a ls b" "\<forall>l \<in> set ls. \<not> touches k l"
  shows "snd b k = snd a k \<and> fst a \<le> fst b"
  by (rule runs_invariant [OF assms(1), where P = "\<lambda>b. snd b k = snd a k \<and> fst a \<le> fst b"])
    (use assms(2) spec_step_keeps in fastforce)+

lemma spec_run_around:
  "spec_run a (ls @ l # ks @ [l']) d \<Longrightarrow>
     \<exists>b c c'. spec_run a ls b \<and> spec_step b l c \<and> spec_run c ks c' \<and> spec_step c' l' d"
  by (simp add: runs_append runs_Cons) blast

text \<open>The time a run has reached, and a run made longer by a call.\<close>

fun time_after :: "u64 \<Rightarrow> label list \<Rightarrow> u64" where
  "time_after now [] = now"
| "time_after now (Wait later # ls) = time_after later ls"
| "time_after now (l # ls) = time_after now ls"

lemma time_after_append: "time_after now (ls @ ks) = time_after (time_after now ls) ks"
  by (induction now ls rule: time_after.induct) simp_all

lemma spec_run_time: "spec_run a ls b \<Longrightarrow> fst b = time_after (fst a) ls"
proof (induction rule: runs.induct)
  case (Step a ls b l c)
  from Step.hyps(2) show ?case using Step.IH by cases (simp_all add: time_after_append)
qed simp

lemma sys_run_call:
  assumes "sys_run crc s0 ls (e, w)" "sim crc (call_cost c + room) (e, w) (now, m)" "allowed (Call c Done) e" "expiry_ok now c"
  shows "\<exists>a s' m'. sys_run crc s0 (ls @ [Call c a]) s' \<and> spec_step (now, m) (Call c a) (now, m') \<and> sim crc room s' (now, m')"
proof -
  obtain a e' w' m' where r: "run_call crc c (e, w) = (Inr a, (e', w'))" "spec_step (now, m) (Call c a) (now, m')"
    "sim crc room (e', w') (now, m')"
    using sim_call [OF assms(2-4)] by blast
  have "sys_run crc s0 (ls @ [Call c a]) (e', w')"
    using sys_run_step [OF assms(1) _ sys_step.Call [OF r(1)]] assms(3) by simp
  then show ?thesis using r(2,3) by blast
qed

text \<open>What a read finds after a write to its key, other calls, waiting and restarts.\<close>

lemma spec_last_write:
  assumes "spec_run a (ls @ Call c r # ks @ [Call (Get_call k) (Found x)]) d" "\<forall>l \<in> set ks. \<not> touches k l"
  shows "c = Put_call k v \<Longrightarrow> \<not> marker_like v \<Longrightarrow> x = Some v" "c = Delete_call k \<Longrightarrow> x = None"
    "c = Ttl_call k v ttl \<Longrightarrow>
       x = (if time_after (fst a) ls + ttl \<le> time_after (fst a) (ls @ ks) then None else Some v)"
proof -
  obtain b e f where r: "spec_run a ls b" "spec_step b (Call c r) e" "spec_run e ks f" "spec_step f (Call (Get_call k) (Found x)) d"
    using spec_run_around [OF assms(1)] by blast
  have keep: "snd f k = snd e k" using spec_run_keeps [OF r(3) assms(2)] by simp
  have x: "x = shown (snd f) (fst f) k" "d = f" using r(4) by (auto elim: spec_getE)
  show "x = Some v" if "c = Put_call k v" "\<not> marker_like v"
    using r(2) keep x that by (auto simp: shown_def meaning_plain elim!: spec_putE)
  show "x = None" if "c = Delete_call k" using r(2) keep x that by (auto simp: shown_def elim!: spec_deleteE)
  have fb: "fst b = time_after (fst a) ls" using spec_run_time [OF r(1)] .
  have fe: "fst e = fst b" using r(2) by cases simp_all
  have ff: "fst f = time_after (fst a) (ls @ ks)" using spec_run_time [OF r(3)] by (simp add: fe fb time_after_append)
  show "x = (if time_after (fst a) ls + ttl \<le> time_after (fst a) (ls @ ks) then None else Some v)" if "c = Ttl_call k v ttl"
    unfolding fb [symmetric] ff [symmetric] using r(2) keep x that by (auto simp: shown_def elim!: spec_ttlE)
qed

subsection \<open>A concrete beginning\<close>

text \<open>A machine with an empty disk whose \<open>read_dir\<close> lists what is there, in the order of the names.\<close>

definition listing :: "disk \<Rightarrow> path \<Rightarrow> string list" where
  "listing d dir = sorted_list_of_set {name. files d (path_join dir name) \<noteq> None \<and> CHR ''/'' \<notin> set name}"

lemma sound_listing_listing: "sound_listing listing"
proof -
  have "finite {name. files d (path_join dir name) \<noteq> None \<and> CHR ''/'' \<notin> set name}" if "finite (dom (files d))" for d dir
  proof (rule finite_imageD [where f = "path_join dir"])
    show "finite (path_join dir ` {name. files d (path_join dir name) \<noteq> None \<and> CHR ''/'' \<notin> set name})"
      by (rule finite_subset [OF _ that]) auto
  qed (simp add: inj_on_def)
  then have "set (listing d dir) = {name. files d (path_join dir name) \<noteq> None \<and> CHR ''/'' \<notin> set name}"
    if "finite (dom (files d))" for d dir
    using that unfolding listing_def by (intro set_sorted_list_of_set) blast
  then show ?thesis by (simp add: sound_listing_def)
qed

definition new_world :: "u64 \<Rightarrow> world" where
  "new_world now = \<lparr>w_disk = empty_disk, w_rng = 1, w_clock = \<lambda>_. now, w_ticks = 0, w_readdir = listing\<rparr>"

lemma fresh_new_world: "fresh_dir dir now (new_world now)"
  using no_faults_empty_disk
  by (simp add: fresh_dir_def new_world_def sound_listing_listing tidy_def one_log_def empty_disk_def)

lemma roomy_new: "roomy default_options manifest_new"
proof -
  have "\<exists>t > 0. level_threshold 4 l = Inr t" if "l < 6" for l
  proof -
    have "l \<in> {0, 1, 2, 3, 4, 5}" using that by auto
    then show ?thesis by (auto simp: level_threshold_def)
  qed
  then show ?thesis by (simp add: roomy_def default_options_def ssts_at_level_def manifest_new_def)
qed

lemma one_level_new: "one_level manifest_new"
  by (simp add: one_level_def manifest_new_def)

lemma new_engine:
  assumes "64 + room < 2 ^ 32"
  obtains e w where "eng_open crc dir default_options (new_world now) = (Inr e, w)" "sim crc room (e, w) (now, Map.empty)"
    "roomy (e_opts e) (e_manifest e)" "one_level (e_manifest e)" "e_opts e = default_options" "e_path e = dir"
proof -
  have "o_sync_wal default_options" by (simp add: default_options_def)
  from sim_open [OF fresh_new_world this assms] that roomy_new one_level_new show thesis by metis
qed

lemma sample_run:
  "\<exists>e0 w0 s. eng_open crc ''db'' default_options (new_world 7) = (Inr e0, w0) \<and>
     sys_run crc (e0, w0) [Call (Put_call [1] [2]) Done, Wait 8, Call (Get_call [1]) (Found (Some [2]))] s"
proof -
  have room: "64 + (call_cost (Put_call [1] [2]) + 0) < (2 :: nat) ^ 32" by simp
  obtain e0 w0 where o: "eng_open crc ''db'' default_options (new_world 7) = (Inr e0, w0)"
    "sim crc (call_cost (Put_call [1] [2]) + 0) (e0, w0) (7, Map.empty)" "roomy (e_opts e0) (e_manifest e0)"
    by (rule new_engine [OF room])
  obtain a s1 m1 where s1: "sys_run crc (e0, w0) ([] @ [Call (Put_call [1] [2]) a]) s1"
    "spec_step (7, Map.empty) (Call (Put_call [1] [2]) a) (7, m1)" "sim crc 0 s1 (7, m1)"
    using sys_run_call [OF runs.Start o(2)] o(3) by auto
  have m1: "a = Done" "m1 = [[1] \<mapsto> ([2], None)]"
    using s1(2) by (auto elim!: spec_putE simp: meaning_def tombstone_def)
  obtain e1 w1 where e1: "s1 = (e1, w1)" by (cases s1)
  have clk: "w_clock w1 n = 7" for n using s1(3) by (auto simp: e1 sim_iff)
  let ?w = "w1\<lparr>w_clock := \<lambda>_. 8\<rparr>"
  have s2: "sys_run crc (e0, w0) ([Call (Put_call [1] [2]) Done] @ [Wait 8]) (e1, ?w)"
  proof (rule sys_run_step)
    show "sys_run crc (e0, w0) [Call (Put_call [1] [2]) Done] (e1, w1)" using s1(1) m1 by (simp add: e1)
    show "sys_step crc (e1, w1) (Wait 8) (e1, ?w)" by (rule sys_step.Wait) (simp add: clk)
  qed simp
  have "sim crc (call_cost (Get_call [1]) + 0) (e1, ?w) (8, m1)" using sim_wait [OF s1(3) [unfolded e1], of 8] by simp
  from sys_run_call [OF s2 this] obtain a s3 m3 where s3:
    "sys_run crc (e0, w0) ([Call (Put_call [1] [2]) Done, Wait 8] @ [Call (Get_call [1]) a]) s3"
    "spec_step (8, m1) (Call (Get_call [1]) a) (8, m3)" by auto
  have "a = Found (Some [2])" using s3(2) by (auto elim!: spec_getE simp: m1 shown_def)
  then have "sys_run crc (e0, w0) [Call (Put_call [1] [2]) Done, Wait 8, Call (Get_call [1]) (Found (Some [2]))] s3"
    using s3(1) by simp
  then show ?thesis using o(1) by blast
qed

end
