(* ===== verification/EngineLimits.thy ===== *)
theory EngineLimits
  imports EngineRuns
begin

text \<open>
  Where the guarantees of the engine end: what exactly a compaction does to a read when tables lie below its
  destination, what a restart does when two levels hold tables, the options under which writing panics, and the
  snapshots of \<open>get_at\<close>.
\<close>

subsection \<open>The exact effect of a compaction\<close>

text \<open>The value the newest input of a compaction of level \<open>l\<close> has for \<open>k\<close> is dead.\<close>

definition dead_input :: "u64 \<Rightarrow> table list \<Rightarrow> engine \<Rightarrow> nat \<Rightarrow> bytes \<Rightarrow> bool" where
  "dead_input now ts e l k \<longleftrightarrow> mt_lookup (e_mem e) k = None \<and>
     (\<exists>v. table_lookup (inputs ts e l) k = Some v \<and> unpack_value now v = None)"

lemma compacted_view_exact:
  assumes ok: "eng_ok tbl ts e" and ord: "in_order ts e" and rng: "ranges_ok ts"
    and low: "\<forall>j < l. ssts_at_level (e_manifest e) j = []" and apart: "level_apart (e_manifest e) (l + 1)"
    and good: "live_entries now ts e l \<noteq> [] \<longrightarrow> sst_good (live_entries now ts e l) bs"
  shows "view now (compacted_tables ts e l (live_entries now ts e l) bs) (compacted e l (live_entries now ts e l) bs c) k =
    (if dead_input now ts e l k then Option.bind (table_lookup (deeper ts e l) k) (unpack_value now) else view now ts e k)"
proof (cases "mt_lookup (e_mem e) k")
  case (Some v)
  then show ?thesis by (simp add: dead_input_def view_def stored_def compacted_def)
next
  case None
  note look = compaction_lookup [OF ok ord rng low apart]
  let ?I = "table_lookup (inputs ts e l)" and ?O = "table_lookup (others ts e l)"
  have new: "stored (compacted_tables ts e l (live_entries now ts e l) bs) (compacted e l (live_entries now ts e l) bs c) k =
      (?O ++ map_of (live_entries now ts e l)) k"
    using None by (simp add: stored_def compacted_tables_def compacted_def table_lookup_out [OF good] map_add_def)
  have old: "stored ts e k = (?O ++ ?I) k" using None look(1) by (simp add: stored_def map_add_def)
  have live: "map_of (live_entries now ts e l) k =
      (case ?I k of None \<Rightarrow> None | Some v \<Rightarrow> if unpack_value now v \<noteq> None then Some v else None)"
    by (rule live_entries_spec(2) [OF eng_okD(3) [OF ok]])
  show ?thesis
  proof (cases "dead_input now ts e l k")
    case True
    then obtain v where v: "?I k = Some v" "unpack_value now v = None" by (auto simp: dead_input_def)
    then have "?O k = table_lookup (deeper ts e l) k" using look(2) by blast
    then show ?thesis using True new live v by (simp add: view_def map_add_def)
  next
    case False
    then have "map_of (live_entries now ts e l) k = ?I k"
      using None live by (auto simp: dead_input_def split: option.splits)
    then show ?thesis using False new old by (simp add: view_def map_add_def)
  qed
qed

text \<open>A whole compaction: it returns, keeps the tables good, and dead values uncover what lies deeper.\<close>

theorem compact_level_exact:
  assumes ok: "eng_ok tbl ts e" and tree: "tree_ok ts e" and nf: "no_faults (w_disk w)" and clk: "\<forall>n. w_clock w n = now"
    and low: "\<forall>j < l. ssts_at_level (e_manifest e) j = []" and src: "ssts_at_level (e_manifest e) l \<noteq> []"
    and small: "32 + tables_weight ts < 2 ^ 32" and ids: "unat (e_next_sst e) + 1 < 2 ^ 64"
  shows "\<exists>tbl' ts' e' w'. compact_level l (e, w) = (Inr (), (e', w')) \<and> eng_ok tbl' ts' e' \<and> tree_ok ts' e' \<and>
    ssts_at_level (e_manifest e') l = [] \<and>
    (\<forall>k. view now ts' e' k =
       (if dead_input now ts e l k then Option.bind (table_lookup (deeper ts e l) k) (unpack_value now) else view now ts e k))"
proof -
  note t = tree_okD [OF tree]
  let ?es = "live_entries now ts e l"
  note cw = compacted_weight [OF ok t(1) low]
  have fits: "sst_fits ?es" using cw(1) cw(2,3) [of now] small by (simp add: sst_fits_weight)
  have src': "src_metas e l \<noteq> []" using src by (simp add: src_metas_def)
  obtain bs c d k where run: "compact_level l (e, w) = (Inr (), (compacted e l ?es bs c, w\<lparr>w_disk := d, w_ticks := k\<rparr>))"
    and good: "?es \<noteq> [] \<longrightarrow> sst_good ?es bs" and c: "cache_ok tbl c"
    using compact_level_total [OF ok t(1) nf clk src' fits ids] by blast
  have "eng_ok (if ?es = [] then tbl else tbl(e_next_sst e \<mapsto> bs)) (compacted_tables ts e l ?es bs) (compacted e l ?es bs c)"
    by (rule compacted_ok [OF ok t(1) good c ids])
  moreover have "tree_ok (compacted_tables ts e l ?es bs) (compacted e l ?es bs c)"
    by (rule compacted_tree [OF ok tree low src' refl good])
  moreover have "ssts_at_level (e_manifest (compacted e l ?es bs c)) l = []"
    by (rule compacted_source_empty [OF ok t(1)])
  ultimately show ?thesis using run compacted_view_exact [OF ok t(1,2) low t(3) good] by fastforce
qed

lemma nothing_below_exact:
  assumes "eng_ok tbl ts e" "in_order ts e" "ranges_ok ts" "\<forall>j < l. ssts_at_level (e_manifest e) j = []"
    "level_apart (e_manifest e) (l + 1)" "nothing_below now ts e l" "dead_input now ts e l k"
  shows "Option.bind (table_lookup (deeper ts e l) k) (unpack_value now) = view now ts e k"
proof -
  obtain v where v: "mt_lookup (e_mem e) k = None" "table_lookup (inputs ts e l) k = Some v" "unpack_value now v = None"
    using assms(7) by (auto simp: dead_input_def)
  have "stored ts e k = Some v"
    using v compaction_lookup(1) [OF assms(1-5)] by (simp add: stored_def map_add_def)
  then show ?thesis using v assms(6) by (simp add: view_def nothing_below_def)
qed

subsection \<open>The exact effect of a restart\<close>

theorem reopen_reads:
  assumes db: "db_ok crc ts e w" and small: "load ts e < 2 ^ 32" and listing: "sound_listing (w_readdir w)"
  shows "\<exists>e' w'. eng_open crc (e_path e) opts w = (Inr e', w') \<and>
    (\<forall>k. fst (eng_get k (e', w')) =
       Inr (Option.bind ((table_lookup (reordered ts e) ++ mt_lookup (e_mem e)) k) (unpack_value (w_clock w (w_ticks w')))))"
proof -
  obtain e' w' rs where o: "eng_open crc (e_path e) opts w = (Inr e', w')" "log_ok crc rs e w"
    "eng_ok (table_map (reordered ts e)) (reloaded (reordered ts e)) e'"
    "stored (reloaded (reordered ts e)) e' = table_lookup (reordered ts e) ++ replayed rs" "same_env w w'"
    using db_reopen [OF db small listing, of opts] by blast
  have al: "alike (replayed rs) (mt_lookup (e_mem e))" using o(2) by (simp add: log_ok_def)
  have "fst (eng_get k (e', w')) = Inr (view (w_clock w' (w_ticks w')) (reloaded (reordered ts e)) e' k)" for k
    using eng_get_spec [OF o(3), of k w'] by auto
  then have "fst (eng_get k (e', w')) =
      Inr (Option.bind ((table_lookup (reordered ts e) ++ mt_lookup (e_mem e)) k) (unpack_value (w_clock w (w_ticks w'))))" for k
    using o(5) alike_over [OF al] by (simp add: view_def o(4) same_env_def)
  then show ?thesis using o(1) by blast
qed

subsection \<open>Small states\<close>

text \<open>A table of one entry and an engine over given tables, with an empty log.\<close>

definition one_table :: "u64 \<Rightarrow> bytes \<Rightarrow> bytes \<Rightarrow> table" where
  "one_table i k v = (sst_meta_new i 0 k k, [block_add k v block_new])"

lemma one_table_good:
  assumes "length k < 2 ^ 16" "length v < 2 ^ 16"
  shows "sst_good [(k, v)] (snd (one_table i k v))" "tentries (one_table i k v) = [(k, v)]"
    "whole (one_table i k v)" "tid (one_table i k v) = i" "fst (one_table i k v) = sst_meta_new i 0 k k"
  using assms
  by (auto simp: one_table_def tentries_def tid_def whole_def sst_good_def sorted_keys_def sst_fits_def entry_weight_def
      sst_layout_def chunk_ok_def sst_meta_new_def)

definition small_engine :: "path \<Rightarrow> manifest \<Rightarrow> table list \<Rightarrow> memtable \<Rightarrow> engine" where
  "small_engine dir mf ts m = \<lparr>e_path = dir, e_wal = \<lparr>bw_path = default_wal_path dir, bw_buf = []\<rparr>, e_mem = m,
     e_manifest = mf, e_readers = map open_of ts, e_next_sst = 9, e_next_seq = 9, e_opts = default_options,
     e_metrics = metrics_new, e_cache = None\<rparr>"

lemma small_engine_ok:
  assumes "mt_inv m" "distinct (map tid ts)" "\<forall>t \<in> set ts. sst_good (tentries t) (snd t) \<and> tid t < 9"
  shows "eng_ok (table_map ts) ts (small_engine dir mf ts m)"
proof -
  have "i < 9" if "table_map ts i \<noteq> None" for i
  proof -
    have "i \<in> tid ` set ts" using that
      by (simp only: table_map_def map_of_eq_None_iff not_not) (auto simp: image_image)
    then show ?thesis using assms(3) by auto
  qed
  then show ?thesis using assms tables_ok_map [OF assms(2)] by (simp add: eng_ok_def small_engine_def)
qed

text \<open>A deletion in level 0 over a value in level 2.\<close>

definition buried :: "table list" where
  "buried = [one_table 1 [1] (encode_with_seq [9] 1), one_table 2 [1] (encode_with_seq tombstone 2)]"

definition buried_manifest :: manifest where
  "buried_manifest = \<lparr>levels = [[sst_meta_new 2 0 [1] [1]], [], [sst_meta_new 1 0 [1] [1]]]\<rparr>"

lemma length_tombstone [simp]: "length tombstone = 1"
  by (simp add: tombstone_def)

lemmas buried_good =
  one_table_good [of "[1]" "encode_with_seq [9] 1" 1, simplified]
  one_table_good [of "[1]" "encode_with_seq tombstone 2" 2, simplified]

lemma buried_entries [simp]:
  "table_lookup buried = [[1] \<mapsto> encode_with_seq tombstone 2]" "map tid buried = [1, 2]"
  "tables_weight buried = 66" "map fst buried = [sst_meta_new 1 0 [1] [1], sst_meta_new 2 0 [1] [1]]"
  by (simp_all add: buried_def buried_good entry_weight_def)

lemma buried_ok:
  assumes "mt_inv m" "mt_lookup m = Map.empty" "e = small_engine dir buried_manifest buried m"
  shows "eng_ok (table_map buried) buried e" "tree_ok buried e" "dead_input now buried e 0 [1]"
    "Option.bind (table_lookup (deeper buried e 0) [1]) (unpack_value now) = Some [9]" "view now buried e [1] = None"
proof -
  have d: "distinct (map tid buried)" by simp
  show "eng_ok (table_map buried) buried e" unfolding assms(3)
    by (rule small_engine_ok [OF assms(1) d]) (auto simp: buried_def buried_good)
  have mf: "e_manifest e = buried_manifest" "e_mem e = m" by (simp_all add: assms(3) small_engine_def)
  have lv: "ssts_at_level buried_manifest l =
      (if l = 0 then [sst_meta_new 2 0 [1] [1]] else if l = 2 then [sst_meta_new 1 0 [1] [1]] else [])" for l
    by (auto simp: ssts_at_level_def buried_manifest_def nth_Cons split: nat.splits)
  have "in_order buried e" by (simp add: in_order_def mf buried_manifest_def)
  moreover have "ranges_ok buried" by (simp add: ranges_ok_def in_range_def buried_def buried_good sst_meta_new_def)
  ultimately show "tree_ok buried e" by (simp add: tree_ok_def mf level_apart_def lv)
  have "input_ids e 0 = [2]" by (simp add: input_ids_def src_metas_def dst_metas_def mf lv sst_meta_new_def)
  then have "inputs buried e 0 = [one_table 2 [1] (encode_with_seq tombstone 2)]"
    by (simp add: inputs_def tables_of_def buried_def buried_good)
  then show "dead_input now buried e 0 [1]"
    by (simp add: dead_input_def mf assms(2) buried_good unpack_tombstone)
  have "deeper buried e 0 = [one_table 1 [1] (encode_with_seq [9] 1)]"
    by (simp add: deeper_def mf buried_manifest_def buried_def numeral_2_eq_2)
  then show "Option.bind (table_lookup (deeper buried e 0) [1]) (unpack_value now) = Some [9]"
    by (simp add: buried_good unpack_plain tombstone_def)
  show "view now buried e [1] = None" by (simp add: view_def stored_def mf assms(2) unpack_tombstone)
qed

text \<open>A newer value in level 0 over an older one in level 1, on a disk that holds both tables, their manifest and an
  empty log.\<close>

definition stacked :: "table list" where
  "stacked = [one_table 1 [1] (encode_with_seq [9] 1), one_table 2 [1] (encode_with_seq [8] 2)]"

definition stacked_manifest :: manifest where
  "stacked_manifest = \<lparr>levels = [[sst_meta_new 2 0 [1] [1]], [], [sst_meta_new 1 0 [1] [1]]]\<rparr>"

definition stacked_world :: "path \<Rightarrow> u64 \<Rightarrow> world" where
  "stacked_world dir now = (new_world now)\<lparr>w_disk := empty_disk\<lparr>files := [
     sst_path dir 1 \<mapsto> sst_bytes (snd (one_table 1 [1] (encode_with_seq [9] 1))),
     sst_path dir 2 \<mapsto> sst_bytes (snd (one_table 2 [1] (encode_with_seq [8] 2))),
     manifest_path dir \<mapsto> manifest_encode stacked_manifest,
     default_wal_path dir \<mapsto> []]\<rparr>\<rparr>"

lemmas stacked_good =
  one_table_good [of "[1]" "encode_with_seq [9] 1" 1, simplified]
  one_table_good [of "[1]" "encode_with_seq [8] 2" 2, simplified]

lemma stacked_entries [simp]:
  "table_lookup stacked = [[1] \<mapsto> encode_with_seq [8] 2]" "map tid stacked = [1, 2]" "tables_weight stacked = 66"
  "map fst stacked = [sst_meta_new 1 0 [1] [1], sst_meta_new 2 0 [1] [1]]"
  by (simp_all add: stacked_def stacked_good entry_weight_def)

lemma stacked_ok:
  assumes "mt_inv m" "immutable m = None" "sl_contents (active m) = []" "e = small_engine dir stacked_manifest stacked m"
  shows "db_ok crc stacked e (stacked_world dir now)" "load stacked e < 2 ^ 32"
    "table_lookup (reordered stacked e) = [[1] \<mapsto> encode_with_seq [9] 1]" "sound_listing (w_readdir (stacked_world dir now))"
proof -
  let ?w = "stacked_world dir now"
  have mf: "e_manifest e = stacked_manifest" "e_mem e = m" "e_path e = dir" "e_opts e = default_options"
    "e_wal e = \<lparr>bw_path = default_wal_path dir, bw_buf = []\<rparr>"
    by (simp_all add: assms(4) small_engine_def)
  have lv: "ssts_at_level stacked_manifest l =
      (if l = 0 then [sst_meta_new 2 0 [1] [1]] else if l = 2 then [sst_meta_new 1 0 [1] [1]] else [])" for l
    by (auto simp: ssts_at_level_def stacked_manifest_def nth_Cons split: nat.splits)
  have d: "distinct (map tid stacked)" by simp
  have "eng_ok (table_map stacked) stacked e" unfolding assms(4)
    by (rule small_engine_ok [OF assms(1) d]) (auto simp: stacked_def stacked_good)
  moreover have "in_order stacked e" by (simp add: in_order_def mf stacked_manifest_def)
  moreover have "ranges_ok stacked" by (simp add: ranges_ok_def in_range_def stacked_def stacked_good sst_meta_new_def)
  moreover have "level_apart stacked_manifest l" for l by (simp add: level_apart_def lv)
  moreover have "files_ok stacked e (w_disk ?w)"
    by (simp add: files_ok_def mf stacked_world_def stacked_good stacked_def)
  moreover have "tidy dir (w_disk ?w)"
    by (rule tidy_extend [of dir empty_disk])
      (auto simp: tidy_def one_log_def empty_disk_def stacked_world_def engine_files_def)
  moreover have "\<forall>t \<in> set stacked. whole t" by (simp add: stacked_def stacked_good)
  moreover have "no_faults (w_disk ?w)" using no_faults_empty_disk by (simp add: stacked_world_def no_faults_def empty_disk_def)
  ultimately have "sys_ok (table_map stacked) stacked e ?w"
    by (simp add: sys_ok_def tree_ok_def neat_def mf stacked_manifest_def)
  moreover have "log_ok crc [] e ?w"
    using assms(2,3) by (simp add: log_ok_def mf stacked_world_def mt_lookup_settled)
  ultimately show "db_ok crc stacked e ?w"
    using assms(2,3) by (auto simp: db_ok_def calm_def settled_def mf default_options_def)
  show "load stacked e < 2 ^ 32" using assms(3) by (simp add: load_def mf)
  show "table_lookup (reordered stacked e) = [[1] \<mapsto> encode_with_seq [9] 1]"
    by (simp add: reordered_def mf stacked_manifest_def stacked_def one_table_def)
      (simp add: one_table_def [symmetric] stacked_good)
  show "sound_listing (w_readdir ?w)" by (simp add: stacked_world_def new_world_def sound_listing_listing)
qed

end
