(* ===== verification/EngineBatch.thy ===== *)
theory EngineBatch
  imports EngineLimits
begin

text \<open>
  \<open>write_batch\<close>: every operation of the batch goes to the log and then to the memtable. The values carry no
  sequence number, so a read drops the first eight bytes of a longer one; and the one flush at the end truncates
  the log even when the memtable froze in the middle of the batch.
\<close>

fun op_entry :: "batch_op \<Rightarrow> entry" where
  "op_entry (BPut key val) = (key, val)"
| "op_entry (BDelete key) = (key, tombstone)"

lemma batch_record_simps [simp]:
  "rec_key (batch_record op) = fst (op_entry op)" "rec_stored (batch_record op) = snd (op_entry op)"
  by (cases op; simp add: rec_stored_def)+

lemma batch_apply_put: "batch_apply op = mem_put (fst (op_entry op)) (snd (op_entry op))"
  by (cases op) simp_all

text \<open>What the batch makes of a map of stored values, and of what reads see.\<close>

definition batch_stored :: "batch_op list \<Rightarrow> (bytes \<Rightarrow> bytes option) \<Rightarrow> bytes \<Rightarrow> bytes option" where
  "batch_stored ops = fold (\<lambda>op m. m(fst (op_entry op) \<mapsto> snd (op_entry op))) ops"

definition batch_seen :: "u64 \<Rightarrow> batch_op list \<Rightarrow> (bytes \<Rightarrow> bytes option) \<Rightarrow> bytes \<Rightarrow> bytes option" where
  "batch_seen t ops = fold (\<lambda>op m. m(fst (op_entry op) := unpack_value t (snd (op_entry op)))) ops"

lemma batch_stored_simps [simp]:
  "batch_stored [] m = m"
  "batch_stored (op # ops) m = batch_stored ops (m(fst (op_entry op) \<mapsto> snd (op_entry op)))"
  "batch_seen t [] v = v"
  "batch_seen t (op # ops) v = batch_seen t ops (v(fst (op_entry op) := unpack_value t (snd (op_entry op))))"
  by (simp_all add: batch_stored_def batch_seen_def)

lemma batch_stored_seen:
  "(\<lambda>k. Option.bind ((b ++ batch_stored ops m) k) (unpack_value t)) =
     batch_seen t ops (\<lambda>k. Option.bind ((b ++ m) k) (unpack_value t))"
proof (induction ops arbitrary: m)
  case (Cons op ops)
  have "(\<lambda>k. Option.bind ((b ++ m(fst (op_entry op) \<mapsto> snd (op_entry op))) k) (unpack_value t)) =
      (\<lambda>k. Option.bind ((b ++ m) k) (unpack_value t))(fst (op_entry op) := unpack_value t (snd (op_entry op)))"
    by auto
  then show ?case by (simp only: batch_stored_simps Cons.IH)
qed simp

subsection \<open>The memtable\<close>

definition mem_load :: "memtable \<Rightarrow> nat" where
  "mem_load m = weight (imm_contents m) + weight (sl_contents (active m))"

definition mem_short :: "memtable \<Rightarrow> bool" where
  "mem_short m \<longleftrightarrow> short_keys (imm_contents m) \<and> short_keys (sl_contents (active m))"

lemma short_keys_Nil [simp]: "short_keys []"
  by (simp add: short_keys_def)

lemma mem_put_step:
  assumes "mt_inv m"
  shows "\<exists>m'. mt_put k v (m, rng) = Inr (m', xorshift rng) \<and> mt_inv m' \<and> mt_lookup m' = (mt_lookup m)(k \<mapsto> v) \<and>
    mem_load m' \<le> mem_load m + entry_weight (k, v) \<and> (length k < 2 ^ 16 \<longrightarrow> mem_short m \<longrightarrow> mem_short m')"
proof (cases "immutable m")
  case None
  obtain m' where m': "mt_put k v (m, rng) = Inr (m', xorshift rng)" "mt_inv m'" "mt_lookup m' = (mt_lookup m)(k \<mapsto> v)"
    "case immutable m' of None \<Rightarrow> sl_contents (active m') = bt_insert k v (sl_contents (active m))
     | Some l \<Rightarrow> sl_contents (active m') = [] \<and> sl_contents l = bt_insert k v (sl_contents (active m))"
    using mt_put_frozen [OF assms None, of k v rng] by blast
  then show ?thesis using None weight_bt_insert [of k v "sl_contents (active m)"] short_keys_bt_insert
    by (intro exI [of _ m']) (auto simp: mem_load_def mem_short_def imm_contents_def split: option.splits)
next
  case (Some l)
  obtain m' where m': "mt_put k v (m, rng) = Inr (m', xorshift rng)" "mt_inv m'" "mt_lookup m' = (mt_lookup m)(k \<mapsto> v)"
    "immutable m' = Some l" "sl_contents (active m') = bt_insert k v (sl_contents (active m))"
    using mt_put_waiting [OF assms Some, of k v rng] by blast
  then show ?thesis using Some weight_bt_insert [of k v "sl_contents (active m)"] short_keys_bt_insert
    by (intro exI [of _ m']) (auto simp: mem_load_def mem_short_def imm_contents_def)
qed

definition ops_weight :: "batch_op list \<Rightarrow> nat" where
  "ops_weight ops = sum_list (map (\<lambda>op. entry_weight (op_entry op)) ops)"

lemma ops_weight_simps [simp]: "ops_weight [] = 0" "ops_weight (op # ops) = entry_weight (op_entry op) + ops_weight ops"
  by (simp_all add: ops_weight_def)

definition ops_short :: "batch_op list \<Rightarrow> bool" where
  "ops_short ops \<longleftrightarrow> (\<forall>op \<in> set ops. length (fst (op_entry op)) < 2 ^ 16)"

lemma ops_short_simps [simp]: "ops_short [] \<longleftrightarrow> True" "ops_short (op # ops) \<longleftrightarrow> length (fst (op_entry op)) < 2 ^ 16 \<and> ops_short ops"
  by (simp_all add: ops_short_def)

text \<open>The puts of the batch into the memtable alone.\<close>

fun put_all :: "batch_op list \<Rightarrow> memtable \<times> u64 \<Rightarrow> (memtable \<times> u64) res" where
  "put_all [] s = Inr s"
| "put_all (op # ops) s = and_then (mt_put (fst (op_entry op)) (snd (op_entry op)) s) (put_all ops)"

lemma apply_batch:
  assumes "mt_inv (e_mem e)"
  shows "\<exists>m rng. st_for ops batch_apply (e, w) = (Inr (), (e\<lparr>e_mem := m\<rparr>, w\<lparr>w_rng := rng\<rparr>)) \<and>
    put_all ops (e_mem e, w_rng w) = Inr (m, rng) \<and> mt_inv m \<and>
    mt_lookup m = batch_stored ops (mt_lookup (e_mem e)) \<and> mem_load m \<le> mem_load (e_mem e) + ops_weight ops \<and>
    (ops_short ops \<longrightarrow> mem_short (e_mem e) \<longrightarrow> mem_short m)"
  using assms
proof (induction ops arbitrary: e w)
  case Nil
  then show ?case by (intro exI [of _ "e_mem e"] exI [of _ "w_rng w"]) (simp add: st_return_def)
next
  case (Cons op ops)
  obtain m where m: "mt_put (fst (op_entry op)) (snd (op_entry op)) (e_mem e, w_rng w) = Inr (m, xorshift (w_rng w))" "mt_inv m"
    "mt_lookup m = (mt_lookup (e_mem e))(fst (op_entry op) \<mapsto> snd (op_entry op))"
    "mem_load m \<le> mem_load (e_mem e) + entry_weight (op_entry op)"
    "length (fst (op_entry op)) < 2 ^ 16 \<longrightarrow> mem_short (e_mem e) \<longrightarrow> mem_short m"
    using mem_put_step [OF Cons.prems, of "fst (op_entry op)" "snd (op_entry op)" "w_rng w"] by auto
  obtain m' rng where r: "st_for ops batch_apply (e\<lparr>e_mem := m\<rparr>, w\<lparr>w_rng := xorshift (w_rng w)\<rparr>) =
      (Inr (), (e\<lparr>e_mem := m'\<rparr>, w\<lparr>w_rng := rng\<rparr>))" "put_all ops (m, xorshift (w_rng w)) = Inr (m', rng)" "mt_inv m'"
    "mt_lookup m' = batch_stored ops (mt_lookup m)"
    "mem_load m' \<le> mem_load m + ops_weight ops" "ops_short ops \<longrightarrow> mem_short m \<longrightarrow> mem_short m'"
    using Cons.IH [of "e\<lparr>e_mem := m\<rparr>" "w\<lparr>w_rng := xorshift (w_rng w)\<rparr>"] m(2) by auto
  show ?case using r m
    by (intro exI [of _ m'] exI [of _ rng]) (simp add: batch_apply_put [of op] mem_put_eq [OF m(1)])
qed

subsection \<open>The log\<close>

lemma log_batch:
  assumes "no_faults (w_disk w)"
  shows "\<exists>b d. st_for ops (\<lambda>op. on_wal (wal_append_record crc (batch_record op))) (e, w) =
      (Inr (), (e\<lparr>e_wal := b\<rparr>, w\<lparr>w_disk := d\<rparr>)) \<and> no_faults d \<and> bw_path b = bw_path (e_wal e) \<and>
    only_file (bw_path (e_wal e)) (w_disk w) d \<and>
    bw_content b d = bw_content (e_wal e) (w_disk w) @ log_bytes crc (map batch_record ops)"
  using assms
proof (induction ops arbitrary: e w)
  case Nil
  then show ?case by (intro exI [of _ "e_wal e"] exI [of _ "w_disk w"]) (simp add: st_return_def)
next
  case (Cons op ops)
  obtain b d where a: "wal_append_record crc (batch_record op) (e_wal e, w_disk w) = (Inr (), (b, d))" "no_faults d"
    "bw_content b d = bw_content (e_wal e) (w_disk w) @ record_encode crc (batch_record op)" "bw_path b = bw_path (e_wal e)"
    "only_file (bw_path (e_wal e)) (w_disk w) d"
    using wal_append_record_total [OF Cons.prems] by blast
  obtain b' d' where r: "st_for ops (\<lambda>op. on_wal (wal_append_record crc (batch_record op))) (e\<lparr>e_wal := b\<rparr>, w\<lparr>w_disk := d\<rparr>) =
      (Inr (), (e\<lparr>e_wal := b'\<rparr>, w\<lparr>w_disk := d'\<rparr>))" "no_faults d'" "bw_path b' = bw_path b" "only_file (bw_path b) d d'"
    "bw_content b' d' = bw_content b d @ log_bytes crc (map batch_record ops)"
    using Cons.IH [of "w\<lparr>w_disk := d\<rparr>" "e\<lparr>e_wal := b\<rparr>"] a(2) by auto
  have "only_file (bw_path (e_wal e)) (w_disk w) d'" using only_file_trans a(4,5) r(4) by metis
  then show ?case using r a(3,4)
    by (intro exI [of _ b'] exI [of _ d'])
      (simp add: on_wal_eq [where m = "wal_append_record crc (batch_record op)", OF a(1)])
qed

subsection \<open>The whole batch\<close>

lemma replayed_batch: "replayed (rs @ map batch_record ops) = batch_stored ops (replayed rs)"
proof (induction ops arbitrary: rs)
  case (Cons op ops)
  have "replayed (rs @ map batch_record (op # ops)) = replayed ((rs @ [batch_record op]) @ map batch_record ops)" by simp
  then show ?case by (simp only: Cons.IH replayed_simps batch_record_simps batch_stored_simps)
qed simp

lemma alike_batch: "alike m m' \<Longrightarrow> alike (batch_stored ops m) (batch_stored ops m')"
  by (induction ops arbitrary: m m') (simp_all add: alike_upd)

lemma batch_value_length: "length (rec_value (batch_record op)) \<le> length (snd (op_entry op))"
  by (cases op) simp_all

lemma batch_record_fits: "32 + n + ops_weight ops < 2 ^ 32 \<Longrightarrow> op \<in> set ops \<Longrightarrow> record_fits (batch_record op)"
proof (induction ops)
  case (Cons o' ops)
  show ?case
  proof (cases "op = o'")
    case True
    then show ?thesis using Cons.prems(1) batch_value_length [of op] by (simp add: record_fits_def entry_weight_def)
  next
    case False
    then show ?thesis using Cons by simp
  qed
qed simp

text \<open>The state of a batch before its flush: everything is in the log and in the memtable.\<close>

lemma batch_logged:
  assumes db: "db_ok crc ts e w" and ops: "wb_ops b \<noteq> []" "ops_short (wb_ops b)" "64 + load ts e + ops_weight (wb_ops b) < 2 ^ 32"
  shows "\<exists>tbl rs e' w'. eng_write_batch crc b (e, w) = maybe_flush (e', w') \<and> sys_ok tbl ts e' w' \<and> log_ok crc rs e' w' \<and>
    mem_short (e_mem e') \<and> mem_load (e_mem e') \<le> mem_load (e_mem e) + ops_weight (wb_ops b) \<and>
    (\<forall>t. view t ts e' = batch_seen t (wb_ops b) (view t ts e)) \<and> same_front (e, w) (e', w') \<and>
    e_manifest e' = e_manifest e \<and> e_next_sst e' = e_next_sst e \<and> log_bytes crc rs \<noteq> [] \<and>
    (\<exists>rng. put_all (wb_ops b) (e_mem e, w_rng w) = Inr (e_mem e', rng))"
proof -
  let ?ops = "wb_ops b"
  obtain tbl rs where s: "sys_ok tbl ts e w" "log_ok crc rs e w" "calm e" "eng_ok tbl ts e"
    using db by (rule db_okE)
  note sd = sys_okD [OF s(1)]
  obtain b1 d1 where l: "st_for ?ops (\<lambda>op. on_wal (wal_append_record crc (batch_record op))) (e, w) =
      (Inr (), (e\<lparr>e_wal := b1\<rparr>, w\<lparr>w_disk := d1\<rparr>))" "no_faults d1" "bw_path b1 = bw_path (e_wal e)"
    "only_file (bw_path (e_wal e)) (w_disk w) d1"
    "bw_content b1 d1 = bw_content (e_wal e) (w_disk w) @ log_bytes crc (map batch_record ?ops)"
    using log_batch [OF sd(4), of ?ops crc e] by blast
  obtain b2 d2 where f: "wal_flush (b1, d1) = (Inr (), (b2, d2))" "no_faults d2" "bw_buf b2 = []"
    "bw_content b2 d2 = bw_content b1 d1" "bw_path b2 = bw_path b1" "only_file (bw_path b1) d1 d2"
    using wal_flush_total [OF l(2), of b1] by blast
  let ?e = "e\<lparr>e_wal := b2\<rparr>" and ?w = "w\<lparr>w_disk := d2\<rparr>"
  obtain m rng where m: "st_for ?ops batch_apply (?e, ?w) = (Inr (), (?e\<lparr>e_mem := m\<rparr>, ?w\<lparr>w_rng := rng\<rparr>))" "mt_inv m"
    "put_all ?ops (e_mem e, w_rng w) = Inr (m, rng)"
    "mt_lookup m = batch_stored ?ops (mt_lookup (e_mem e))" "mem_load m \<le> mem_load (e_mem e) + ops_weight ?ops"
    "mem_short (e_mem e) \<longrightarrow> mem_short m"
    using apply_batch [of ?e ?ops ?w] eng_okD(1) [OF s(4)] ops(2) by auto
  let ?e' = "e\<lparr>e_wal := b2, e_mem := m, e_metrics := e_metrics e\<rparr>" and ?w' = "w\<lparr>w_disk := d2, w_rng := rng\<rparr>"
  have run: "eng_write_batch crc b (e, w) = maybe_flush (?e', ?w')"
    using ops(1) m(1) f(1)
    by (simp add: eng_write_batch_def batch_is_empty_def st_bind_eq(1) [where m = "st_for _ _", OF l(1)]
        on_wal_eq [where m = wal_flush] st_bind_def [of "st_for ?ops batch_apply"])
  have path: "bw_path b2 = bw_path (e_wal e)" "only_file (bw_path (e_wal e)) (w_disk w) d2"
    using l(3,4) f(5,6) only_file_trans by (simp, metis)
  have sys: "sys_ok tbl ts ?e' ?w'" by (rule logged_sys [OF s(1) path f(2) m(2)])
  let ?rs = "rs @ map batch_record ?ops"
  have "bw_content (e_wal e) (w_disk w) = log_bytes crc rs"
    using s(2) sd(5) by (simp add: bw_content_def log_ok_def file_bytes_def)
  then have "file_bytes d2 (default_wal_path (e_path e)) = log_bytes crc ?rs"
    using l(5) f(3,4) path(1) sd(5) by (simp add: bw_content_def)
  moreover have ne: "log_bytes crc ?rs \<noteq> []"
    using ops(1) length_record_encode [of crc "batch_record (hd ?ops)"] by (cases ?ops) auto
  ultimately have "files d2 (default_wal_path (e_path e)) = Some (log_bytes crc ?rs)"
    by (auto simp: file_bytes_def split: option.splits)
  moreover have "alike (replayed ?rs) (mt_lookup m)"
    using s(2) by (simp add: replayed_batch m(4) log_ok_def alike_batch)
  moreover have "\<forall>r \<in> set ?rs. record_fits r"
    using s(2) batch_record_fits [of "load ts e" ?ops] ops(3) by (auto simp: log_ok_def)
  ultimately have log: "log_ok crc ?rs ?e' ?w'" using f(3) by (simp add: log_ok_def)
  have seen: "view t ts ?e' = batch_seen t ?ops (view t ts e)" for t
    using batch_stored_seen [of "table_lookup ts" ?ops "mt_lookup (e_mem e)" t] by (simp add: view_def [abs_def] stored_def m(4))
  have "mem_short (e_mem e)" using s(3) by (simp add: calm_def settled_def mem_short_def imm_contents_def)
  then show ?thesis using run sys log seen m ne
    by (intro exI [of _ tbl] exI [of _ ?rs] exI [of _ ?e'] exI [of _ ?w']) simp
qed

theorem write_batch_spec:
  assumes db: "db_ok crc ts e w" and clk: "\<forall>n. w_clock w n = now"
    and ops: "ops_short (wb_ops b)" "64 + load ts e + ops_weight (wb_ops b) < 2 ^ 32"
    and room: "unat (e_next_sst e) + 2 < 2 ^ 64" "roomy (e_opts e) (e_manifest e)" "shallow (e_manifest e)"
  shows "\<exists>tbl' ts' e' w'. eng_write_batch crc b (e, w) = (Inr (), (e', w')) \<and> sys_ok tbl' ts' e' w' \<and> settled e' \<and>
    shallow (e_manifest e') \<and>
    (\<forall>t \<ge> now. view t ts' e' = batch_seen t (wb_ops b) (view t ts e)) \<and>
    (db_ok crc ts' e' w' \<or> files (w_disk w') (default_wal_path (e_path e)) = Some []) \<and> same_front (e, w) (e', w')"
proof (cases "wb_ops b = []")
  case True
  obtain tbl where "sys_ok tbl ts e w" "calm e" using db by (rule db_okE)
  then show ?thesis using True db room(3)
    by (intro exI [of _ tbl] exI [of _ ts] exI [of _ e] exI [of _ w])
      (simp add: eng_write_batch_def batch_is_empty_def st_return_def calm_def)
next
  case False
  obtain tbl rs e1 w1 where r: "eng_write_batch crc b (e, w) = maybe_flush (e1, w1)" "sys_ok tbl ts e1 w1" "log_ok crc rs e1 w1"
    "mem_short (e_mem e1)" "mem_load (e_mem e1) \<le> mem_load (e_mem e) + ops_weight (wb_ops b)"
    "\<forall>t. view t ts e1 = batch_seen t (wb_ops b) (view t ts e)" "same_front (e, w) (e1, w1)"
    "e_manifest e1 = e_manifest e" "e_next_sst e1 = e_next_sst e" "log_bytes crc rs \<noteq> []"
    using batch_logged [OF db False ops] by blast
  obtain tbl0 where c: "calm e" "o_sync_wal (e_opts e)" using db by (rule db_okE)
  show ?thesis
  proof (cases "immutable (e_mem e1)")
    case None
    then have "maybe_flush (e1, w1) = (Inr (), (e1, w1))" by (rule maybe_flush_nothing)
    moreover have "calm e1" using None r(4) by (simp add: calm_def settled_def mem_short_def)
    moreover have "o_sync_wal (e_opts e1)" using c(2) r(7) by simp
    ultimately have "db_ok crc ts e1 w1" using r(2,3) by (auto simp: db_ok_def)
    then show ?thesis using r None room(3) \<open>maybe_flush (e1, w1) = _\<close>
      by (intro exI [of _ tbl] exI [of _ ts] exI [of _ e1] exI [of _ w1]) (simp add: settled_def)
  next
    case (Some l)
    have ml: "mem_load (e_mem e) = weight (sl_contents (active (e_mem e)))"
      using c(1) by (simp add: mem_load_def calm_def settled_def imm_contents_def)
    have short: "short_keys (sl_contents l)" using r(4) Some by (simp add: mem_short_def imm_contents_def)
    have "weight (sl_contents l) \<le> mem_load (e_mem e1)" using Some by (simp add: mem_load_def imm_contents_def)
    then have "32 + tables_weight ts + weight (sl_contents l) < 2 ^ 32" using r(5) ml ops(2) by (simp add: load_def)
    moreover have "\<forall>n. w_clock w1 n = now" "bw_buf (e_wal e1) = []" "roomy (e_opts e1) (e_manifest e1)" "shallow (e_manifest e1)"
      "unat (e_next_sst e1) + 2 < 2 ^ 64"
      using clk r(3,7,8,9) room by (simp_all add: log_ok_def)
    ultimately obtain tbl' ts' e' w' where f: "maybe_flush (e1, w1) = (Inr (), (e', w'))" "sys_ok tbl' ts' e' w'" "settled e'"
      "\<forall>t \<ge> now. view t ts' e' = view t ts e1" "same_front (e1, w1) (e', w')"
      "files (w_disk w') (default_wal_path (e_path e1)) = Some []" "shallow (e_manifest e')"
      using flush_sys [OF r(2) _ Some] short by blast
    then show ?thesis using r by (intro exI [of _ tbl'] exI [of _ ts'] exI [of _ e'] exI [of _ w']) simp
  qed
qed

subsection \<open>What a get returns after a batch\<close>

definition last_op :: "bytes \<Rightarrow> batch_op list \<Rightarrow> batch_op option" where
  "last_op k ops = find (\<lambda>op. fst (op_entry op) = k) (rev ops)"

lemma last_op_simps [simp]:
  "last_op k [] = None"
  "last_op k (ops @ [op]) = (if fst (op_entry op) = k then Some op else last_op k ops)"
  by (simp_all add: last_op_def)

lemma batch_seen_last:
  "batch_seen t ops v k = (case last_op k ops of None \<Rightarrow> v k | Some op \<Rightarrow> unpack_value t (snd (op_entry op)))"
proof (induction ops rule: rev_induct)
  case (snoc op ops)
  then show ?case by (simp add: batch_seen_def)
qed simp

text \<open>A batch stores its values without a sequence number, and a read takes the first eight bytes of any stored value
  of that length for one.\<close>

lemma batch_read:
  "batch_seen t ops v k =
     (case last_op k ops of
        None \<Rightarrow> v k
      | Some (BDelete k') \<Rightarrow> None
      | Some (BPut k' val) \<Rightarrow> unpack_inner t (if 8 \<le> length val then drop 8 val else val))"
  by (auto simp: batch_seen_last unpack_unprefixed unpack_inner_def tombstone_def split: option.splits batch_op.splits)

subsection \<open>The tail of a batch after a freeze\<close>

text \<open>An engine with nothing stored over an empty log.\<close>

definition blank_world :: "path \<Rightarrow> u64 \<Rightarrow> world" where
  "blank_world dir now = (new_world now)\<lparr>w_disk := empty_disk\<lparr>files := [default_wal_path dir \<mapsto> []]\<rparr>\<rparr>"

lemma blank_ok:
  assumes "mt_inv m" "immutable m = None" "sl_contents (active m) = []" "e = small_engine dir manifest_new [] m"
  shows "db_ok crc [] e (blank_world dir now)" "load [] e = 0" "sound_listing (w_readdir (blank_world dir now))"
    "\<forall>n. w_clock (blank_world dir now) n = now"
proof -
  let ?w = "blank_world dir now"
  have mf: "e_manifest e = manifest_new" "e_mem e = m" "e_path e = dir" "e_opts e = default_options"
    "e_wal e = \<lparr>bw_path = default_wal_path dir, bw_buf = []\<rparr>"
    by (simp_all add: assms(4) small_engine_def)
  have "eng_ok (table_map []) [] e" unfolding assms(4) by (rule small_engine_ok [OF assms(1)]) simp_all
  moreover have "tidy dir (w_disk ?w)"
    by (rule tidy_extend [of dir empty_disk])
      (auto simp: tidy_def one_log_def empty_disk_def blank_world_def engine_files_def)
  moreover have "no_faults (w_disk ?w)" using no_faults_empty_disk by (simp add: blank_world_def no_faults_def empty_disk_def)
  moreover have "files_ok [] e (w_disk ?w)" by (simp add: files_ok_def mf blank_world_def empty_disk_def)
  ultimately have "sys_ok (table_map []) [] e ?w"
    by (simp add: sys_ok_def tree_ok_def neat_def mf in_order_def ranges_ok_def level_apart_def ssts_at_level_def manifest_new_def)
  moreover have "log_ok crc [] e ?w"
    using assms(2,3) by (simp add: log_ok_def mf blank_world_def mt_lookup_settled)
  ultimately show "db_ok crc [] e ?w"
    using assms(2,3) by (auto simp: db_ok_def calm_def settled_def mf default_options_def)
  show "load [] e = 0" using assms(3) by (simp add: load_def mf)
  show "sound_listing (w_readdir ?w)" "\<forall>n. w_clock ?w n = now"
    by (simp_all add: blank_world_def new_world_def sound_listing_listing)
qed

lemma put_two:
  assumes m: "mt_inv m" "immutable m = None" "sl_contents (active m) = []" "max_size m = 0"
    and run: "put_all [BPut k1 v1, BPut k2 v2] (m, rng) = Inr (m', rng')"
  shows "\<exists>l. immutable m' = Some l \<and> sl_contents l = [(k1, v1)] \<and> sl_contents (active m') = [(k2, v2)]"
proof -
  have "0 < size_of_skiplist" by (simp add: size_of_skiplist_def)
  then have pos: "0 < sl_size (active m)" using m(1) by (simp add: mt_inv_def sl_sized_def)
  obtain m1 where m1: "mt_put k1 v1 (m, rng) = Inr (m1, xorshift rng)" "mt_inv m1" "immutable m1 \<noteq> None"
    using mt_put_spec [OF m(1), of k1 v1 rng] m(2,4) pos by auto
  obtain l where l: "immutable m1 = Some l" "sl_contents (active m1) = []" "sl_contents l = [(k1, v1)]"
    using mt_put_frozen [OF m(1,2), of k1 v1 rng] m1 m(3) by auto
  obtain m2 where "mt_put k2 v2 (m1, xorshift rng) = Inr (m2, xorshift (xorshift rng))" "immutable m2 = Some l"
    "sl_contents (active m2) = [(k2, v2)]"
    using mt_put_waiting [OF m1(2) l(1), of k2 v2 "xorshift rng"] l(2) by auto
  then show ?thesis using run m1(1) l by auto
qed

text \<open>A crash right after a batch that returned Ok keeps its first put and loses its second.\<close>

lemma quiet_new: "quiet default_options (add_sst 0 meta manifest_new)"
proof -
  have "\<exists>t. level_threshold 4 l = Inr t \<and> length (ssts_at_level (add_sst 0 meta manifest_new) l) < t" if "l < 6" for l
  proof -
    have "l \<in> {0, 1, 2, 3, 4, 5}" using that by auto
    moreover have "ssts_at_level (add_sst 0 meta manifest_new) l = (if l = 0 then [meta] else [])"
      by (simp only: ssts_at_level_add) (simp add: ssts_at_level_def manifest_new_def)
    ultimately show ?thesis by (auto simp: level_threshold_def)
  qed
  then show ?thesis by (simp add: quiet_def default_options_def)
qed

lemma eng_get_view:
  assumes "eng_ok tbl ts e"
  shows "fst (eng_get k (e, w)) = Inr (view (w_clock w (w_ticks w)) ts e k)"
  using eng_get_spec [OF assms, of k w] by auto

lemma batch_tail_lost:
  "\<exists>e w e1 w1 e2 w2. db_ok crc [] e w \<and>
     eng_write_batch crc \<lparr>wb_ops = [BPut [1] [7], BPut [2] [8]]\<rparr> (e, w) = (Inr (), (e1, w1)) \<and>
     fst (eng_get [2] (e1, w1)) = Inr (Some [8]) \<and> eng_open crc (e_path e1) default_options w1 = (Inr e2, w2) \<and>
     fst (eng_get [1] (e2, w2)) = Inr (Some [7]) \<and> fst (eng_get [2] (e2, w2)) = Inr None"
proof -
  obtain m where m: "mt_inv m" "mt_lookup m = Map.empty" "immutable m = None" "max_size m = 0"
    using mt_new_spec [of 0] by blast
  then have empty: "sl_contents (active m) = []" by (simp add: mt_lookup_settled)
  let ?e = "small_engine ''db'' manifest_new [] m" and ?w = "blank_world ''db'' 7"
  let ?b = "\<lparr>wb_ops = [BPut [1] [7], BPut [2] [8]]\<rparr>"
  note bl = blank_ok [OF m(1,3) empty refl]
  have db: "db_ok crc [] ?e ?w" by (rule bl(1))
  have "load [] ?e = 0" by (rule bl(2))
  then have fits: "64 + load [] ?e + ops_weight (wb_ops ?b) < 2 ^ 32" by (simp add: entry_weight_def)
  obtain tbl rs e1 w1 where r: "eng_write_batch crc ?b (?e, ?w) = maybe_flush (e1, w1)" "sys_ok tbl [] e1 w1" "log_ok crc rs e1 w1"
    "mem_short (e_mem e1)" "mem_load (e_mem e1) \<le> mem_load (e_mem ?e) + ops_weight (wb_ops ?b)"
    "same_front (?e, ?w) (e1, w1)" "e_manifest e1 = manifest_new" "e_next_sst e1 = 9"
    "\<exists>rng. put_all (wb_ops ?b) (e_mem ?e, w_rng ?w) = Inr (e_mem e1, rng)"
    using batch_logged [OF db _ _ fits] by (auto simp: small_engine_def)
  have "e_mem ?e = m" by (simp add: small_engine_def)
  then obtain rng where "put_all [BPut [1] [7], BPut [2] [8]] (m, w_rng ?w) = Inr (e_mem e1, rng)"
    using r(9) by (simp only: write_batch.select_convs) blast
  from put_two [OF m(1,3) empty m(4) this] obtain l where l: "immutable (e_mem e1) = Some l"
    "sl_contents l = [([1], [7])]" "sl_contents (active (e_mem e1)) = [([2], [8])]" by blast
  have buf: "bw_buf (e_wal e1) = []" using r(3) by (simp add: log_ok_def)
  have short: "short_keys (sl_contents l)" using l(2) by (simp add: short_keys_def)
  have small: "32 + tables_weight [] + weight (sl_contents l) < 2 ^ 32" using l(2) by (simp add: entry_weight_def)
  have ids: "unat (e_next_sst e1) + 1 < 2 ^ 64" by (simp add: r(8))
  let ?es = "[([1], [7])] :: entry list"
  obtain bs d where f: "maybe_flush (e1, w1) = maybe_compact (flushed e1 ?es bs, w1\<lparr>w_disk := d\<rparr>)" "sst_good ?es bs"
    "sys_ok (tbl(e_next_sst e1 \<mapsto> bs)) [(flushed_meta e1 ?es, bs)] (flushed e1 ?es bs) (w1\<lparr>w_disk := d\<rparr>)"
    "files d (default_wal_path (e_path e1)) = Some []"
    using flush_start [OF r(2) l(1) buf short small ids] by (auto simp: l(2))
  let ?e2 = "flushed e1 ?es bs" and ?w2 = "w1\<lparr>w_disk := d\<rparr>" and ?t = "(flushed_meta e1 ?es, bs)"
  have opts: "e_opts e1 = default_options" "e_path e1 = ''db''" "w_clock w1 = (\<lambda>_. 7)" "w_readdir w1 = listing"
    using r(6) by (simp_all add: small_engine_def blank_world_def new_world_def)
  have "quiet (e_opts ?e2) (e_manifest ?e2)" by (simp add: flushed_def opts r(7) quiet_new)
  from maybe_compact_quiet [OF this, of ?w2] have run: "eng_write_batch crc ?b (?e, ?w) = (Inr (), (?e2, ?w2))"
    using r(1) f(1) by simp
  have mem: "mt_lookup (e_mem ?e2) = [[2] \<mapsto> [8]]"
    by (simp add: flushed_def mt_lookup_settled l(3))
  have get2: "fst (eng_get [2] (?e2, ?w2)) = Inr (Some [8])"
    by (simp add: eng_get_view [OF sys_okD(1) [OF f(3)]] view_def stored_def mem unpack_unprefixed unpack_inner_def
        unwrap_ttl_def tombstone_def)
  have path: "e_path ?e2 = ''db''" by (simp add: flushed_def opts)
  have log: "log_file crc [] (w_disk ?w2) (default_wal_path (e_path ?e2))" using f(4) by (simp add: log_file_empty path opts)
  have tw: "tables_weight [?t] < 2 ^ 32" by (simp add: tentries_good [OF f(2)] entry_weight_def)
  have ls: "sound_listing (w_readdir ?w2)" by (simp add: opts sound_listing_listing)
  obtain e3 w3 where o: "eng_open crc (e_path ?e2) default_options ?w2 = (Inr e3, w3)"
    "eng_ok (table_map (reordered [?t] ?e2)) (reloaded (reordered [?t] ?e2)) e3"
    "stored (reloaded (reordered [?t] ?e2)) e3 = table_lookup (reordered [?t] ?e2) ++ replayed []" "same_env ?w2 w3"
    using sys_reopen [OF f(3) log tw ls, of default_options] by blast
  have "reordered [?t] ?e2 = [?t]"
    by (rule reordered_self) (simp_all add: flushed_def r(7) add_sst_def manifest_new_def)
  then have st: "stored (reloaded (reordered [?t] ?e2)) e3 = [[1] \<mapsto> [7]]"
    using o(3) by (simp add: tentries_good [OF f(2)])
  have clk: "w_clock w3 n = 7" for n using o(4) by (simp add: same_env_def opts)
  have "fst (eng_get [1] (e3, w3)) = Inr (Some [7])" "fst (eng_get [2] (e3, w3)) = Inr None"
    by (simp_all add: eng_get_view [OF o(2)] view_def st clk unpack_unprefixed unpack_inner_def unwrap_ttl_def tombstone_def)
  then show ?thesis using db run get2 o(1) by blast
qed

end
