(* ===== verification/EngineClose.thy ===== *)
theory EngineClose
  imports EngineBatch
begin

text \<open>
  Snapshots (\<open>get_at\<close>), the orderly end (\<open>close\<close>) and \<open>repair\<close>, which rebuilds the manifest from the tables found
  in the directory.
\<close>

subsection \<open>Snapshots\<close>

text \<open>The newest version older than the snapshot among the tables, then among memtable and tables. The memtable and
  each table hold one version of a key only.\<close>

fun table_at :: "snapshot \<Rightarrow> table list \<Rightarrow> bytes \<Rightarrow> bytes option" where
  "table_at snap [] k = None"
| "table_at snap (t # ts) k =
     (case table_at snap ts k of Some v \<Rightarrow> Some v | None \<Rightarrow> seen_by snap (map_of (tentries t) k))"

definition stored_at :: "snapshot \<Rightarrow> table list \<Rightarrow> engine \<Rightarrow> bytes \<Rightarrow> bytes option" where
  "stored_at snap ts e k =
     (case seen_by snap (mt_lookup (e_mem e) k) of Some v \<Rightarrow> Some v | None \<Rightarrow> table_at snap ts k)"

lemma table_at_append:
  "table_at snap (ts @ us) k = (case table_at snap us k of Some v \<Rightarrow> Some v | None \<Rightarrow> table_at snap ts k)"
  by (induction ts) (auto split: option.splits)

lemma search_tables_at_spec:
  assumes "tables_ok tbl us" "cache_ok tbl (e_cache e)"
  shows "\<exists>c'. search_tables_at (map open_of us) k snap (e, w) =
    (Inr (table_at snap (rev us) k), (e\<lparr>e_cache := c'\<rparr>, w)) \<and> cache_ok tbl c'"
  using assms
proof (induction us arbitrary: e)
  case Nil
  then show ?case by (auto simp: st_return_def intro!: exI [of _ "e_cache e"])
next
  case (Cons t us)
  have good: "sst_good (tentries t) (snd t)" "tbl (tid t) = Some (snd t)" using Cons.prems(1) by simp_all
  obtain c where c: "sst_get (opened (snd t) (tid t)) k (e_cache e) = (Inr (map_of (tentries t) k), c)" "cache_ok tbl c"
    using sst_get_spec [OF good Cons.prems(2), of k] by blast
  have step: "on_cache (sst_get (opened (snd t) (tid t)) k) (e, w) = (Inr (map_of (tentries t) k), (e\<lparr>e_cache := c\<rparr>, w))"
    using c(1) by (simp add: on_cache_def)
  show ?case
  proof (cases "seen_by snap (map_of (tentries t) k)")
    case (Some v)
    then show ?thesis using step c(2) by (auto simp: open_of_def [of t] st_bind_def st_return_def table_at_append)
  next
    case None
    obtain c' where "search_tables_at (map open_of us) k snap (e\<lparr>e_cache := c\<rparr>, w) =
        (Inr (table_at snap (rev us) k), (e\<lparr>e_cache := c'\<rparr>, w))" "cache_ok tbl c'"
      using Cons.IH [of "e\<lparr>e_cache := c\<rparr>"] Cons.prems c(2) by auto
    then show ?thesis
      using step None by (auto simp: open_of_def [of t] st_bind_def table_at_append)
  qed
qed

theorem eng_get_at_spec:
  assumes ok: "eng_ok tbl ts e"
  shows "\<exists>c' n. eng_get_at k snap (e, w) =
      (Inr (Option.bind (stored_at snap ts e k) (unpack_inner (w_clock w (w_ticks w)))), (e\<lparr>e_cache := c'\<rparr>, w\<lparr>w_ticks := n\<rparr>)) \<and>
    cache_ok tbl c'"
proof -
  note o = eng_okD [OF ok]
  show ?thesis
  proof (cases "seen_by snap (mt_lookup (e_mem e) k)")
    case (Some v)
    then show ?thesis using o(4) mt_get_spec [OF o(1)]
      by (intro exI [of _ "e_cache e"] exI [of _ "w_ticks w + ttl_reads v"]) (simp add: eng_get_at_def stored_at_def)
  next
    case None
    obtain c' where s: "search_tables_at (map open_of (rev ts)) k snap (e, w) =
        (Inr (table_at snap ts k), (e\<lparr>e_cache := c'\<rparr>, w))" "cache_ok tbl c'"
      using search_tables_at_spec [of tbl "rev ts" e k snap w] o(3,4) by auto
    show ?thesis
    proof (cases "table_at snap ts k")
      case None
      then show ?thesis using \<open>seen_by snap (mt_lookup (e_mem e) k) = None\<close> mt_get_spec [OF o(1)] s
        by (intro exI [of _ c'] exI [of _ "w_ticks w"])
          (simp add: eng_get_at_def o(2) rev_map stored_at_def st_bind_def [of "search_tables_at _ _ _"] st_return_def)
    next
      case (Some v)
      then show ?thesis using None mt_get_spec [OF o(1)] s
        by (intro exI [of _ c'] exI [of _ "w_ticks w + ttl_reads v"])
          (simp add: eng_get_at_def o(2) rev_map stored_at_def st_bind_def [of "search_tables_at _ _ _"])
    qed
  qed
qed

text \<open>A key whose newest version is older than the snapshot reads as it reads now.\<close>

lemma table_at_none: "table_lookup ts k = None \<Longrightarrow> table_at snap ts k = None"
  by (induction ts) (auto simp: seen_by_def map_add_def split: option.splits)

lemma table_at_newest:
  assumes "table_lookup ts k = Some v" "decode_with_seq v = Some (val, seq)" "seq < snap_seq snap"
  shows "table_at snap ts k = Some val"
  using assms by (induction ts) (auto simp: seen_by_def map_add_def table_at_none split: option.splits)

lemma stored_at_newest:
  assumes "stored ts e k = Some v" "decode_with_seq v = Some (val, seq)" "seq < snap_seq snap"
  shows "stored_at snap ts e k = Some val"
  using assms table_at_newest by (auto simp: stored_at_def stored_def seen_by_def map_add_def split: option.splits)

lemma stored_at_current:
  assumes "\<forall>v val seq. stored ts e k = Some v \<longrightarrow> decode_with_seq v = Some (val, seq) \<longrightarrow> seq < snap_seq snap"
  shows "Option.bind (stored_at snap ts e k) (unpack_inner now) = view now ts e k"
proof (cases "stored ts e k")
  case None
  then show ?thesis by (auto simp: stored_at_def stored_def view_def seen_by_def map_add_def table_at_none split: option.splits)
next
  case (Some v)
  obtain val seq where "decode_with_seq v = Some (val, seq)" using decode_with_seq_Some by blast
  then show ?thesis using stored_at_newest [OF Some] assms Some by (simp add: view_def unpack_value_def)
qed

text \<open>The memtable keeps the newest version only: a key written after the snapshot is gone unless a table has it.\<close>

lemma stored_at_overwritten:
  assumes "mt_lookup (e_mem e) k = Some (encode_with_seq val seq)" "\<not> seq < snap_seq snap" "table_lookup ts k = None"
  shows "stored_at snap ts e k = None"
  using assms by (simp add: stored_at_def seen_by_def decode_encode_seq table_at_none)

subsection \<open>Closing\<close>

lemma st_bind_done_unit: "m s = (Inr (), s') \<Longrightarrow> st_bind m (\<lambda>_. f) s = f s'"
  by (simp add: st_bind_def)

text \<open>The last two steps of \<open>close\<close> with an empty log buffer: sync and save, which change no file.\<close>

lemma wal_flush_idle:
  assumes "bw_buf b = []" "no_faults d"
  shows "\<exists>d'. wal_flush (b, d) = (Inr (), (b, d')) \<and> files d' = files d \<and> no_faults d'"
  using assms by (simp add: wal_flush_def bw_flush_buf_def sync_file_def fault_now_def no_faults_def st_bind_def)

lemma close_tail:
  assumes sys: "sys_ok tbl ts e w" and buf: "bw_buf (e_wal e) = []"
  shows "\<exists>w'. (case st_bind (on_wal wal_flush) (\<lambda>_. save_manifest) (e, w) of (r, (e', w')) \<Rightarrow> (r, eng_drop e' w')) = (Inr (), w') \<and>
    sys_ok tbl ts e w' \<and> files (w_disk w') (default_wal_path (e_path e)) = files (w_disk w) (default_wal_path (e_path e)) \<and>
    same_env w w'"
proof -
  note s = sys_okD [OF sys]
  obtain d where f: "wal_flush (e_wal e, w_disk w) = (Inr (), (e_wal e, d))" "files d = files (w_disk w)" "no_faults d"
    using wal_flush_idle [OF buf s(4)] by blast
  let ?w = "w\<lparr>w_disk := d\<rparr>"
  obtain d2 where g: "save_manifest (e, ?w) = (Inr (), (e, ?w\<lparr>w_disk := d2\<rparr>))" "only_file (manifest_path (e_path e)) d d2"
    "no_faults d2" "files d2 (manifest_path (e_path e)) = Some (manifest_encode (e_manifest e))"
    using save_manifest_total [of ?w e] f(3) by auto
  let ?w2 = "w\<lparr>w_disk := d2\<rparr>"
  have drop: "bw_drop (e_wal e) d2 = d2" using buf by (simp add: bw_drop_def bw_flush_buf_def)
  have "e\<lparr>e_wal := e_wal e\<rparr> = e" by simp
  then have run: "(case st_bind (on_wal wal_flush) (\<lambda>_. save_manifest) (e, w) of (r, (e', w')) \<Rightarrow> (r, eng_drop e' w')) = (Inr (), ?w2)"
    using g(1) by (simp add: on_wal_eq [where m = wal_flush, OF f(1)] eng_drop_def drop)
  have same: "files d2 q = files (w_disk w) q" if "q \<noteq> manifest_path (e_path e)" for q
    using only_fileD [OF g(2) that] f(2) by simp
  then have "dom (files d2) \<subseteq> dom (files (w_disk w)) \<union> engine_files (e_path e)" by (fastforce simp: engine_files_def)
  from tidy_extend [OF _ this] have "neat ts e d2" using s(7) by (simp add: neat_def)
  moreover have "files_ok ts e d2" using s(6) same g(4) by (simp add: files_ok_def)
  ultimately have "sys_ok tbl ts e ?w2" using s g(3) by (simp add: sys_ok_def)
  then show ?thesis using run same by (intro exI [of _ ?w2]) (simp add: same_env_def)
qed

theorem eng_close_spec:
  assumes db: "db_ok crc ts e w" and clk: "\<forall>n. w_clock w n = now" and room: "roomy (e_opts e) (e_manifest e)" "shallow (e_manifest e)"
    and small: "32 + load ts e < 2 ^ 32" and ids: "unat (e_next_sst e) + 2 < 2 ^ 64"
  shows "\<exists>tbl' ts' e' w'. eng_close e w = (Inr (), w') \<and> sys_ok tbl' ts' e' w' \<and> mt_lookup (e_mem e') = Map.empty \<and>
    (\<forall>t \<ge> now. view t ts' e' = view t ts e) \<and> files (w_disk w') (default_wal_path (e_path e)) = Some [] \<and>
    e_path e' = e_path e \<and> tables_weight ts' \<le> load ts e \<and> shallow (e_manifest e') \<and> same_env w w'"
proof -
  obtain tbl rs where s: "sys_ok tbl ts e w" "log_ok crc rs e w" "calm e" using db by (rule db_okE)
  have imm: "immutable (e_mem e) = None" and short: "short_keys (sl_contents (active (e_mem e)))"
    using s(3) by (simp_all add: calm_def settled_def)
  obtain b m where m: "mt_freeze (e_mem e) = Inr (b, m)" "mt_inv m" "mt_lookup m = mt_lookup (e_mem e)"
    "b \<longleftrightarrow> sl_contents (active (e_mem e)) \<noteq> []"
    "if b then immutable m = Some (active (e_mem e)) \<and> sl_contents (active m) = [] else m = e_mem e"
    using mt_freeze_spec [OF eng_okD(1) [OF sys_okD(1) [OF s(1)]]] imm by auto
  let ?e = "e\<lparr>e_mem := m\<rparr>"
  have start: "eng_close e w = (case st_bind maybe_flush (\<lambda>_. st_bind (on_wal wal_flush) (\<lambda>_. save_manifest)) (?e, w) of
      (r, (e', w')) \<Rightarrow> (r, eng_drop e' w'))"
  proof -
    have "freeze_mem (e, w) = (Inr (), (?e, w))" by (simp add: freeze_mem_def m(1))
    note steps = st_bind_done_unit [where m = freeze_mem, OF this] st_bind_done_unit [where m = maybe_flush, OF maybe_flush_nothing [OF imm]]
    show ?thesis by (simp only: eng_close_def steps)
  qed
  show ?thesis
  proof (cases b)
    case False
    then have e: "?e = e" "mt_lookup (e_mem e) = Map.empty" using m(4,5) imm by (simp_all add: mt_lookup_settled)
    have "rs = []"
    proof (rule ccontr)
      assume "rs \<noteq> []"
      then obtain rs0 r where "rs = rs0 @ [r]" using rev_exhaust by blast
      then have "replayed rs (rec_key r) \<noteq> None" by simp
      then show False using s(2) e(2) unfolding log_ok_def alike_def by (metis)
    qed
    then have wal: "files (w_disk w) (default_wal_path (e_path e)) = Some []" "bw_buf (e_wal e) = []"
      using s(2) by (simp_all add: log_ok_def)
    obtain w' where "(case st_bind (on_wal wal_flush) (\<lambda>_. save_manifest) (e, w) of (r, (e', w')) \<Rightarrow> (r, eng_drop e' w')) = (Inr (), w')"
      "sys_ok tbl ts e w'" "files (w_disk w') (default_wal_path (e_path e)) = Some []" "same_env w w'"
      using close_tail [OF s(1) wal(2)] wal(1) by auto
    then show ?thesis using start e room(2)
      by (intro exI [of _ tbl] exI [of _ ts] exI [of _ e] exI [of _ w'])
        (simp add: st_bind_done_unit [where m = maybe_flush, OF maybe_flush_nothing [OF imm]] load_def)
  next
    case True
    then have f: "immutable m = Some (active (e_mem e))" "sl_contents (active m) = []" using m(5) by simp_all
    have sys1: "sys_ok tbl ts ?e w"
      using logged_sys [OF s(1) refl only_file_refl sys_okD(4) [OF s(1)] m(2), of "e_metrics e" "w_rng w"] by simp
    have "bw_buf (e_wal ?e) = []" "roomy (e_opts ?e) (e_manifest ?e)" "shallow (e_manifest ?e)" "unat (e_next_sst ?e) + 2 < 2 ^ 64"
      "32 + tables_weight ts + weight (sl_contents (active (e_mem e))) < 2 ^ 32"
      using s(2) room ids small by (simp_all add: log_ok_def load_def)
    then obtain tbl' ts' e' w1 where g: "maybe_flush (?e, w) = (Inr (), (e', w1))" "sys_ok tbl' ts' e' w1"
      "\<forall>t \<ge> now. view t ts' e' = view t ts ?e" "tables_weight ts' \<le> tables_weight ts + weight (sl_contents (active (e_mem e)))"
      "e_mem e' = m\<lparr>immutable := None\<rparr>" "same_front (?e, w) (e', w1)" "bw_buf (e_wal e') = []"
      "files (w_disk w1) (default_wal_path (e_path ?e)) = Some []" "shallow (e_manifest e')"
      using flush_sys [OF sys1 clk, of "active (e_mem e)"] f(1) short by auto
    obtain w' where "(case st_bind (on_wal wal_flush) (\<lambda>_. save_manifest) (e', w1) of (r, (e', w')) \<Rightarrow> (r, eng_drop e' w')) = (Inr (), w')"
      "sys_ok tbl' ts' e' w'" "files (w_disk w') (default_wal_path (e_path e')) = files (w_disk w1) (default_wal_path (e_path e'))" "same_env w1 w'"
      using close_tail [OF g(2,7)] by blast
    moreover have "view t ts ?e = view t ts e" for t by (simp add: view_def stored_def m(3) fun_eq_iff)
    ultimately show ?thesis using start g f(2)
      by (intro exI [of _ tbl'] exI [of _ ts'] exI [of _ e'] exI [of _ w'])
        (simp add: st_bind_done_unit [where m = maybe_flush, OF g(1)] mt_lookup_settled load_def same_env_def)
  qed
qed

text \<open>Opening what \<open>close\<close> left behind, when its tables lie in one level.\<close>

lemma open_closed:
  assumes sys: "sys_ok tbl ts e w" and mem: "mt_lookup (e_mem e) = Map.empty" and wal: "files (w_disk w) (default_wal_path (e_path e)) = Some []"
    and small: "tables_weight ts < 2 ^ 32" and listing: "sound_listing (w_readdir w)" and one: "one_level (e_manifest e)"
  shows "\<exists>e' w'. eng_open crc (e_path e) opts w = (Inr e', w') \<and>
    (\<forall>k. fst (eng_get k (e', w')) = Inr (view (w_clock w (w_ticks w')) ts e k))"
proof -
  have log: "log_file crc [] (w_disk w) (default_wal_path (e_path e))" using wal by (simp add: log_file_empty)
  note o = eng_okD [OF sys_okD(1) [OF sys]] and t = tree_okD [OF sys_okD(2) [OF sys]]
  have us: "reordered ts e = ts"
    using reordered_self [OF distinct_metas [OF o(6)]] t(1) one by (simp add: in_order_def one_level_def)
  obtain e' w' where r: "eng_open crc (e_path e) opts w = (Inr e', w')" "eng_ok (table_map ts) (reloaded ts) e'"
    "stored (reloaded ts) e' = table_lookup ts ++ replayed []" "same_env w w'"
    using sys_reopen [OF sys log small listing, of opts] unfolding us by blast
  have "fst (eng_get k (e', w')) = Inr (view (w_clock w (w_ticks w')) ts e k)" for k
    using r(4) by (simp add: eng_get_view [OF r(2)] view_def r(3) stored_def [of ts e] mem same_env_def)
  then show ?thesis using r(1) by blast
qed

end
