(* ===== verification/EngineRepair.thy ===== *)
theory EngineRepair
  imports EngineClose
begin

text \<open>
  \<open>repair\<close>: every file of the directory that is named like a table is opened; those that open are entered in a new
  manifest, those that do not are deleted. The new manifest knows neither levels nor key ranges, and the log is
  truncated.
\<close>

text \<open>The table id a file name stands for.\<close>

definition sst_name :: "string \<Rightarrow> u64 option" where
  "sst_name name = (if ends_with ''.sst'' name then parse_u64 (trim_sst name) else None)"

text \<open>A file that opens, and a file whose content is refused with an error.\<close>

definition opens :: "disk \<Rightarrow> path \<Rightarrow> bool" where
  "opens d p \<longleftrightarrow> (\<exists>c r. files d p = Some c \<and> sst_parse c 0 = Inr r)"

definition refused :: "disk \<Rightarrow> path \<Rightarrow> bool" where
  "refused d p \<longleftrightarrow> (\<exists>c err. files d p = Some c \<and> sst_parse c 0 = Inl (Fail err))"

lemma good_opens: "files d p = Some (sst_bytes bs) \<Longrightarrow> sst_good es bs \<Longrightarrow> opens d p"
  by (auto simp: opens_def sst_parse_written)

definition entered :: "string list \<Rightarrow> manifest \<Rightarrow> manifest" where
  "entered names = fold (\<lambda>name mf. case sst_name name of None \<Rightarrow> mf | Some i \<Rightarrow> add_sst 0 (sst_meta_new i 0 [] []) mf) names"

lemma entered_simps [simp]:
  "entered [] mf = mf"
  "entered (name # names) mf =
     entered names (case sst_name name of None \<Rightarrow> mf | Some i \<Rightarrow> add_sst 0 (sst_meta_new i 0 [] []) mf)"
  by (simp_all add: entered_def)

text \<open>What a pass over the names finds: the good names in order, and the paths that are removed.\<close>

definition kept :: "disk \<Rightarrow> path \<Rightarrow> string list \<Rightarrow> string list" where
  "kept d dir names = filter (\<lambda>name. sst_name name \<noteq> None \<and> opens d (path_join dir name)) names"

definition dropped :: "disk \<Rightarrow> path \<Rightarrow> string list \<Rightarrow> string list" where
  "dropped d dir names = filter (\<lambda>name. sst_name name \<noteq> None \<and> refused d (path_join dir name)) names"

lemma not_both: "\<not> (opens d p \<and> refused d p)"
  by (auto simp: opens_def refused_def)

lemma kept_cong:
  assumes "\<forall>name \<in> set names. files d' (path_join dir name) = files d (path_join dir name)"
  shows "kept d' dir names = kept d dir names" "dropped d' dir names = dropped d dir names"
proof -
  have "opens d' (path_join dir name) = opens d (path_join dir name)"
    "refused d' (path_join dir name) = refused d (path_join dir name)" if "name \<in> set names" for name
    using assms that by (simp_all add: opens_def refused_def)
  then show "kept d' dir names = kept d dir names" "dropped d' dir names = dropped d dir names"
    unfolding kept_def dropped_def by (auto intro: filter_cong)
qed

lemma sst_open_opens: "no_faults d \<Longrightarrow> opens d p \<Longrightarrow> \<exists>r. sst_open p 0 d = (Inr r, tick d)"
  by (auto simp: opens_def sst_open_def st_bind_def read_file_total st_lift_def)

lemma sst_open_refused: "no_faults d \<Longrightarrow> refused d p \<Longrightarrow> \<exists>err. sst_open p 0 d = (Inl (Fail err), tick d)"
  by (auto simp: refused_def sst_open_def st_bind_def read_file_total st_lift_def)

lemma remove_file_total:
  "no_faults d \<Longrightarrow> files d p \<noteq> None \<Longrightarrow> \<exists>d'. remove_file p d = (Inr (), d') \<and> files d' = (files d)(p := None) \<and> no_faults d'"
  by (auto simp: remove_file_def fault_now_def no_faults_def)

definition clear :: "path set \<Rightarrow> disk \<Rightarrow> path \<Rightarrow> bytes option" where
  "clear ps d = (\<lambda>q. if q \<in> ps then None else files d q)"

lemma clear_simps [simp]: "clear ps (tick d) = clear ps d" "clear {} d = files d"
  by (simp_all add: clear_def fun_eq_iff)

text \<open>One entry of the directory: a name that is no table, a table that opens, a table that is refused.\<close>

lemma sst_nameD: "sst_name name = Some i \<Longrightarrow> ends_with ''.sst'' name \<and> parse_u64 (trim_sst name) = Some i"
  by (auto simp: sst_name_def split: if_splits)

lemma repair_step_other: "sst_name name = None \<Longrightarrow> repair_files dir (name # names) mf rep w = repair_files dir names mf rep w"
  by (auto simp: sst_name_def split: if_splits)

lemma repair_step_good:
  assumes "no_faults (w_disk w)" "sst_name name = Some i" "opens (w_disk w) (path_join dir name)"
  shows "repair_files dir (name # names) mf rep w = repair_files dir names (add_sst 0 (sst_meta_new i 0 [] []) mf)
    (rep\<lparr>recovered_ssts := recovered_ssts rep + 1\<rparr>) (w\<lparr>w_disk := tick (w_disk w)\<rparr>)"
  using sst_open_opens [OF assms(1,3)] sst_nameD [OF assms(2)] by (auto simp: on_disk_def)

lemma repair_step_bad:
  assumes "no_faults (w_disk w)" "sst_name name = Some i" "refused (w_disk w) (path_join dir name)"
  shows "\<exists>d. repair_files dir (name # names) mf rep w =
      repair_files dir names mf (rep\<lparr>corrupted_files := corrupted_files rep + 1\<rparr>) (w\<lparr>w_disk := d\<rparr>) \<and>
    files d = (files (w_disk w))(path_join dir name := None) \<and> no_faults d"
proof -
  obtain err where r: "sst_open (path_join dir name) 0 (w_disk w) = (Inl (Fail err), tick (w_disk w))"
    using sst_open_refused [OF assms(1,3)] by blast
  obtain d where "remove_file (path_join dir name) (tick (w_disk w)) = (Inr (), d)"
    "files d = (files (w_disk w))(path_join dir name := None)" "no_faults d"
    using remove_file_total [of "tick (w_disk w)" "path_join dir name"] assms(1,3) by (auto simp: refused_def)
  then show ?thesis using r sst_nameD [OF assms(2)] by (auto simp: on_disk_def st_bind_def st_ignore_def)
qed

lemma kept_Cons:
  "kept d dir (name # names) = (if sst_name name \<noteq> None \<and> opens d (path_join dir name) then [name] else []) @ kept d dir names"
  "dropped d dir (name # names) = (if sst_name name \<noteq> None \<and> refused d (path_join dir name) then [name] else []) @ dropped d dir names"
  by (simp_all add: kept_def dropped_def)

lemma repair_files_spec:
  assumes "no_faults (w_disk w)" "distinct names"
    "\<forall>name \<in> set names. sst_name name \<noteq> None \<longrightarrow> opens (w_disk w) (path_join dir name) \<or> refused (w_disk w) (path_join dir name)"
  shows "\<exists>d. repair_files dir names mf rep w =
      (Inr (entered (kept (w_disk w) dir names) mf,
        rep\<lparr>recovered_ssts := recovered_ssts rep + length (kept (w_disk w) dir names),
            corrupted_files := corrupted_files rep + length (dropped (w_disk w) dir names)\<rparr>), w\<lparr>w_disk := d\<rparr>) \<and>
    no_faults d \<and> files d = clear (path_join dir ` set (dropped (w_disk w) dir names)) (w_disk w)"
  using assms
proof (induction names arbitrary: mf rep w)
  case Nil
  then show ?case by (intro exI [of _ "w_disk w"]) (simp add: st_return_def kept_def dropped_def clear_def)
next
  case (Cons name names)
  let ?p = "path_join dir name"
  show ?case
  proof (cases "sst_name name")
    case None
    then show ?thesis using Cons.IH [of w mf rep] Cons.prems by (simp add: repair_step_other kept_Cons del: repair_files.simps)
  next
    case (Some i)
    consider (good) "opens (w_disk w) ?p" "\<not> refused (w_disk w) ?p" | (bad) "refused (w_disk w) ?p" "\<not> opens (w_disk w) ?p"
      using Cons.prems(3) Some not_both [of "w_disk w" ?p] by auto
    then show ?thesis
    proof cases
      case good
      let ?w = "w\<lparr>w_disk := tick (w_disk w)\<rparr>"
      note step = repair_step_good [OF Cons.prems(1) Some good(1), of names mf rep]
      have same: "kept (w_disk ?w) dir names = kept (w_disk w) dir names" "dropped (w_disk ?w) dir names = dropped (w_disk w) dir names"
        by (rule kept_cong; simp)+
      have "\<forall>name \<in> set names. sst_name name \<noteq> None \<longrightarrow> opens (w_disk ?w) (path_join dir name) \<or> refused (w_disk ?w) (path_join dir name)"
        using Cons.prems(3) by (simp add: opens_def refused_def)
      from Cons.IH [OF _ _ this, of "add_sst 0 (sst_meta_new i 0 [] []) mf" "rep\<lparr>recovered_ssts := recovered_ssts rep + 1\<rparr>"]
      show ?thesis using Cons.prems(1,2) Some good unfolding step same by (auto simp: kept_Cons)
    next
      case bad
      obtain d1 where step: "repair_files dir (name # names) mf rep w =
          repair_files dir names mf (rep\<lparr>corrupted_files := corrupted_files rep + 1\<rparr>) (w\<lparr>w_disk := d1\<rparr>)"
        and d1: "files d1 = (files (w_disk w))(?p := None)" "no_faults d1"
        using repair_step_bad [OF Cons.prems(1) Some bad(1)] by blast
      have other: "\<forall>n \<in> set names. files d1 (path_join dir n) = files (w_disk w) (path_join dir n)"
        using Cons.prems(2) d1(1) by auto
      then have same: "kept d1 dir names = kept (w_disk w) dir names" "dropped d1 dir names = dropped (w_disk w) dir names"
        by (intro kept_cong; simp)+
      have "\<forall>name \<in> set names. sst_name name \<noteq> None \<longrightarrow> opens d1 (path_join dir name) \<or> refused d1 (path_join dir name)"
        using Cons.prems(3) other by (simp add: opens_def refused_def)
      moreover have "clear (path_join dir ` set (dropped (w_disk w) dir names)) d1 =
          clear (path_join dir ` set (name # dropped (w_disk w) dir names)) (w_disk w)"
        by (auto simp: clear_def d1(1))
      ultimately show ?thesis
        using Cons.IH [of "w\<lparr>w_disk := d1\<rparr>" mf "rep\<lparr>corrupted_files := corrupted_files rep + 1\<rparr>"] Cons.prems(2) d1(2) Some bad
        unfolding step by (auto simp: kept_Cons same)
    qed
  qed
qed

text \<open>The whole of \<open>repair\<close>.\<close>

definition repaired :: "disk \<Rightarrow> path \<Rightarrow> string list \<Rightarrow> manifest" where
  "repaired d dir names = entered (kept d dir names) manifest_new"

theorem eng_repair_spec:
  assumes nf: "no_faults (w_disk w)" and ex: "exists_dir (w_disk w) dir" and names: "w_readdir w (tick (w_disk w)) dir = names"
    "w_readdir w (w_disk w) dir = names" "distinct names"
    and tables: "\<forall>name \<in> set names. sst_name name \<noteq> None \<longrightarrow> opens (w_disk w) (path_join dir name) \<or> refused (w_disk w) (path_join dir name)"
  shows "\<exists>w'. eng_repair exists_dir dir w = (Inr \<lparr>corrupted_files = length (dropped (w_disk w) dir names),
      recovered_ssts = length (kept (w_disk w) dir names)\<rparr>, w') \<and>
    (\<forall>q. files (w_disk w') q =
      (if q = default_wal_path dir \<and> files (w_disk w) q \<noteq> None then Some []
       else if q = manifest_path dir then Some (manifest_encode (repaired (w_disk w) dir names))
       else clear (path_join dir ` set (dropped (w_disk w) dir names)) (w_disk w) q))"
proof -
  let ?w = "w\<lparr>w_disk := tick (w_disk w)\<rparr>" and ?gone = "path_join dir ` set (dropped (w_disk w) dir names)"
  let ?rep = "\<lparr>corrupted_files = length (dropped (w_disk w) dir names), recovered_ssts = length (kept (w_disk w) dir names)\<rparr>"
  have rd: "read_dir dir w = (Inr names, ?w)" using nf names(2) by (simp add: read_dir_def fault_now_def no_faults_def)
  have same: "kept (w_disk ?w) dir names = kept (w_disk w) dir names" "dropped (w_disk ?w) dir names = dropped (w_disk w) dir names"
    by (rule kept_cong; simp)+
  have "\<forall>name \<in> set names. sst_name name \<noteq> None \<longrightarrow> opens (w_disk ?w) (path_join dir name) \<or> refused (w_disk ?w) (path_join dir name)"
    using tables by (simp add: opens_def refused_def)
  then obtain d1 where r: "repair_files dir names manifest_new \<lparr>corrupted_files = 0, recovered_ssts = 0\<rparr> ?w =
      (Inr (repaired (w_disk w) dir names, ?rep), ?w\<lparr>w_disk := d1\<rparr>)" "no_faults d1" "files d1 = clear ?gone (w_disk ?w)"
    using repair_files_spec [of ?w names dir manifest_new "\<lparr>corrupted_files = 0, recovered_ssts = 0\<rparr>"] nf names(3)
    unfolding same repaired_def by auto
  obtain d2 where m: "manifest_save (manifest_path dir) (repaired (w_disk w) dir names) d1 = (Inr (), d2)"
    "only_file (manifest_path dir) d1 d2" "files d2 (manifest_path dir) = Some (manifest_encode (repaired (w_disk w) dir names))"
    using manifest_save_total [OF r(2)] by blast
  have nf2: "no_faults d2" using no_faults_only_file [OF r(2) m(2)] by simp
  let ?wal = "default_wal_path dir"
  have d2: "files d2 q = (if q = manifest_path dir then Some (manifest_encode (repaired (w_disk w) dir names)) else clear ?gone (w_disk w) q)" for q
    using only_fileD [OF m(2), of q] m(3) r(3) by (simp add: clear_def)
  have walname: "?wal \<notin> ?gone"
    by (auto simp: default_wal_path_def dropped_def sst_name_def ends_with_def split: if_splits)
  then have wal: "files d2 ?wal = files (w_disk w) ?wal" by (simp add: d2 clear_def)
  show ?thesis
  proof (cases "files (w_disk w) ?wal")
    case None
    then have "eng_repair exists_dir dir w = (Inr ?rep, w\<lparr>w_disk := d2\<rparr>)"
      using ex by (simp add: eng_repair_def st_bind_def st_gets_def rd r(1) on_disk_def m(1) exists_file_def wal st_return_def)
    then show ?thesis using None d2 by (intro exI [of _ "w\<lparr>w_disk := d2\<rparr>"]) simp
  next
    case (Some c)
    have cf: "create_file ?wal d2 = (Inr (), set_file ?wal (Some []) (tick d2))" by (rule create_file_total [OF nf2])
    let ?w' = "w\<lparr>w_disk := set_file ?wal (Some []) (tick d2)\<rparr>"
    have "eng_repair exists_dir dir w = (Inr ?rep, ?w')"
      using ex Some
      by (simp add: eng_repair_def st_bind_def st_gets_def rd r(1) on_disk_def m(1) exists_file_def wal st_return_def st_ignore_def cf)
    then show ?thesis using Some d2 by (intro exI [of _ ?w']) (auto simp: tick_def)
  qed
qed

text \<open>A directory with one table and one file that is too short for one.\<close>

definition broken_names :: "string list" where
  "broken_names = [pad6 (dec (unat (1 :: u64))) @ ''.sst'', pad6 (dec (unat (2 :: u64))) @ ''.sst'', ''000001.wal'']"

definition broken_world :: "path \<Rightarrow> world" where
  "broken_world dir = (new_world 7)\<lparr>w_disk := empty_disk\<lparr>files := [
     sst_path dir 1 \<mapsto> sst_bytes (snd (one_table 1 [1] [2])), sst_path dir 2 \<mapsto> [0, 0, 0],
     default_wal_path dir \<mapsto> [1, 2, 3]]\<rparr>, w_readdir := \<lambda>_ _. broken_names\<rparr>"

lemma sst_name_path: "sst_name (pad6 (dec (unat i)) @ ''.sst'') = Some i" "path_join dir (pad6 (dec (unat i)) @ ''.sst'') = sst_path dir i"
  using parse_sst_name [of i] by (simp_all add: sst_name_def ends_with_def sst_path_def)

lemma broken_found:
  "kept (w_disk (broken_world dir)) dir broken_names = [pad6 (dec (unat (1 :: u64))) @ ''.sst'']"
  "dropped (w_disk (broken_world dir)) dir broken_names = [pad6 (dec (unat (2 :: u64))) @ ''.sst'']"
  "\<forall>name \<in> set broken_names. sst_name name \<noteq> None \<longrightarrow>
     opens (w_disk (broken_world dir)) (path_join dir name) \<or> refused (w_disk (broken_world dir)) (path_join dir name)"
proof -
  let ?d = "w_disk (broken_world dir)"
  have "files ?d (sst_path dir 1) = Some (sst_bytes (snd (one_table 1 [1] [2])))" "files ?d (sst_path dir 2) = Some [0, 0, 0]"
    by (simp_all add: broken_world_def)
  moreover have "sst_good [([1], [2])] (snd (one_table 1 [1] [2]))" by (rule one_table_good) simp_all
  ultimately have f: "opens ?d (sst_path dir 1)" "refused ?d (sst_path dir 2)"
    using good_opens by (blast, simp add: refused_def sst_parse_def)
  then have n: "\<not> refused ?d (sst_path dir 1)" "\<not> opens ?d (sst_path dir 2)" using not_both by blast+
  note ids = sst_name_path [where i = "1 :: u64", simplified] sst_name_path [where i = "2 :: u64", simplified]
  have w: "sst_name ''000001.wal'' = None" by (simp add: sst_name_def ends_with_def)
  show "kept ?d dir broken_names = [pad6 (dec (unat (1 :: u64))) @ ''.sst'']"
    "dropped ?d dir broken_names = [pad6 (dec (unat (2 :: u64))) @ ''.sst'']"
    "\<forall>name \<in> set broken_names. sst_name name \<noteq> None \<longrightarrow> opens ?d (path_join dir name) \<or> refused ?d (path_join dir name)"
    using f n w by (simp_all add: kept_def dropped_def broken_names_def ids)
qed

end
