(* ===== verification/EngineCrash.thy ===== *)
theory EngineCrash
  imports EngineRepair
begin

text \<open>
  Crashes in the middle of an operation. A fault plan makes some system call of the operation fail, and the error ends
  the operation there; the process is then gone, and the directory is opened again on a healthy disk. The theorems
  say what is left of a \<open>put\<close>, its flush included, wherever it was cut.
\<close>

subsection \<open>The pieces under any fault plan\<close>

text \<open>A builder touches its own file only, whatever fails.\<close>

definition confined :: "(builder \<times> disk, 'a) prog \<Rightarrow> bool" where
  "confined m \<longleftrightarrow> (\<forall>s. bw_path (sb_file (fst (snd (m s)))) = bw_path (sb_file (fst s)) \<and>
     only_file (bw_path (sb_file (fst s))) (snd s) (snd (snd (m s))))"

lemma confinedD:
  assumes "confined m" "m s = (r, s')"
  shows "bw_path (sb_file (fst s')) = bw_path (sb_file (fst s))" "only_file (bw_path (sb_file (fst s))) (snd s) (snd s')"
  using assms(1) [unfolded confined_def, rule_format, of s] assms(2) by simp_all

lemma confined_bind:
  assumes "confined m" "\<And>x. confined (f x)"
  shows "confined (st_bind m f)"
  unfolding confined_def
proof
  fix s
  obtain r s1 where m: "m s = (r, s1)" by (cases "m s")
  note c = confinedD [OF assms(1) m]
  show "bw_path (sb_file (fst (snd (st_bind m f s)))) = bw_path (sb_file (fst s)) \<and>
      only_file (bw_path (sb_file (fst s))) (snd s) (snd (snd (st_bind m f s)))"
  proof (cases r)
    case (Inl e)
    then show ?thesis using c m by (simp add: st_bind_def)
  next
    case (Inr x)
    obtain r2 s2 where "f x s1 = (r2, s2)" by (cases "f x s1")
    then show ?thesis using confinedD [OF assms(2), of x s1 r2 s2] c m Inr by (auto simp: st_bind_def intro: only_file_trans)
  qed
qed

lemma confined_basic: "confined (st_return x)" "confined (st_lift r)" "confined (st_gets p)" "confined (sb_count n)"
  by (auto simp: confined_def st_simps sb_count_def split: sum.splits)

lemma confined_modify: "(\<And>b. sb_file (f b) = sb_file b) \<Longrightarrow> confined (sb_modify f)"
  by (simp add: confined_def sb_modify_def st_simps split: prod.splits)

lemma confined_write: "confined (sb_write bs)" "confined sb_sync"
  using bw_write_all_any bw_flush_buf_any(2,3)
  by (fastforce simp: confined_def sb_write_def sb_sync_def split: prod.splits)+

lemma confined_for: "(\<And>x. confined (body x)) \<Longrightarrow> confined (st_for xs body)"
  by (induction xs) (simp_all add: confined_basic confined_bind)

lemmas confined_intros = confined_bind confined_basic confined_modify confined_write confined_for

lemma confined_flush_block: "confined sb_flush_block"
  unfolding sb_flush_block_def Let_def by (intro confined_intros) simp_all

lemma confined_add: "confined (sb_add k v)"
  using confined_flush_block unfolding sb_add_def by (auto intro!: confined_intros)

lemma confined_finish: "confined sb_finish"
  using confined_flush_block
  unfolding sb_finish_def sb_write_index_def sb_write_index_entry_def Let_def by (auto intro!: confined_intros)

lemma sst_write_any:
  assumes "sst_write p bsize es d = (r, d')"
  shows "only_file p d d'"
proof (cases "fault_now d")
  case (Some n)
  then show ?thesis using assms by (auto simp: sst_write_def sb_new_def create_file_def st_bind_def only_file_def)
next
  case None
  let ?b0 = "\<lparr>sb_path = p, sb_file = \<lparr>bw_path = p, bw_buf = []\<rparr>, sb_block = block_new, sb_index = [], sb_keys = [],
      sb_block_size = bsize, sb_written = 0\<rparr> :: builder"
  let ?d0 = "set_file p (Some []) (tick d)" and ?m = "st_bind (st_for es (\<lambda>(k, v). sb_add k v)) (\<lambda>_. sb_finish)"
  have "confined ?m" by (intro confined_bind confined_for confined_finish) (simp add: confined_add split: prod.splits)
  moreover obtain r1 b1 d1 where run: "?m (?b0, ?d0) = (r1, (b1, d1))" by (metis surj_pair)
  ultimately have c: "bw_path (sb_file b1) = p" "only_file p ?d0 d1" using confinedD [of ?m "(?b0, ?d0)" r1 "(b1, d1)"] by simp_all
  have "sb_new p bsize d = (Inr ?b0, ?d0)" using None by (simp add: sb_new_def create_file_def st_bind_def st_return_def)
  then have "d' = bw_drop (sb_file b1) d1" using assms run by (simp add: sst_write_def st_bind_eq(1) [where m = "sb_new p bsize"])
  then have "only_file p ?d0 d'" using c bw_drop_content(2) only_file_trans by metis
  moreover have "only_file p d ?d0" by (simp add: only_file_def)
  ultimately show ?thesis by (rule only_file_trans [rotated])
qed

text \<open>Saving the manifest leaves the old file, or a prefix of the new bytes, and the whole of them when it succeeds.\<close>

lemma manifest_save_any:
  assumes "manifest_save p mf d = (r, d')"
  shows "only_file p d d'" "files d' p = files d p \<or> (\<exists>n. files d' p = Some (take n (manifest_encode mf)))"
    "r = Inr () \<Longrightarrow> files d' p = Some (manifest_encode mf)"
proof -
  have all: "\<exists>n. manifest_encode mf = take n (manifest_encode mf)"
    by (rule exI [of _ "length (manifest_encode mf)"]) simp
  show "only_file p d d'" "r = Inr () \<Longrightarrow> files d' p = Some (manifest_encode mf)"
    using assms by (auto simp: manifest_save_def create_file_def write_file_def sync_file_def st_bind_def only_file_def Let_def
        split: option.splits)
  show "files d' p = files d p \<or> (\<exists>n. files d' p = Some (take n (manifest_encode mf)))"
    using assms all
    by (auto simp: manifest_save_def create_file_def write_file_def sync_file_def st_bind_def Let_def split: option.splits)
qed

lemma reset_wal_any:
  assumes "reset_wal (e, w) = (r, (e', w'))" "bw_buf (e_wal e) = []"
  shows "\<exists>d. w' = w\<lparr>w_disk := d\<rparr> \<and> only_file (default_wal_path (e_path e)) (w_disk w) d \<and>
    files d (default_wal_path (e_path e)) \<in> {files (w_disk w) (default_wal_path (e_path e)), Some []} \<and>
    (r = Inr () \<longrightarrow> files d (default_wal_path (e_path e)) = Some [] \<and>
       e' = e\<lparr>e_wal := \<lparr>bw_path = default_wal_path (e_path e), bw_buf = []\<rparr>\<rparr>)"
  using assms
  by (auto simp: reset_wal_def e_gets_def in_disk_def on_world_def on_disk_def create_file_def wal_open_def open_append_def
      st_bind_def st_return_def st_simps bw_drop_def bw_flush_buf_def only_file_def split: option.splits)

lemma sst_open_written:
  "sst_open p i d = (Inr r, d') \<Longrightarrow> files d p = Some (sst_bytes bs) \<Longrightarrow> sst_good es bs \<Longrightarrow> r = opened bs i"
  by (auto simp: sst_open_def read_file_def st_bind_def st_lift_def sst_parse_written split: option.splits)

subsection \<open>A flush under any fault plan\<close>

text \<open>Where a flush of the entries \<open>es\<close> can stand: only the file of the new table has been touched; or the table is
  complete and the manifest is being rewritten; or the manifest names the table and the log is old or empty.\<close>

definition flush_cut :: "engine \<Rightarrow> entry list \<Rightarrow> disk \<Rightarrow> bool \<Rightarrow> disk \<Rightarrow> bool" where
  "flush_cut e es d done d' \<longleftrightarrow>
     (let new = sst_path (e_path e) (e_next_sst e); mf = manifest_path (e_path e); wal = default_wal_path (e_path e);
          bytes = manifest_encode (add_sst 0 (flushed_meta e es) (e_manifest e)) in
      \<not> done \<and> (\<forall>q. q \<noteq> new \<longrightarrow> files d' q = files d q) \<or>
      (\<exists>bs. sst_good es bs \<and> files d' new = Some (sst_bytes bs) \<and> (\<forall>q. q \<notin> {new, mf, wal} \<longrightarrow> files d' q = files d q) \<and>
         (\<not> done \<and> (\<exists>n. files d' mf = Some (take n bytes)) \<and> files d' wal = files d wal \<or>
          files d' mf = Some bytes \<and> files d' wal \<in> {files d wal, Some []} \<and> (done \<longrightarrow> files d' wal = Some []))))"

lemma maybe_flush_start:
  assumes inv: "mt_inv (e_mem e)" and imm: "immutable (e_mem e) = Some l" and ids: "unat (e_next_sst e) + 1 < 2 ^ 64"
  shows "maybe_flush (e, w) = st_bind (write_table (e_next_sst e) (sl_contents l)) (\<lambda>r.
      st_bind (e_modify (\<lambda>e'. e'\<lparr>e_manifest := add_sst 0 (flushed_meta e (sl_contents l)) (e_manifest e'),
        e_readers := e_readers e' @ [(flushed_meta e (sl_contents l), r)]\<rparr>)) (\<lambda>_.
      st_bind save_manifest (\<lambda>_. st_bind reset_wal (\<lambda>_.
      st_bind (count_metric (\<lambda>m. m\<lparr>m_flushes := m_flushes m + 1\<rparr>)) (\<lambda>_. maybe_compact)))))
    (e\<lparr>e_mem := (e_mem e)\<lparr>immutable := None\<rparr>, e_next_sst := e_next_sst e + 1\<rparr>, w)"
proof -
  let ?mem = "(e_mem e)\<lparr>immutable := None\<rparr>" and ?i = "e_next_sst e"
  have take: "mt_take_immutable (e_mem e) = (Some l, ?mem)" using imm by (simp add: mt_take_immutable_def)
  note mt = mt_take_immutable_spec [OF inv take]
  have id: "next_sst_id (e\<lparr>e_mem := ?mem\<rparr>, w) = (Inr ?i, (e\<lparr>e_mem := ?mem, e_next_sst := ?i + 1\<rparr>, w))"
    using next_sst_id_total [of "e\<lparr>e_mem := ?mem\<rparr>" w] ids by simp
  show ?thesis
    using take mt(3,4)
    by (simp add: maybe_flush_def st_bind_eq(1) [where m = next_sst_id, OF id] Let_def flushed_meta_def)
qed

lemma write_table_any:
  assumes "write_table i es (e, w) = (r, (e', w'))" "sorted_keys es" "sst_fits es"
  shows "e' = e \<and> (\<exists>d. w' = w\<lparr>w_disk := d\<rparr> \<and> only_file (sst_path (e_path e) i) (w_disk w) d \<and>
    (case r of Inl err \<Rightarrow> True
     | Inr x \<Rightarrow> \<exists>bs. x = opened bs i \<and> sst_good es bs \<and> files d (sst_path (e_path e) i) = Some (sst_bytes bs)))"
proof -
  let ?p = "sst_path (e_path e) i"
  obtain r1 d1 where w1: "sst_write ?p (o_block_size (e_opts e)) es (w_disk w) = (r1, d1)" by (metis surj_pair)
  have of1: "only_file ?p (w_disk w) d1" by (rule sst_write_any [OF w1])
  show ?thesis
  proof (cases r1)
    case (Inl err)
    then show ?thesis using assms(1) w1 of1
      by (auto simp: write_table_def e_gets_def in_disk_def on_world_def on_disk_def st_bind_def st_simps)
  next
    case (Inr u)
    obtain r2 d2 where w2: "sst_open ?p i d1 = (r2, d2)" by (metis surj_pair)
    note op = sst_open_any [OF w2]
    obtain bs where bs: "sst_layout (o_block_size (e_opts e)) es bs" "files d1 ?p = Some (sst_bytes bs)" "durable d1 = durable (w_disk w)"
      using sst_write_ok [of ?p "o_block_size (e_opts e)" es "w_disk w" d1] w1 Inr assms(3) by auto
    have good: "sst_good es bs" using bs(1) assms(2,3) by (auto simp: sst_good_def)
    have "durable d2 = durable d1" using w2 by (auto simp: sst_open_def read_file_def st_bind_def st_lift_def split: option.splits)
    then have "only_file ?p (w_disk w) d2" using of1 op by (simp add: only_file_def)
    moreover have "e' = e" "w' = w\<lparr>w_disk := d2\<rparr>" "r = r2"
      using assms(1) w1 w2 Inr
      by (auto simp: write_table_def e_gets_def in_disk_def on_world_def on_disk_def st_bind_def st_simps split: sum.splits)
    moreover have "\<exists>bs. x = opened bs i \<and> sst_good es bs \<and> files d2 ?p = Some (sst_bytes bs)" if "r2 = Inr x" for x
      using sst_open_written [of ?p i d1 x d2 bs es] w2 bs(2) good op that by auto
    ultimately show ?thesis by (intro conjI exI [of _ d2]) (auto split: sum.splits)
  qed
qed

text \<open>The table is written; what is left of the flush saves the manifest and truncates the log.\<close>

lemma flush_tail_any:
  assumes run: "st_bind save_manifest (\<lambda>_. st_bind reset_wal (\<lambda>_. st_bind (count_metric f) (\<lambda>_. maybe_compact)))
      (e2, w\<lparr>w_disk := d1\<rparr>) = (r, (e', w'))"
    and e2: "e_path e2 = e_path e" "e_opts e2 = e_opts e" "bw_buf (e_wal e2) = []"
      "e_manifest e2 = add_sst 0 (flushed_meta e es) (e_manifest e)"
    and quiet: "quiet (e_opts e) (add_sst 0 (flushed_meta e es) (e_manifest e))"
    and table: "only_file (sst_path (e_path e) (e_next_sst e)) (w_disk w) d1" "sst_good es bs"
      "files d1 (sst_path (e_path e) (e_next_sst e)) = Some (sst_bytes bs)"
  shows "\<exists>d. w' = w\<lparr>w_disk := d\<rparr> \<and> flush_cut e es (w_disk w) (r = Inr ()) d"
proof -
  let ?dir = "e_path e" and ?sst = "sst_path (e_path e) (e_next_sst e)" and ?mf = "add_sst 0 (flushed_meta e es) (e_manifest e)"
  let ?log = "default_wal_path (e_path e)"
  obtain r2 d2 where m: "manifest_save (manifest_path ?dir) ?mf d1 = (r2, d2)" by (metis surj_pair)
  note ms = manifest_save_any [OF m]
  have save: "save_manifest (e2, w\<lparr>w_disk := d1\<rparr>) = (r2, (e2, w\<lparr>w_disk := d2\<rparr>))"
    using m by (simp add: save_manifest_def in_disk_def on_world_def on_disk_def e2)
  have same: "files d2 q = files (w_disk w) q" if "q \<notin> {?sst, manifest_path ?dir}" for q
    using that only_fileD [OF ms(1)] only_fileD [OF table(1)] by simp
  have new: "files d2 ?sst = Some (sst_bytes bs)" using only_fileD [OF ms(1)] table(3) by simp
  show ?thesis
  proof (cases r2)
    case (Inl err)
    then have r: "r \<noteq> Inr ()" "w' = w\<lparr>w_disk := d2\<rparr>" using run save by (auto simp: st_bind_def)
    have "files d2 (manifest_path ?dir) = files (w_disk w) (manifest_path ?dir) \<or>
        (\<exists>n. files d2 (manifest_path ?dir) = Some (take n (manifest_encode ?mf)))"
      using ms(2) only_fileD [OF table(1), of "manifest_path ?dir"] by simp
    then have "flush_cut e es (w_disk w) False d2"
    proof
      assume "files d2 (manifest_path ?dir) = files (w_disk w) (manifest_path ?dir)"
      then have "files d2 q = files (w_disk w) q" if "q \<noteq> ?sst" for q
        using same that by (cases "q = manifest_path ?dir") simp_all
      then show ?thesis by (simp add: flush_cut_def Let_def)
    next
      assume "\<exists>n. files d2 (manifest_path ?dir) = Some (take n (manifest_encode ?mf))"
      then show ?thesis using table(2) new same by (auto simp: flush_cut_def Let_def)
    qed
    then show ?thesis using r by auto
  next
    case (Inr u)
    obtain r3 e3 w3 where z: "reset_wal (e2, w\<lparr>w_disk := d2\<rparr>) = (r3, (e3, w3))" by (metis surj_pair)
    obtain d3 where d3: "w3 = w\<lparr>w_disk := d3\<rparr>" "only_file ?log d2 d3" "files d3 ?log \<in> {files d2 ?log, Some []}"
      "r3 = Inr () \<longrightarrow> files d3 ?log = Some [] \<and> e3 = e2\<lparr>e_wal := \<lparr>bw_path = ?log, bw_buf = []\<rparr>\<rparr>"
      using reset_wal_any [OF z] e2(1,3) by auto
    have "w' = w\<lparr>w_disk := d3\<rparr> \<and> (r = Inr () \<longrightarrow> r3 = Inr ())"
    proof (cases r3)
      case (Inl err)
      then show ?thesis using run save z d3(1) \<open>r2 = Inr u\<close> by (auto simp: st_bind_def)
    next
      case (Inr v)
      have "quiet (e_opts e3) (e_manifest e3)" using d3(4) Inr quiet e2(2,4) by simp
      then show ?thesis using run save z d3(1) \<open>r2 = Inr u\<close> Inr
        by (simp add: st_bind_def [of save_manifest] st_bind_def [of reset_wal] count_metric_def e_modify_def maybe_compact_quiet)
    qed
    moreover have "files d3 q = files d2 q" if "q \<noteq> ?log" for q using that by (rule only_fileD [OF d3(2)])
    ultimately show ?thesis using d3(3,4) ms(3) Inr new same table(2)
      by (intro exI [of _ d3]) (auto simp: flush_cut_def Let_def)
  qed
qed

lemma flush_any:
  assumes inv: "mt_inv (e_mem e)" and imm: "immutable (e_mem e) = Some l" and buf: "bw_buf (e_wal e) = []"
    and ids: "unat (e_next_sst e) + 1 < 2 ^ 64" and fits: "sst_fits (sl_contents l)"
    and quiet: "quiet (e_opts e) (add_sst 0 (flushed_meta e (sl_contents l)) (e_manifest e))"
    and run: "maybe_flush (e, w) = (r, (e', w'))"
  shows "\<exists>d. w' = w\<lparr>w_disk := d\<rparr> \<and> flush_cut e (sl_contents l) (w_disk w) (r = Inr ()) d"
proof -
  let ?es = "sl_contents l" and ?i = "e_next_sst e" and ?dir = "e_path e" and ?meta = "flushed_meta e (sl_contents l)"
  let ?e1 = "e\<lparr>e_mem := (e_mem e)\<lparr>immutable := None\<rparr>, e_next_sst := ?i + 1\<rparr>"
  have sorted: "sorted_keys ?es"
    using mt_take_immutable_spec(5) [OF inv, of l] imm by (simp add: mt_take_immutable_def)
  obtain r1 e1 w1 where t: "write_table ?i ?es (?e1, w) = (r1, (e1, w1))" by (metis surj_pair)
  obtain d1 where d1: "e1 = ?e1" "w1 = w\<lparr>w_disk := d1\<rparr>" "only_file (sst_path ?dir ?i) (w_disk w) d1"
    "case r1 of Inl err \<Rightarrow> True
     | Inr x \<Rightarrow> \<exists>bs. x = opened bs ?i \<and> sst_good ?es bs \<and> files d1 (sst_path ?dir ?i) = Some (sst_bytes bs)"
    using write_table_any [OF t sorted fits] by (auto simp del: split_paired_Ex) (simp split: sum.splits)
  note start = run [unfolded maybe_flush_start [OF inv imm ids]]
  show ?thesis
  proof (cases r1)
    case (Inl err)
    then have "r \<noteq> Inr ()" "w' = w\<lparr>w_disk := d1\<rparr>" using start t d1(1,2) by (auto simp: st_bind_def)
    then show ?thesis using only_fileD [OF d1(3)] by (auto simp: flush_cut_def)
  next
    case (Inr x)
    then obtain bs where bs: "x = opened bs ?i" "sst_good ?es bs" "files d1 (sst_path ?dir ?i) = Some (sst_bytes bs)"
      using d1(4) by auto
    let ?e2 = "?e1\<lparr>e_manifest := add_sst 0 ?meta (e_manifest e), e_readers := e_readers e @ [(?meta, x)]\<rparr>"
    have "st_bind save_manifest (\<lambda>_. st_bind reset_wal (\<lambda>_. st_bind (count_metric (\<lambda>m. m\<lparr>m_flushes := m_flushes m + 1\<rparr>))
        (\<lambda>_. maybe_compact))) (?e2, w\<lparr>w_disk := d1\<rparr>) = (r, (e', w'))"
      using start t d1(1,2) Inr by (simp add: st_bind_def [of "write_table _ _"] e_modify_def)
    then show ?thesis by (rule flush_tail_any) (use buf quiet d1(3) bs(2,3) in simp_all)
  qed
qed

subsection \<open>Opening what is left\<close>

text \<open>The machine comes back with a disk that works.\<close>

definition restart :: "world \<Rightarrow> world" where
  "restart w = w\<lparr>w_disk := (w_disk w)\<lparr>faults := \<lambda>_. None\<rparr>\<rparr>"

lemma restart_simps [simp]:
  "no_faults (w_disk (restart w))" "files (w_disk (restart w)) = files (w_disk w)" "w_clock (restart w) = w_clock w"
  "w_readdir (restart w) = w_readdir w" "file_bytes (w_disk (restart w)) = file_bytes (w_disk w)"
  by (simp_all add: restart_def no_faults_def file_bytes_def fun_eq_iff)

text \<open>The invariant does not look at the log or at a table file that no table owns.\<close>

lemma sys_ok_disk:
  assumes sys: "sys_ok tbl ts e w" and nf: "no_faults (w_disk w')"
    and same: "\<forall>q. q \<noteq> default_wal_path (e_path e) \<longrightarrow> q \<noteq> sst_path (e_path e) (e_next_sst e) \<longrightarrow>
      files (w_disk w') q = files (w_disk w) q"
  shows "sys_ok tbl ts e w'"
proof -
  note s = sys_okD [OF sys] and o = eng_okD [OF sys_okD(1) [OF sys]]
  have new: "e_next_sst e \<notin> tid ` set ts" using tables_known [OF o(3)] o(5) [of "e_next_sst e"] by blast
  have "files (w_disk w') (sst_path (e_path e) (tid t)) = Some (sst_bytes (snd t))" if "t \<in> set ts" for t
  proof -
    have "tid t \<noteq> e_next_sst e" using new that by (metis imageI)
    then show ?thesis using same s(6) that by (simp add: files_ok_def)
  qed
  then have "files_ok ts e (w_disk w')" using same s(6) by (simp add: files_ok_def)
  moreover have "neat ts e (w_disk w')"
  proof -
    have "files (w_disk w') q = files (w_disk w) q" if "q \<notin> engine_files (e_path e)" for q
      using same that by (auto simp: engine_files_def)
    then have "dom (files (w_disk w')) \<subseteq> dom (files (w_disk w)) \<union> engine_files (e_path e)" by fastforce
    then show ?thesis using s(7) tidy_extend [of "e_path e" "w_disk w"] by (simp add: neat_def)
  qed
  ultimately show ?thesis using s nf by (simp add: sys_ok_def)
qed

text \<open>What an engine opened on the directory after the crash reads.\<close>

definition recovers :: "checksum \<Rightarrow> path \<Rightarrow> options \<Rightarrow> world \<Rightarrow> (bytes \<Rightarrow> bytes option) \<Rightarrow> bool" where
  "recovers crc dir opts w v \<longleftrightarrow> (\<exists>e' w'. eng_open crc dir opts w = (Inr e', w') \<and> (\<forall>k. fst (eng_get k (e', w')) = Inr (v k)))"

definition open_refused :: "checksum \<Rightarrow> path \<Rightarrow> options \<Rightarrow> world \<Rightarrow> bool" where
  "open_refused crc dir opts w \<longleftrightarrow> (\<exists>msg w'. eng_open crc dir opts w = (Inl (Fail (Corruption msg)), w'))"

definition read_map :: "u64 \<Rightarrow> (bytes \<Rightarrow> bytes option) \<Rightarrow> bytes \<Rightarrow> bytes option" where
  "read_map now m = (\<lambda>k. Option.bind (m k) (unpack_value now))"

lemma view_read_map: "view now ts e = read_map now (table_lookup ts ++ mt_lookup (e_mem e))"
  by (simp add: view_def [abs_def] read_map_def stored_def)

lemma read_map_upd: "read_map now (m(k \<mapsto> v)) = (read_map now m)(k := unpack_value now v)"
  by (simp add: read_map_def fun_eq_iff)

lemma reads_after_open:
  assumes sys: "sys_ok tbl ts e w" and log: "log_file crc rs (w_disk w) (default_wal_path (e_path e))" and al: "alike (replayed rs) m"
    and one: "one_level (e_manifest e)" and small: "tables_weight ts < 2 ^ 32" and env: "sound_listing (w_readdir w)" "\<forall>n. w_clock w n = now"
  shows "recovers crc (e_path e) opts w (read_map now (table_lookup ts ++ m))"
proof -
  have us: "reordered ts e = ts"
    using reordered_self [OF distinct_metas [OF eng_okD(6) [OF sys_okD(1) [OF sys]]]] tree_okD(1) [OF sys_okD(2) [OF sys]] one
    by (simp add: in_order_def one_level_def)
  obtain e' w' where r: "eng_open crc (e_path e) opts w = (Inr e', w')" "eng_ok (table_map ts) (reloaded ts) e'"
    "stored (reloaded ts) e' = table_lookup ts ++ replayed rs" "same_env w w'"
    using sys_reopen [OF sys log small env(1), of opts] unfolding us by blast
  have "fst (eng_get k (e', w')) = Inr (Option.bind ((table_lookup ts ++ m) k) (unpack_value now))" for k
    using r(4) env(2) by (simp add: eng_get_view [OF r(2)] view_def r(3) same_env_def alike_over [OF al])
  then show ?thesis using r(1) unfolding recovers_def read_map_def by blast
qed

lemma open_torn:
  assumes "no_faults (w_disk w)" "files (w_disk w) (manifest_path dir) = Some (take n (manifest_encode mf))"
    "manifest_fits mf" "n < length (manifest_encode mf)"
  shows "open_refused crc dir opts w"
proof -
  obtain msg where "manifest_decode (take n (manifest_encode mf)) = Inl (Fail (Corruption msg))"
    using torn_manifest [OF assms(3,4)] by blast
  then have "fst (manifest_load (manifest_path dir) (tick (w_disk w))) = Inl (Fail (Corruption msg))"
    using assms(1,2) by (simp add: manifest_load_def exists_file_def st_bind_def st_lift_def read_file_def fault_now_def no_faults_def)
  then show ?thesis using make_dirs_total [OF assms(1), of dir]
    by (auto simp: open_refused_def eng_open_def st_bind_def on_disk_def split: prod.splits)
qed

text \<open>Tables in level 0 only: then a flush keeps all of them in one level.\<close>

definition flat :: "manifest \<Rightarrow> bool" where
  "flat mf \<longleftrightarrow> concat (tl (levels mf)) = []"

lemma flat_one_level:
  assumes "flat mf"
  shows "one_level mf"
proof (cases "levels mf")
  case (Cons l ls)
  then have "\<forall>x \<in> set ls. x = []" using assms by (auto simp: flat_def)
  then have "concat ls = []" "concat (rev ls) = []" by simp_all
  then show ?thesis using Cons by (simp only: one_level_def concat.simps rev.simps concat_append append_Nil append_Nil2)
qed (simp add: one_level_def)

lemma flat_add: "flat mf \<Longrightarrow> flat (add_sst 0 meta mf)"
  by (cases "levels mf") (auto simp: flat_def add_sst_def Let_def)

text \<open>A crash before the log is truncated: the log decides.\<close>

lemma recover_log:
  assumes sys: "sys_ok tbl ts e w" and nf: "no_faults (w_disk w')" and env: "sound_listing (w_readdir w')" "\<forall>n. w_clock w' n = now"
    and same: "\<forall>q. q \<noteq> default_wal_path (e_path e) \<longrightarrow> q \<noteq> sst_path (e_path e) (e_next_sst e) \<longrightarrow>
      files (w_disk w') q = files (w_disk w) q"
    and log: "log_file crc rs (w_disk w') (default_wal_path (e_path e))" and al: "alike (replayed rs) m"
    and flat: "flat (e_manifest e)" and small: "tables_weight ts < 2 ^ 32"
  shows "recovers crc (e_path e) opts w' (read_map now (table_lookup ts ++ m))"
  using reads_after_open [OF sys_ok_disk [OF sys nf same] log al flat_one_level [OF flat] small env, of opts] .

text \<open>The manifest file was cut while a manifest with one more table in level 0 was written over it.\<close>

definition manifest_cut :: "path \<Rightarrow> manifest \<Rightarrow> disk \<Rightarrow> bool" where
  "manifest_cut dir mf d \<longleftrightarrow> (\<exists>meta n. n < length (manifest_encode (add_sst 0 meta mf)) \<and>
     files d (manifest_path dir) = Some (take n (manifest_encode (add_sst 0 meta mf))))"

text \<open>A crash during the flush of the memtable.\<close>

lemma recover_flush:
  assumes sys: "sys_ok tbl ts e w" and imm: "immutable (e_mem e) = Some l" and act: "sl_contents (active (e_mem e)) = []"
    and log: "\<forall>r \<in> set rs. record_fits r" "files (w_disk w) (default_wal_path (e_path e)) = Some (log_bytes crc rs)"
      "alike (replayed rs) (mt_lookup (e_mem e))"
    and cut: "flush_cut e (sl_contents l) (w_disk w) done (w_disk w')"
    and nf: "no_faults (w_disk w')" and env: "sound_listing (w_readdir w')" "\<forall>n. w_clock w' n = now"
    and flat: "flat (e_manifest e)" and small: "tables_weight ts + weight (sl_contents l) < 2 ^ 32" and id1: "unat (e_next_sst e) + 1 < 2 ^ 64"
  shows "\<not> done \<and> manifest_cut (e_path e) (e_manifest e) (w_disk w') \<and> open_refused crc (e_path e) opts w' \<or>
    recovers crc (e_path e) opts w' (view now ts e)"
proof -
  note s = sys_okD [OF sys]
  let ?es = "sl_contents l" and ?new = "sst_path (e_path e) (e_next_sst e)" and ?mf = "manifest_path (e_path e)"
  let ?wal = "default_wal_path (e_path e)" and ?bytes = "manifest_encode (add_sst 0 (flushed_meta e (sl_contents l)) (e_manifest e))"
  have lookup: "mt_lookup (e_mem e) = map_of ?es" using imm act by (simp add: mt_lookup_def imm_contents_def)
  have ne: "?es \<noteq> []" using eng_okD(1) [OF s(1)] imm by (simp add: mt_inv_def)
  from cut consider (before) "\<forall>q. q \<noteq> ?new \<longrightarrow> files (w_disk w') q = files (w_disk w) q"
    | (table) bs where "sst_good ?es bs" "files (w_disk w') ?new = Some (sst_bytes bs)"
        "\<forall>q. q \<notin> {?new, ?mf, ?wal} \<longrightarrow> files (w_disk w') q = files (w_disk w) q"
        "\<not> done \<and> (\<exists>n. files (w_disk w') ?mf = Some (take n ?bytes)) \<and> files (w_disk w') ?wal = files (w_disk w) ?wal \<or>
         files (w_disk w') ?mf = Some ?bytes \<and> files (w_disk w') ?wal \<in> {files (w_disk w) ?wal, Some []}"
    unfolding flush_cut_def Let_def by blast
  then show ?thesis
  proof cases
    case before
    have "files (w_disk w') ?wal = files (w_disk w) ?wal" using before by simp
    then have "log_file crc rs (w_disk w') ?wal" using log(1,2) by (simp add: log_file_exact)
    moreover have "tables_weight ts < 2 ^ 32" using small by simp
    ultimately show ?thesis using recover_log [OF sys nf env _ _ log(3) flat, of crc opts] before by (simp add: view_read_map)
  next
    case (table bs)
    let ?e = "flushed e ?es bs" and ?ts = "ts @ [(flushed_meta e ?es, bs)]" and ?tbl = "tbl(e_next_sst e \<mapsto> bs)"
    have path: "e_path ?e = e_path e" "e_manifest ?e = add_sst 0 (flushed_meta e ?es) (e_manifest e)" by (simp_all add: flushed_def)
    have "files (w_disk w') q = files (w_disk w) q" if "q \<notin> engine_files (e_path e)" for q
      using table(3) that by (auto simp: engine_files_def)
    then have dom: "dom (files (w_disk w')) \<subseteq> dom (files (w_disk w)) \<union> engine_files (e_path e)" by fastforce
    note neat = neat_flushed [OF s(7) table(1) ne dom] and tree = flushed_tree [OF s(2) table(1) ne]
    note ok = flushed_ok(1) [OF s(1) imm table(1) id1]
    have weight: "tables_weight ?ts < 2 ^ 32" using small by (simp add: tentries_good [OF table(1)])
    have fits: "manifest_fits (add_sst 0 (flushed_meta e ?es) (e_manifest e))"
      using neat_fits [OF neat tree_okD(1) [OF tree] eng_okD(3) [OF ok] weight] by (simp only: path(2))
    show ?thesis
    proof (cases "files (w_disk w') ?mf = Some ?bytes")
      case False
      then obtain n where n: "\<not> done" "files (w_disk w') ?mf = Some (take n ?bytes)" using table(4) by blast
      then have short: "n < length ?bytes" using False by (metis not_le take_all)
      then have "manifest_cut (e_path e) (e_manifest e) (w_disk w')" using n(2) unfolding manifest_cut_def by blast
      then show ?thesis using open_torn [OF nf n(2) fits short, of crc opts] n(1) by blast
    next
      case True
      have wal: "files (w_disk w') ?wal = files (w_disk w) ?wal \<or> files (w_disk w') ?wal = Some []" using table(4) True by blast
      have fl: "\<forall>q. q \<noteq> ?wal \<and> q \<noteq> bw_path (e_wal e) \<longrightarrow>
          files (w_disk w') q = ((files (w_disk w))(?new \<mapsto> sst_bytes bs, ?mf \<mapsto> manifest_encode (e_manifest ?e))) q"
        using table(2,3) True by (auto simp: path(2))
      have sys': "sys_ok ?tbl ?ts ?e w'"
        using ok tree nf flushed_files [OF sys fl] neat
        by (simp add: sys_ok_def) (simp add: flushed_def)
      obtain rs' where rs': "log_file crc rs' (w_disk w') ?wal" "rs' = rs \<or> rs' = []"
        using wal log(1,2) log_file_exact log_file_empty by metis
      have merge: "(table_lookup ts ++ map_of ?es) ++ map_of ?es = table_lookup ts ++ map_of ?es" by (simp add: map_add_def fun_eq_iff split: option.splits)
      have "\<exists>m. alike (replayed rs') m \<and> table_lookup ?ts ++ m = stored ts e"
        using rs'(2) log(3) merge alike_refl [of "replayed []"]
        by (auto simp: stored_def lookup tentries_good [OF table(1)] intro: exI [of _ "map_of ?es"] exI [of _ Map.empty])
      then obtain m where m: "alike (replayed rs') m" "table_lookup ?ts ++ m = stored ts e" by blast
      have "flat (e_manifest ?e)" using flat_add [OF flat] by (simp only: path(2))
      from reads_after_open [OF sys' _ m(1) flat_one_level [OF this] weight env, of crc opts] rs'(1) show ?thesis
        unfolding path(1) m(2) by (simp add: view_read_map stored_def)
    qed
  qed
qed

subsection \<open>A write under any fault plan\<close>

definition faulty :: "(nat \<Rightarrow> nat option) \<Rightarrow> world \<Rightarrow> world" where
  "faulty plan w = w\<lparr>w_disk := (w_disk w)\<lparr>faults := plan\<rparr>\<rparr>"

lemma only_file_faulty:
  assumes "only_file p (w_disk (faulty plan w)) d" "no_faults (w_disk w)"
  shows "only_file p (w_disk w) (d\<lparr>faults := \<lambda>_. None\<rparr>)"
  using assms by (auto simp: only_file_def faulty_def no_faults_def)

lemma commit_bind:
  assumes "o_sync_wal (e_opts e)"
  shows "st_bind (on_wal (wal_append_record crc r)) (\<lambda>_. st_bind (e_gets (\<lambda>e. o_sync_wal (e_opts e)))
      (\<lambda>sync. st_bind (if sync then on_wal wal_flush else st_return ()) rest)) (e, w) = st_bind (on_wal (wal_commit crc r)) rest (e, w)"
  using assms by (simp add: st_bind_def on_wal_def wal_commit_def e_gets_def st_simps split: prod.splits sum.splits)

lemma manifest_cut_restart [simp]: "manifest_cut dir mf (w_disk (restart w)) = manifest_cut dir mf (w_disk w)"
  by (simp add: manifest_cut_def)

text \<open>Either the append or the sync fails and that ends the write, or the record is in the log, the entry in the memtable
  and the flush decides.\<close>

lemma write_cases:
  assumes run: "log_and_apply (wal_append_record crc r) key enc metric (e, w) = (res, (e1, w1))"
    and sync: "o_sync_wal (e_opts e)" and inv: "mt_inv (e_mem e)" "immutable (e_mem e) = None"
  obtains (lost) err b d where "wal_commit crc r (e_wal e, w_disk w) = (Inl err, (b, d))" "res = Inl err" "w1 = w\<lparr>w_disk := d\<rparr>"
  | (kept) b d m where "wal_commit crc r (e_wal e, w_disk w) = (Inr (), (b, d))"
      "maybe_flush (e\<lparr>e_wal := b, e_mem := m, e_metrics := metric (e_metrics e)\<rparr>, w\<lparr>w_disk := d, w_rng := xorshift (w_rng w)\<rparr>) = (res, (e1, w1))"
      "mt_put key enc (e_mem e, w_rng w) = Inr (m, xorshift (w_rng w))"
      "mt_inv m" "mt_lookup m = (mt_lookup (e_mem e))(key \<mapsto> enc)"
      "case immutable m of None \<Rightarrow> True
       | Some l \<Rightarrow> sl_contents (active m) = [] \<and> sl_contents l = bt_insert key enc (sl_contents (active (e_mem e)))"
proof -
  obtain rc b d where c: "wal_commit crc r (e_wal e, w_disk w) = (rc, (b, d))" by (metis surj_pair)
  note run' = run [unfolded log_and_apply_def commit_bind [OF sync]]
  show ?thesis
  proof (cases rc)
    case (Inl err)
    then show ?thesis using lost c run' by (auto simp: st_bind_def on_wal_def)
  next
    case (Inr u)
    obtain m where m: "mt_put key enc (e_mem e, w_rng w) = Inr (m, xorshift (w_rng w))" "mt_inv m"
      "mt_lookup m = (mt_lookup (e_mem e))(key \<mapsto> enc)"
      "case immutable m of None \<Rightarrow> sl_contents (active m) = bt_insert key enc (sl_contents (active (e_mem e)))
       | Some l \<Rightarrow> sl_contents (active m) = [] \<and> sl_contents l = bt_insert key enc (sl_contents (active (e_mem e)))"
      using mt_put_frozen [OF inv, of key enc "w_rng w"] by blast
    have "maybe_flush (e\<lparr>e_wal := b, e_mem := m, e_metrics := metric (e_metrics e)\<rparr>, w\<lparr>w_disk := d, w_rng := xorshift (w_rng w)\<rparr>) = (res, (e1, w1))"
      using run' c Inr m(1) by (simp add: on_wal_eq [where m = "wal_commit crc r"] mem_put_eq)
    then show ?thesis using kept c Inr m by (auto split: option.splits)
  qed
qed

text \<open>A write cut anywhere: the log is intact up to the new record, so every other key reads as before.\<close>

lemma write_crash:
  assumes sys: "sys_ok tbl ts e w" and calm: "calm e" and log: "log_ok crc rs e w" and sync: "o_sync_wal (e_opts e)"
    and env: "sound_listing (w_readdir w)" "\<forall>n. w_clock w n = now"
    and r: "rec_key r = key" "\<forall>t. unpack_value t (rec_stored r) = unpack_value t enc" "length (rec_stored r) \<le> length enc" "record_fits r"
    and bound: "length key < 2 ^ 16" "32 + load ts e + entry_weight (key, enc) < 2 ^ 32" "unat (e_next_sst e) + 1 < 2 ^ 64"
    and flat: "flat (e_manifest e)" and quiet: "\<forall>meta. quiet (e_opts e) (add_sst 0 meta (e_manifest e))"
    and run: "log_and_apply (wal_append_record crc r) key enc metric (e, faulty plan w) = (res, (e1, w1))"
  shows "res \<noteq> Inr () \<and> (manifest_cut (e_path e) (e_manifest e) (w_disk w1) \<and> open_refused crc (e_path e) opts (restart w1) \<or>
      recovers crc (e_path e) opts (restart w1) (view now ts e)) \<or>
    recovers crc (e_path e) opts (restart w1) ((view now ts e)(key := unpack_value now enc))"
proof -
  note s = sys_okD [OF sys]
  let ?p = "default_wal_path (e_path e)" and ?m = "(mt_lookup (e_mem e))(key \<mapsto> enc)" and ?base = "table_lookup ts"
  have new: "read_map now (?base ++ ?m) = (view now ts e)(key := unpack_value now enc)"
    by (simp add: view_read_map read_map_upd)
  have log': "\<forall>x \<in> set (rs @ [r]). record_fits x" "file_bytes (w_disk (faulty plan w)) ?p = log_bytes crc rs" "bw_buf (e_wal e) = []"
    using log r(4) by (auto simp: log_ok_def file_bytes_def faulty_def)
  have al: "alike (replayed rs) (mt_lookup (e_mem e))" "alike (replayed (rs @ [r])) ?m"
    using log r(1-3) by (simp_all add: log_ok_def alike_upd)
  have settled: "immutable (e_mem e) = None" "short_keys (sl_contents (active (e_mem e)))"
    using calm by (simp_all add: calm_def settled_def)
  have env1: "sound_listing (w_readdir (restart w'))" "\<forall>n. w_clock (restart w') n = now"
    if "w_readdir w' = w_readdir w" "w_clock w' = w_clock w" for w' using env that by simp_all
  have small: "tables_weight ts < 2 ^ 32" using bound(2) by (simp add: load_def)
  have at: "recovers crc (e_path e) opts (restart w') (read_map now (?base ++ m))"
    if "w_readdir w' = w_readdir w" "w_clock w' = w_clock w" "w_disk w' = d" "only_file ?p (w_disk (faulty plan w)) d"
      "wal_read crc (file_bytes d ?p) = map Inr xs" "alike (replayed xs) m" for w' d xs m
    using recover_log [OF sys restart_simps(1) env1 [OF that(1,2)] _ _ that(6) flat small, of crc opts] that(3,5) only_fileD [OF that(4)]
    by (simp add: log_file_def faulty_def)
  have same: "w_readdir (faulty plan w) = w_readdir w" "w_clock (faulty plan w) = w_clock w" by (simp_all add: faulty_def)
  from run sync eng_okD(1) [OF s(1)] settled(1) show ?thesis
  proof (cases rule: write_cases)
    case (lost err b d)
    note any = wal_commit_any [OF lost(1) log'(3), unfolded s(5)]
    have "wal_read crc (file_bytes d ?p) = map Inr rs \<or> wal_read crc (file_bytes d ?p) = map Inr (rs @ [r])"
      using wal_read_between [OF log'(1)] any(1,2) log'(2) by simp
    then show ?thesis
      using at [of w1 d, OF _ _ _ any(3) _ al(1)] at [of w1 d, OF _ _ _ any(3) _ al(2)] lost(2,3) same new
      by (auto simp: view_read_map simp del: fun_upd_apply map_add_upd)
  next
    case (kept b d m)
    note any = wal_commit_any [OF kept(1) log'(3), unfolded s(5)]
    let ?e = "e\<lparr>e_wal := b, e_mem := m, e_metrics := metric (e_metrics e)\<rparr>" and ?d = "d\<lparr>faults := \<lambda>_. None\<rparr>"
    have fin: "bw_buf b = []" "files d ?p = Some (log_bytes crc (rs @ [r]))" using any(5) log'(2) by simp_all
    show ?thesis
    proof (cases "immutable m")
      case None
      then have "w_disk w1 = d" "w_readdir w1 = w_readdir w" "w_clock w1 = w_clock w"
        using kept(2) same by (auto simp: maybe_flush_nothing)
      moreover have "wal_read crc (file_bytes d ?p) = map Inr (rs @ [r])"
        using wal_read_log [OF log'(1)] fin(2) by (simp add: file_bytes_def)
      ultimately show ?thesis using at [of w1 d, OF _ _ _ any(3) _ al(2)] new by (simp del: fun_upd_apply map_add_upd)
    next
      case (Some l)
      have l: "sl_contents (active m) = []" "sl_contents l = bt_insert key enc (sl_contents (active (e_mem e)))"
        using kept(6) Some by simp_all
      have weight: "tables_weight ts + weight (sl_contents l) + 32 < 2 ^ 32"
        using weight_bt_insert [of key enc "sl_contents (active (e_mem e))"] bound(2) l(2) by (simp add: load_def)
      then have fits: "sst_fits (sl_contents l)"
        using short_keys_bt_insert [OF bound(1) settled(2), of enc] l(2) by (simp add: sst_fits_weight)
      have sys': "sys_ok tbl ts ?e (w\<lparr>w_disk := ?d, w_rng := xorshift (w_rng w)\<rparr>)"
        using any(3,4) s(5) only_file_faulty [OF any(3) s(4)] by (intro logged_sys [OF sys]) (simp_all add: kept(4) no_faults_def)
      have d2: "w_readdir w1 = w_readdir w" "w_clock w1 = w_clock w" "flush_cut ?e (sl_contents l) d (res = Inr ()) (w_disk w1)"
        using flush_any [OF _ _ _ _ fits _ kept(2)] kept(4) Some fin(1) bound(3) quiet same by auto
      then have cut: "flush_cut ?e (sl_contents l) ?d (res = Inr ()) (w_disk (restart w1))"
        by (simp add: flush_cut_def)
      have "view now ts ?e = (view now ts e)(key := unpack_value now enc)"
        using new kept(5) by (simp add: view_read_map)
      then show ?thesis
        using recover_flush [OF sys' _ _ log'(1) _ _ _ restart_simps(1) env1, of l] Some l(1) fin(2) al(2) kept(5) cut flat weight bound(3) d2(1,2)
        by auto
    qed
  qed
qed

text \<open>The states between two writes of an engine whose tables are all in level 0 and that no flush makes compact.\<close>

definition steady :: "engine \<Rightarrow> bool" where
  "steady e \<longleftrightarrow> flat (e_manifest e) \<and> (\<forall>meta. quiet (e_opts e) (add_sst 0 meta (e_manifest e)))"

lemma put_crash:
  assumes db: "db_ok crc ts e w" and env: "sound_listing (w_readdir w)" "\<forall>n. w_clock w n = now" and steady: "steady e"
    and fits: "fits_write ts e key (encode_with_seq val (e_next_seq e))"
    and run: "eng_put crc key val (e, faulty plan w) = (res, (e1, w1))"
  shows "res \<noteq> Inr () \<and> (manifest_cut (e_path e) (e_manifest e) (w_disk w1) \<and> open_refused crc (e_path e) opts (restart w1) \<or>
      recovers crc (e_path e) opts (restart w1) (view now ts e)) \<or>
    recovers crc (e_path e) opts (restart w1) ((view now ts e)(key := unpack_value now (encode_with_seq val (e_next_seq e))))"
proof -
  let ?e = "e\<lparr>e_next_seq := e_next_seq e + 1\<rparr>" and ?enc = "encode_with_seq val (e_next_seq e)"
  let ?r = "\<lparr>rec_op = Put, rec_key = key, rec_value = ?enc\<rparr>"
  obtain tbl rs where s: "sys_ok tbl ts ?e w" "log_ok crc rs ?e w" "calm ?e" "o_sync_wal (e_opts ?e)"
    using db by (auto simp: db_ok_def)
  have bound: "length key < 2 ^ 16" "32 + load ts ?e + entry_weight (key, ?enc) < 2 ^ 32" "unat (e_next_sst ?e) + 1 < 2 ^ 64"
    "unat (e_next_seq e) + 1 < 2 ^ 64"
    using fits by (simp_all add: fits_write_def)
  have "log_and_apply (wal_append_record crc ?r) key ?enc (\<lambda>m. m\<lparr>m_writes := m_writes m + 1\<rparr>) (?e, faulty plan w) = (res, (e1, w1))"
    using run by (simp add: eng_put_def take_seq_bind [OF bound(4)] wal_append_is_record Let_def)
  moreover have "record_fits ?r" by (rule record_fits_write [OF bound(2)])
  ultimately show ?thesis
    using write_crash [OF s(1,3,2,4) env _ _ _ _ bound(1-3), of ?r] steady by (simp add: steady_def rec_stored_def)
qed

end
