(* ===== verification/EngineTorn.thy ===== *)
theory EngineTorn
  imports EngineCrash
begin

text \<open>
  Two crashes that lose data which an earlier call had acknowledged: a torn record at the end of the log hides the
  records that are appended after it, and a compaction deletes its inputs before the manifest names its output.
\<close>

subsection \<open>Records after a torn record\<close>

text \<open>Once the length of a record is on disk, whatever follows is taken for its missing bytes.\<close>

lemma wal_read_swallow:
  assumes fits: "\<forall>r \<in> set rs. record_fits r" "record_fits r" and n: "4 \<le> n" "n + length ys < length (record_encode crc r)"
  shows "wal_read crc (log_bytes crc rs @ take n (record_encode crc r) @ ys) = map Inr rs"
proof -
  let ?torn = "take n (record_encode crc r) @ ys"
  have "rd_u32 ?torn 0 = rd_u32 (record_encode crc r) 0"
    using n by (simp add: rd_u32_def min_def)
  also have "\<dots> = length (record_encode crc r) - 4"
    using rd_record_len [OF fits(2), of crc "[]"] by simp
  finally have "wal_next crc ?torn = None" using n by (simp add: wal_next_def Let_def min_def)
  then have "wal_read crc ?torn = []" by (simp add: wal_read.simps)
  then show ?thesis using wal_read_append [OF fits(1)] by simp
qed

text \<open>A commit whose single write is cut after \<open>n\<close> bytes.\<close>

lemma commit_torn:
  assumes "bw_buf b = []" "length (record_encode crc r) < bw_capacity" "fault_now d = Some n"
  shows "\<exists>err b' d'. wal_commit crc r (b, d) = (Inl err, (b', d')) \<and> only_file (bw_path b) d d' \<and>
    file_bytes d' (bw_path b) = file_bytes d (bw_path b) @ take n (record_encode crc r)"
proof -
  have ne: "record_encode crc r \<noteq> []" using length_record_encode [of crc r] by auto
  let ?b = "b\<lparr>bw_buf := record_encode crc r\<rparr>"
  have ap: "wal_append_record crc r (b, d) = (Inr (), (?b, d))"
    using assms(1,2) by (simp add: wal_append_record_def bw_write_all_def)
  obtain d' m where w: "write_file (bw_path b) (record_encode crc r) d = ((io_err, m), d')" "m = min n (length (record_encode crc r))"
    using assms(3) by (simp add: write_file_def Let_def)
  have "wal_flush (?b, d) = (io_err, (?b\<lparr>bw_buf := drop m (record_encode crc r)\<rparr>, d'))"
    using w(1) ne by (simp add: wal_flush_def st_bind_def bw_flush_buf_def)
  then have run: "wal_commit crc r (b, d) = (io_err, (?b\<lparr>bw_buf := drop m (record_encode crc r)\<rparr>, d'))"
    by (simp add: wal_commit_def st_bind_eq(1) [where m = "wal_append_record crc r", OF ap])
  have "file_bytes d' (bw_path b) = file_bytes d (bw_path b) @ take n (record_encode crc r)"
    using write_file_any(1) [OF w(1)] w(2) by (simp add: min_def)
  moreover have "only_file (bw_path b) d d'" by (rule write_file_any(3) [OF w(1)])
  ultimately show ?thesis using run by blast
qed

lemma commit_total:
  assumes "no_faults d" "bw_buf b = []"
  shows "\<exists>b' d'. wal_commit crc r (b, d) = (Inr (), (b', d'))"
proof -
  obtain b1 d1 where a: "wal_append_record crc r (b, d) = (Inr (), (b1, d1))" "no_faults d1"
    using wal_append_record_total [OF assms(1)] by blast
  obtain b2 d2 where "wal_flush (b1, d1) = (Inr (), (b2, d2))" using wal_flush_total [OF a(2)] by blast
  then show ?thesis by (simp add: wal_commit_def st_bind_eq(1) [where m = "wal_append_record crc r", OF a(1)])
qed

text \<open>A put that fits the memtable, up to its return.\<close>

lemma put_settled:
  assumes ok: "mt_inv (e_mem e)" "immutable (e_mem e) = None" and sync: "o_sync_wal (e_opts e)" and seq: "unat (e_next_seq e) + 1 < 2 ^ 64"
    and nf: "no_faults (w_disk w)" and buf: "bw_buf (e_wal e) = []"
    and enc: "enc = encode_with_seq val (e_next_seq e)"
    and room: "sl_size (active (e_mem e)) + grow key enc (active (e_mem e)) \<le> max_size (e_mem e)"
  shows "\<exists>b m mt d rng. eng_put crc key val (e, w) =
      (Inr (), (e\<lparr>e_next_seq := e_next_seq e + 1, e_wal := b, e_mem := m, e_metrics := mt\<rparr>, w\<lparr>w_disk := d, w_rng := rng\<rparr>)) \<and>
    mt_inv m \<and> mt_lookup m = (mt_lookup (e_mem e))(key \<mapsto> enc) \<and> only_file (bw_path (e_wal e)) (w_disk w) d \<and>
    file_bytes d (bw_path (e_wal e)) = file_bytes (w_disk w) (bw_path (e_wal e)) @
      record_encode crc \<lparr>rec_op = Put, rec_key = key, rec_value = enc\<rparr>"
proof -
  let ?e = "e\<lparr>e_next_seq := e_next_seq e + 1\<rparr>" and ?r = "\<lparr>rec_op = Put, rec_key = key, rec_value = enc\<rparr>"
  obtain res e1 w1 where run: "log_and_apply (wal_append_record crc ?r) key enc (\<lambda>m. m\<lparr>m_writes := m_writes m + 1\<rparr>) (?e, w) = (res, (e1, w1))"
    by (rule prod_cases3) (rule that)
  have put: "eng_put crc key val (e, w) = (res, (e1, w1))"
    using run by (simp add: eng_put_def take_seq_bind [OF seq] wal_append_is_record Let_def enc)
  obtain b0 d0 where total: "wal_commit crc ?r (e_wal ?e, w_disk w) = (Inr (), (b0, d0))"
    using commit_total [OF nf, of "e_wal ?e" crc ?r] buf by auto
  have pre: "o_sync_wal (e_opts ?e)" "mt_inv (e_mem ?e)" "immutable (e_mem ?e) = None" using sync ok by simp_all
  from run pre show ?thesis
  proof (cases rule: write_cases)
    case (lost err b d)
    then show ?thesis using total by simp
  next
    case (kept b d m)
    obtain m' where m': "mt_put key enc (e_mem e, w_rng w) = Inr (m', xorshift (w_rng w))" "immutable m' = None"
      using mt_put_spec [OF ok(1), of key enc "w_rng w"] ok(2) room by (auto simp: not_less)
    then have "immutable m = None" using kept(3) by simp
    then have "res = Inr ()" "e1 = ?e\<lparr>e_wal := b, e_mem := m, e_metrics := (e_metrics e)\<lparr>m_writes := m_writes (e_metrics e) + 1\<rparr>\<rparr>"
      "w1 = w\<lparr>w_disk := d, w_rng := xorshift (w_rng w)\<rparr>"
      using kept(2) by (simp_all add: maybe_flush_nothing)
    then have run: "eng_put crc key val (e, w) = (Inr (), (e\<lparr>e_next_seq := e_next_seq e + 1, e_wal := b, e_mem := m,
        e_metrics := (e_metrics e)\<lparr>m_writes := m_writes (e_metrics e) + 1\<rparr>\<rparr>, w\<lparr>w_disk := d, w_rng := xorshift (w_rng w)\<rparr>))"
      using put by simp
    have buf': "bw_buf (e_wal ?e) = []" "e_wal ?e = e_wal e" "e_mem ?e = e_mem e" using buf by simp_all
    note any = wal_commit_any [OF kept(1) buf'(1)] and m = kept(4,5)
    have "files d (bw_path (e_wal e)) = Some (file_bytes (w_disk w) (bw_path (e_wal e)) @ record_encode crc ?r)"
      using any(5) buf'(2) by (simp only: refl simp_thms)
    then have "file_bytes d (bw_path (e_wal e)) = file_bytes (w_disk w) (bw_path (e_wal e)) @ record_encode crc ?r"
      by (simp only: file_bytes_def option.case)
    then show ?thesis using run m any(3) unfolding buf'(2,3) by blast
  qed
qed

text \<open>The first put is cut after 20 bytes, and the process dies.\<close>

lemma first_put_cut:
  assumes m: "mt_inv m" "immutable m = None" "sl_contents (active m) = []" and e: "e = small_engine dir manifest_new [] m"
    and r: "r = \<lparr>rec_op = Put, rec_key = [1], rec_value = encode_with_seq (replicate 100 0) 9\<rparr>"
  shows "\<exists>err e1 w1. eng_put crc [1] (replicate 100 0) (e, faulty (\<lambda>_. Some 20) (blank_world dir 7)) = (Inl err, (e1, w1)) \<and>
    file_bytes (w_disk w1) (default_wal_path dir) = take 20 (record_encode crc r) \<and>
    (\<forall>q. q \<noteq> default_wal_path dir \<longrightarrow> files (w_disk w1) q = files (w_disk (blank_world dir 7)) q) \<and>
    w_readdir w1 = w_readdir (blank_world dir 7) \<and> w_clock w1 = w_clock (blank_world dir 7)"
proof -
  let ?w = "faulty (\<lambda>_. Some 20) (blank_world dir 7)" and ?e = "e\<lparr>e_next_seq := 10\<rparr>"
  have f: "e_wal e = \<lparr>bw_path = default_wal_path dir, bw_buf = []\<rparr>" "o_sync_wal (e_opts e)" "e_mem e = m" "e_next_seq e = 9"
    by (simp_all add: e small_engine_def default_options_def)
  have "length (record_encode crc r) < bw_capacity" by (simp add: length_record_encode r bw_capacity_def)
  moreover have "fault_now (w_disk ?w) = Some 20" by (simp add: fault_now_def faulty_def)
  ultimately obtain err b d where c: "wal_commit crc r (e_wal e, w_disk ?w) = (Inl err, (b, d))"
    "only_file (default_wal_path dir) (w_disk ?w) d"
    "file_bytes d (default_wal_path dir) = file_bytes (w_disk ?w) (default_wal_path dir) @ take 20 (record_encode crc r)"
    using commit_torn [of "e_wal e" crc r "w_disk ?w" 20] f(1) by auto
  have "eng_put crc [1] (replicate 100 0) (e, ?w) = log_and_apply (wal_append_record crc r) [1] (encode_with_seq (replicate 100 0) 9)
      (\<lambda>m. m\<lparr>m_writes := m_writes m + 1\<rparr>) (?e, ?w)"
    by (simp add: eng_put_def take_seq_bind f(4) wal_append_is_record Let_def r)
  also have "\<dots> = st_bind (on_wal (wal_commit crc r)) (\<lambda>_. st_bind (mem_put [1] (encode_with_seq (replicate 100 0) 9)) (\<lambda>_.
      st_bind (count_metric (\<lambda>m. m\<lparr>m_writes := m_writes m + 1\<rparr>)) (\<lambda>_. maybe_flush))) (?e, ?w)"
    using f(2) by (simp add: log_and_apply_def commit_bind)
  also have "\<dots> = (Inl err, (?e\<lparr>e_wal := b\<rparr>, ?w\<lparr>w_disk := d\<rparr>))"
    using c(1) by (simp add: st_bind_def on_wal_def)
  finally have run: "eng_put crc [1] (replicate 100 0) (e, ?w) = (Inl err, (?e\<lparr>e_wal := b\<rparr>, ?w\<lparr>w_disk := d\<rparr>))" .
  have "file_bytes (w_disk ?w) (default_wal_path dir) = []" by (simp add: faulty_def blank_world_def file_bytes_def)
  then show ?thesis using run c(3) only_fileD [OF c(2)]
    by (intro exI [of _ err] exI [of _ "?e\<lparr>e_wal := b\<rparr>"] exI [of _ "?w\<lparr>w_disk := d\<rparr>"]) (simp add: faulty_def)
qed

text \<open>Opening a directory whose log holds no complete record.\<close>

lemma open_unreadable:
  assumes m: "mt_inv m" "immutable m = None" "sl_contents (active m) = []"
    and nf: "no_faults (w_disk w)" and env: "w_readdir w = w_readdir (blank_world dir 7)" "w_clock w = w_clock (blank_world dir 7)"
    and same: "\<forall>q. q \<noteq> default_wal_path dir \<longrightarrow> files (w_disk w) q = files (w_disk (blank_world dir 7)) q"
    and log: "wal_read crc (file_bytes (w_disk w) (default_wal_path dir)) = []"
  shows "\<exists>e' w'. eng_open crc dir default_options w = (Inr e', w') \<and> eng_ok (table_map []) [] e' \<and>
    immutable (e_mem e') = None \<and> sl_contents (active (e_mem e')) = [] \<and> max_size (e_mem e') = 4 * 1024 * 1024 \<and>
    e_opts e' = default_options \<and> e_next_seq e' = 1 \<and> e_wal e' = \<lparr>bw_path = default_wal_path dir, bw_buf = []\<rparr> \<and>
    same_env w w' \<and> no_faults (w_disk w') \<and>
    files (w_disk w') = (files (w_disk w))(default_wal_path dir \<mapsto> file_bytes (w_disk w) (default_wal_path dir))"
proof -
  let ?e = "small_engine dir manifest_new [] m" and ?wb = "blank_world dir 7"
  have path: "e_path ?e = dir" "e_manifest ?e = manifest_new" by (simp_all add: small_engine_def)
  obtain tbl where sys: "sys_ok tbl [] ?e ?wb" using blank_ok(1) [OF m refl, of crc dir 7] by (rule db_okE)
  have sys1: "sys_ok tbl [] ?e w" using sys_ok_disk [OF sys nf] same by (simp add: path)
  have log1: "log_file crc [] (w_disk w) (default_wal_path (e_path ?e))" using log by (simp add: log_file_def path)
  have ls: "sound_listing (w_readdir w)" using blank_ok(3) [OF m refl, of dir 7] env(1) by simp
  have us: "reordered [] ?e = []" by (simp add: reordered_def small_engine_def manifest_new_def)
  have "tables_weight [] < 2 ^ 32" by simp
  from sys_reopen [OF sys1 log1 this ls, of default_options]
  obtain e' w' where r: "eng_open crc dir default_options w = (Inr e', w')" "eng_ok (table_map []) [] e'" "settled e'"
    "mt_lookup (e_mem e') = Map.empty" "e_opts e' = default_options" "e_next_seq e' = 1"
    "e_wal e' = \<lparr>bw_path = default_wal_path dir, bw_buf = []\<rparr>" "same_env w w'" "no_faults (w_disk w')"
    "files (w_disk w') = (files (w_disk w))(default_wal_path dir \<mapsto> file_bytes (w_disk w) (default_wal_path dir))"
    "max_size (e_mem e') = o_memtable_size default_options"
    by (auto simp: us path)
  then show ?thesis
    by (intro exI [of _ e'] exI [of _ w']) (simp add: settled_def mt_lookup_settled default_options_def)
qed

text \<open>A put that returned an error left 20 bytes of its record. The directory opens, a second put returns Ok and reads
  back, its record is synced; the next open does not find it.\<close>

lemma torn_record_hides_put:
  "\<exists>e err e1 w1 e2 w2 e3 w3 e4 w4. db_ok crc [] e (blank_world ''db'' 7) \<and>
     eng_put crc [1] (replicate 100 0) (e, faulty (\<lambda>_. Some 20) (blank_world ''db'' 7)) = (Inl err, (e1, w1)) \<and>
     eng_open crc ''db'' default_options (restart w1) = (Inr e2, w2) \<and> eng_put crc [2] [9] (e2, w2) = (Inr (), (e3, w3)) \<and>
     fst (eng_get [2] (e3, w3)) = Inr (Some [9]) \<and> eng_open crc ''db'' default_options w3 = (Inr e4, w4) \<and>
     fst (eng_get [2] (e4, w4)) = Inr None"
proof -
  obtain m where m: "mt_inv m" "mt_lookup m = Map.empty" "immutable m = None" using mt_new_spec [of 0] by blast
  then have empty: "sl_contents (active m) = []" by (simp add: mt_lookup_settled)
  let ?e = "small_engine ''db'' manifest_new [] m" and ?wb = "blank_world ''db'' 7" and ?wal = "default_wal_path ''db''"
  let ?r = "\<lparr>rec_op = Put, rec_key = [1], rec_value = encode_with_seq (replicate 100 0) 9\<rparr>"
  obtain err e1 w1 where c: "eng_put crc [1] (replicate 100 0) (?e, faulty (\<lambda>_. Some 20) ?wb) = (Inl err, (e1, w1))"
    "file_bytes (w_disk w1) ?wal = take 20 (record_encode crc ?r)"
    "\<forall>q. q \<noteq> ?wal \<longrightarrow> files (w_disk w1) q = files (w_disk ?wb) q" "w_readdir w1 = w_readdir ?wb" "w_clock w1 = w_clock ?wb"
    using first_put_cut [OF m(1,3) empty refl refl] by blast
  have hidden: "wal_read crc (take 20 (record_encode crc ?r) @ ys) = []" if "length ys < 100" for ys
    using wal_read_swallow [of "[]" ?r 20 ys crc] that by (simp add: length_record_encode record_fits_def)
  obtain e2 w2 where o2: "eng_open crc ''db'' default_options (restart w1) = (Inr e2, w2)" "eng_ok (table_map []) [] e2"
    "immutable (e_mem e2) = None" "sl_contents (active (e_mem e2)) = []" "max_size (e_mem e2) = 4 * 1024 * 1024"
    "e_opts e2 = default_options" "e_next_seq e2 = 1" "e_wal e2 = \<lparr>bw_path = ?wal, bw_buf = []\<rparr>" "same_env (restart w1) w2"
    "no_faults (w_disk w2)" "files (w_disk w2) = (files (w_disk w1))(?wal \<mapsto> file_bytes (w_disk w1) ?wal)"
    using open_unreadable [OF m(1,3) empty, of "restart w1" "''db''" crc] c hidden [of "[]"] by auto
  have inv2: "mt_inv (e_mem e2)" using eng_okD(1) [OF o2(2)] .
  then have size: "sl_size (active (e_mem e2)) = size_of_skiplist" using o2(4) by (auto simp: mt_inv_def sl_sized_def)
  let ?enc = "encode_with_seq [9] 1" and ?r2 = "\<lparr>rec_op = Put, rec_key = [2], rec_value = encode_with_seq [9] 1\<rparr>"
  have "sl_size (active (e_mem e2)) + grow [2] ?enc (active (e_mem e2)) \<le> max_size (e_mem e2)"
    by (simp add: size o2(4,5) grow_def size_of_skiplist_def size_of_ptr_def size_of_node_def size_of_vec_def)
  then obtain b m3 mt d rng where p: "eng_put crc [2] [9] (e2, w2) =
      (Inr (), (e2\<lparr>e_next_seq := 2, e_wal := b, e_mem := m3, e_metrics := mt\<rparr>, w2\<lparr>w_disk := d, w_rng := rng\<rparr>))"
    "mt_inv m3" "mt_lookup m3 = (mt_lookup (e_mem e2))([2] \<mapsto> ?enc)" "only_file ?wal (w_disk w2) d"
    "file_bytes d ?wal = file_bytes (w_disk w2) ?wal @ record_encode crc ?r2"
    using put_settled [OF inv2 o2(3) _ _ o2(10), of ?enc "[9]" "[2]" crc] o2(6,7,8) by (auto simp: default_options_def)
  let ?e3 = "e2\<lparr>e_next_seq := 2, e_wal := b, e_mem := m3, e_metrics := mt\<rparr>" and ?w3 = "w2\<lparr>w_disk := d, w_rng := rng\<rparr>"
  have clk: "w_clock w2 = (\<lambda>_. 7)" "w_readdir w2 = w_readdir ?wb" using o2(9) c(4,5) by (simp_all add: same_env_def blank_world_def new_world_def)
  have ok3: "eng_ok (table_map []) [] ?e3" using o2(2) p(2) by (simp add: eng_ok_def)
  have get3: "fst (eng_get [2] (?e3, ?w3)) = Inr (Some [9])"
    by (simp add: eng_get_view [OF ok3] view_def stored_def p(3) clk unpack_plain unpack_inner_def unwrap_ttl_def tombstone_def)
  have "file_bytes d ?wal = take 20 (record_encode crc ?r) @ record_encode crc ?r2"
    using p(5) o2(11) c(2) by (simp add: file_bytes_def)
  then have "wal_read crc (file_bytes d ?wal) = []" using hidden by (simp add: length_record_encode)
  moreover have "\<forall>q. q \<noteq> ?wal \<longrightarrow> files d q = files (w_disk ?wb) q" using only_fileD [OF p(4)] o2(11) c(3) by simp
  moreover have "no_faults d" using no_faults_only_file [OF o2(10) p(4)] .
  ultimately obtain e4 w4 where o4: "eng_open crc ''db'' default_options ?w3 = (Inr e4, w4)" "eng_ok (table_map []) [] e4"
    "immutable (e_mem e4) = None" "sl_contents (active (e_mem e4)) = []"
    using open_unreadable [OF m(1,3) empty, of ?w3 "''db''" crc] clk by (auto simp: blank_world_def new_world_def)
  have "fst (eng_get [2] (e4, w4)) = Inr None"
    by (simp add: eng_get_view [OF o4(2)] view_def stored_def mt_lookup_settled [OF o4(3)] o4(4))
  then show ?thesis using blank_ok(1) [OF m(1,3) empty refl] c(1) o2(1) p(1) get3 o4(1) by blast
qed

subsection \<open>A compaction that dies before it saves the manifest\<close>

text \<open>With two levels, what a compaction of level 0 leaves in place is a part of level 1.\<close>

lemma shallow_levels:
  assumes "shallow mf"
  shows "concat (levels mf) = ssts_at_level mf 0 @ ssts_at_level mf 1" "concat (rev (levels mf)) = ssts_at_level mf 1 @ ssts_at_level mf 0"
    "concat (drop 2 (levels mf)) = []"
proof -
  have "x = []" if x: "x \<in> set (drop 2 (levels mf))" for x
  proof -
    obtain i where "i < length (levels mf) - 2" "x = levels mf ! Suc (Suc i)" using x by (auto simp: in_set_conv_nth)
    then show ?thesis using assms [unfolded shallow_def, rule_format, of "Suc (Suc i)"] by (simp add: ssts_at_level_def split: if_splits)
  qed
  then have deep: "concat (drop 2 (levels mf)) = []" "concat (rev (drop 2 (levels mf))) = []" by (auto simp: concat_eq_Nil_conv)
  show "concat (drop 2 (levels mf)) = []" by (rule deep(1))
  show "concat (levels mf) = ssts_at_level mf 0 @ ssts_at_level mf 1"
    using deep(1) by (cases "levels mf" rule: remdups_adj.cases) (auto simp: ssts_at_level_def numeral_2_eq_2)
  show "concat (rev (levels mf)) = ssts_at_level mf 1 @ ssts_at_level mf 0"
    using levels_split [of 0 mf] by (simp only: add_0 deep(2) append_Nil) simp
qed

lemma map_fst_out:
  "map fst (filter (\<lambda>t. tid t \<notin> I) us) = filter (\<lambda>m. meta_id m \<notin> I) (map fst us)"
  by (induction us) (simp_all add: tid_def)

lemma left_in_place:
  assumes ok: "eng_ok tbl ts e" and ord: "in_order ts e" and sh: "shallow (e_manifest e)"
  shows "filter (\<lambda>t. tid t \<notin> set (input_ids e 0)) (reordered ts e) = others ts e 0"
proof (rule map_inj_on)
  have dist: "distinct (map fst ts)" using distinct_metas [OF eng_okD(6) [OF ok]] .
  have src: "filter (\<lambda>m. meta_id m \<notin> set (input_ids e 0)) (ssts_at_level (e_manifest e) 0) = []"
    by (rule filter_False) (simp add: input_ids_def src_metas_def)
  show "map fst (filter (\<lambda>t. tid t \<notin> set (input_ids e 0)) (reordered ts e)) = map fst (others ts e 0)"
    unfolding others_def map_fst_out map_fst_reordered ord [unfolded in_order_def] shallow_levels(1,2) [OF sh]
    by (simp add: src)
  have "inj_on fst (set ts)" using dist by (simp add: distinct_map)
  moreover have "set (filter (\<lambda>t. tid t \<notin> set (input_ids e 0)) (reordered ts e)) \<union> set (others ts e 0) \<subseteq> set ts"
    using reordered_set [OF ord dist] by (auto simp: others_def)
  ultimately show "inj_on fst (set (filter (\<lambda>t. tid t \<notin> set (input_ids e 0)) (reordered ts e)) \<union> set (others ts e 0))"
    by (rule inj_on_subset)
qed

lemma sys_table:
  assumes "sys_ok tbl ts e w" "u \<in> set ts"
  shows "files (w_disk w) (sst_path (e_path e) (tid u)) = Some (sst_bytes (snd u))" "sst_good (tentries u) (snd u)"
    "unat (tid u) + 1 < 2 ^ 64" "tid u \<noteq> e_next_sst e"
proof -
  note s = sys_okD [OF assms(1)] and o = eng_okD [OF sys_okD(1) [OF assms(1)]]
  show "files (w_disk w) (sst_path (e_path e) (tid u)) = Some (sst_bytes (snd u))" "sst_good (tentries u) (snd u)"
    using s(6) o(3) assms(2) by (simp_all add: files_ok_def tables_ok_def)
  have below: "tid u < e_next_sst e" using o(3) assms(2) o(5) [of "tid u"] by (auto simp: tables_ok_def)
  then show "tid u \<noteq> e_next_sst e" by simp
  show "unat (tid u) + 1 < 2 ^ 64"
    using below unsigned_less [of "e_next_sst e", where ?'a = nat] by (simp add: word_less_nat_alt)
qed

text \<open>The disk at that point: the old manifest, the tables that took no part, the log, and no input.\<close>

lemma compact_front_disk:
  assumes sys: "sys_ok tbl ts e w" and log: "log_ok crc rs e w" and clk: "\<forall>n. w_clock w n = now"
    and src: "ssts_at_level (e_manifest e) 0 \<noteq> []" and small: "32 + tables_weight ts < 2 ^ 32" and ids: "unat (e_next_sst e) + 1 < 2 ^ 64"
  obtains e1 d k where "compact_front 0 (e, w) = (Inr (), (e1, w\<lparr>w_disk := d, w_ticks := k\<rparr>))" "no_faults d"
    "files d (manifest_path (e_path e)) = Some (manifest_encode (e_manifest e))" "log_file crc rs d (default_wal_path (e_path e))"
    "\<forall>u \<in> set ts. files d (sst_path (e_path e) (tid u)) = (if tid u \<in> set (input_ids e 0) then None else Some (sst_bytes (snd u)))"
    "tidy (e_path e) d"
proof -
  note sd = sys_okD [OF sys] and t = tree_okD [OF sys_okD(2) [OF sys]]
  let ?dir = "e_path e" and ?mf = "e_manifest e" and ?ids = "set (input_ids e 0)" and ?es = "live_entries now ts e 0"
  have low: "\<forall>j < 0. ssts_at_level ?mf j = []" by simp
  note cw = compacted_weight [OF sd(1) t(1) low]
  have fits: "sst_fits ?es" using cw(1) cw(2,3) [of now] small by (simp add: sst_fits_weight)
  have src': "src_metas e 0 \<noteq> []" using src by (simp add: src_metas_def)
  obtain bs c d k where front: "compact_front 0 (e, w) =
      (Inr (), ((compacted e 0 ?es bs c)\<lparr>e_metrics := e_metrics e\<rparr>, w\<lparr>w_disk := d, w_ticks := k\<rparr>))"
    and nf: "no_faults d" and fl: "\<forall>q. files d q = (if q \<in> sst_path ?dir ` ?ids then None
      else if ?es \<noteq> [] \<and> q = sst_path ?dir (e_next_sst e) then Some (sst_bytes bs) else files (w_disk w) q)"
    using compact_front_total [OF sd(1) t(1) sd(4) clk src' fits ids] by blast
  show thesis
  proof (rule that [OF front nf])
    have "?mf \<noteq> manifest_new" using src by (auto simp: ssts_at_level_def manifest_new_def)
    moreover have "files d (manifest_path ?dir) = files (w_disk w) (manifest_path ?dir)" using fl by auto
    ultimately show "files d (manifest_path ?dir) = Some (manifest_encode ?mf)" using sd(6) by (simp add: files_ok_def)
    have "files d (default_wal_path ?dir) = files (w_disk w) (default_wal_path ?dir)" using fl by auto
    then show "log_file crc rs d (default_wal_path ?dir)" using log log_file_exact by (simp add: log_ok_def)
    show "\<forall>u \<in> set ts. files d (sst_path ?dir (tid u)) = (if tid u \<in> ?ids then None else Some (sst_bytes (snd u)))"
      using fl sys_table(1,4) [OF sys] by auto
    have "files d q = files (w_disk w) q" if "q \<notin> engine_files ?dir" for q using fl that by (auto simp: engine_files_def)
    then have "dom (files d) \<subseteq> dom (files (w_disk w)) \<union> engine_files ?dir" by fastforce
    then show "tidy ?dir d" using sd(7) tidy_extend [of ?dir "w_disk w" d] by (simp add: neat_def)
  qed
qed

text \<open>Opening it gives the tables that took no part, in the order they had.\<close>

lemma open_left:
  assumes sys: "sys_ok tbl ts e w" and sh: "shallow (e_manifest e)" and small: "tables_weight ts < 2 ^ 32" and listing: "sound_listing (w_readdir w')"
    and nf: "no_faults (w_disk w')" and mf: "files (w_disk w') (manifest_path (e_path e)) = Some (manifest_encode (e_manifest e))"
    and log: "log_file crc rs (w_disk w') (default_wal_path (e_path e))"
    and keep: "\<forall>u \<in> set ts. files (w_disk w') (sst_path (e_path e) (tid u)) =
      (if tid u \<in> set (input_ids e 0) then None else Some (sst_bytes (snd u)))"
    and tidy: "tidy (e_path e) (w_disk w')"
  shows "\<exists>e' w2. eng_open crc (e_path e) opts w' = (Inr e', w2) \<and>
    eng_ok (table_map (others ts e 0)) (reloaded (others ts e 0)) e' \<and>
    stored (reloaded (others ts e 0)) e' = table_lookup (others ts e 0) ++ replayed rs \<and> same_env w' w2"
proof -
  note sd = sys_okD [OF sys] and t = tree_okD [OF sys_okD(2) [OF sys]] and o = eng_okD [OF sys_okD(1) [OF sys]]
  let ?dir = "e_path e" and ?mf = "e_manifest e" and ?ids = "set (input_ids e 0)" and ?us = "others ts e 0"
  have "set (concat (levels ?mf)) = fst ` set ts"
    using t(1) shallow_levels(1,2) [OF sh] by (auto simp: in_order_def simp flip: set_map)
  then have present: "files (w_disk w') (sst_path ?dir (meta_id m)) \<noteq> None \<longleftrightarrow> meta_id m \<notin> ?ids" if "m \<in> set (concat (levels ?mf))" for m
    using that keep by (auto simp: tid_def)
  have us: "map fst ?us = filter (\<lambda>m. files (w_disk w') (sst_path ?dir (meta_id m)) \<noteq> None) (concat (levels ?mf))"
    using present by (simp only: left_in_place [OF sd(1) t(1) sh, symmetric] map_fst_out map_fst_reordered cong: filter_cong)
  have mf': "files (w_disk w') (manifest_path ?dir) = Some (manifest_encode ?mf) \<and> manifest_fits ?mf \<or>
      files (w_disk w') (manifest_path ?dir) = None \<and> ?mf = manifest_new"
    using mf neat_fits [OF sd(7) t(1) o(3)] small by simp
  have tabs: "\<forall>u \<in> set ?us. files (w_disk w') (sst_path ?dir (tid u)) = Some (sst_bytes (snd u)) \<and> sst_good (tentries u) (snd u) \<and>
      unat (tid u) + 1 < 2 ^ 64"
    using keep sys_table(2,3) [OF sys] by (auto simp: others_def)
  have ls: "lists_files (w_readdir w') (w_disk w') ?dir" "one_log ?dir (w_disk w')"
    using tidy sound_listing_lists [OF listing] by (simp_all add: tidy_def)
  have dist: "distinct (map tid ?us)" using o(6) by (simp add: others_def distinct_map_filter)
  show ?thesis using eng_open_present [OF nf mf' us dist tabs log ls, of opts] by blast
qed

lemma compaction_crash:
  assumes db: "db_ok crc ts e w" and sh: "shallow (e_manifest e)" and clk: "\<forall>n. w_clock w n = now" and listing: "sound_listing (w_readdir w)"
    and src: "ssts_at_level (e_manifest e) 0 \<noteq> []" and small: "32 + load ts e < 2 ^ 32" and ids: "unat (e_next_sst e) + 1 < 2 ^ 64"
  shows "\<exists>e1 w1. compact_front 0 (e, w) = (Inr (), (e1, w1)) \<and> recovers crc (e_path e) opts w1
    (\<lambda>k. if mt_lookup (e_mem e) k = None \<and> table_lookup (inputs ts e 0) k \<noteq> None then None else view now ts e k)"
proof -
  obtain tbl rs where s: "sys_ok tbl ts e w" "log_ok crc rs e w" using db by (rule db_okE)
  note sd = sys_okD [OF s(1)] and t = tree_okD [OF sys_okD(2) [OF s(1)]]
  let ?us = "others ts e 0"
  have weight: "32 + tables_weight ts < 2 ^ 32" "tables_weight ts < 2 ^ 32" using small by (simp_all add: load_def)
  obtain e1 d k where f: "compact_front 0 (e, w) = (Inr (), (e1, w\<lparr>w_disk := d, w_ticks := k\<rparr>))" "no_faults d"
    "files d (manifest_path (e_path e)) = Some (manifest_encode (e_manifest e))" "log_file crc rs d (default_wal_path (e_path e))"
    "\<forall>u \<in> set ts. files d (sst_path (e_path e) (tid u)) = (if tid u \<in> set (input_ids e 0) then None else Some (sst_bytes (snd u)))"
    "tidy (e_path e) d"
    by (rule compact_front_disk [OF s clk src weight(1) ids])
  let ?d = "w\<lparr>w_disk := d, w_ticks := k\<rparr>"
  have d: "w_disk ?d = d" "w_readdir ?d = w_readdir w" by simp_all
  obtain e' w' where r: "eng_open crc (e_path e) opts ?d = (Inr e', w')" "eng_ok (table_map ?us) (reloaded ?us) e'"
    "stored (reloaded ?us) e' = table_lookup ?us ++ replayed rs" "same_env ?d w'"
    using open_left [OF s(1) sh weight(2), of ?d crc rs opts, unfolded d, OF listing f(2-6)] by blast
  have al: "alike (replayed rs) (mt_lookup (e_mem e))" using s(2) by (simp add: log_ok_def)
  have low: "\<forall>j < 0. ssts_at_level (e_manifest e) j = []" and apart: "level_apart (e_manifest e) (0 + 1)" using t(3) by simp_all
  note look = compaction_lookup [OF sd(1) t(1,2) low apart]
  have deep: "table_lookup (deeper ts e 0) = Map.empty"
    by (simp only: deeper_def add_0 shallow_levels(3) [OF sh] list.size take_0) simp
  have lost: "(table_lookup ?us ++ mt_lookup (e_mem e)) k' =
      (if mt_lookup (e_mem e) k' = None \<and> table_lookup (inputs ts e 0) k' \<noteq> None then None else stored ts e k')" for k'
    using look(2) [of k'] deep by (auto simp: stored_def look(1) map_add_def split: option.splits)
  have "fst (eng_get k' (e', w')) =
      Inr (if mt_lookup (e_mem e) k' = None \<and> table_lookup (inputs ts e 0) k' \<noteq> None then None else view now ts e k')" for k'
    using r(4) clk by (simp add: eng_get_view [OF r(2)] view_def r(3) same_env_def alike_over [OF al] lost)
  then show ?thesis using f(1) r(1) unfolding recovers_def by blast
qed

text \<open>A database whose only entry is in a table of level 0.\<close>

lemma flushed_db:
  "\<exists>ts e w. db_ok crc ts e w \<and> shallow (e_manifest e) \<and> (\<forall>n. w_clock w n = 7) \<and> sound_listing (w_readdir w) \<and> ssts_at_level (e_manifest e) 0 \<noteq> [] \<and>
     32 + load ts e < 2 ^ 32 \<and> unat (e_next_sst e) + 1 < 2 ^ 64 \<and> mt_lookup (e_mem e) [1] = None \<and>
     table_lookup (inputs ts e 0) [1] \<noteq> None \<and> view 7 ts e [1] = Some [7]"
proof -
  obtain m where m: "mt_inv m" "mt_lookup m = Map.empty" "immutable m = None" "max_size m = 0"
    using mt_new_spec [of 0] by blast
  then have empty: "sl_contents (active m) = []" by (simp add: mt_lookup_settled)
  have "0 < size_of_skiplist" by (simp add: size_of_skiplist_def)
  then have pos: "0 < sl_size (active m)" using m(1) by (simp add: mt_inv_def sl_sized_def)
  obtain m1 where m1: "mt_put [1] [7] (m, 9) = Inr (m1, xorshift 9)" "mt_inv m1" "immutable m1 \<noteq> None"
    using mt_put_spec [OF m(1), of "[1]" "[7]" 9] m(3,4) pos by auto
  obtain l where l: "immutable m1 = Some l" "sl_contents (active m1) = []" "sl_contents l = [([1], [7])]"
    using mt_put_frozen [OF m(1,3), of "[1]" "[7]" 9] m1 empty by auto
  let ?e = "small_engine ''db'' manifest_new [] m" and ?w = "blank_world ''db'' 7" and ?es = "[([1], [7])] :: entry list"
  note bl = blank_ok [OF m(1,3) empty refl]
  obtain tbl where sys: "sys_ok tbl [] ?e ?w" using bl(1) [of crc "''db''" 7] by (rule db_okE)
  let ?e1 = "?e\<lparr>e_mem := m1\<rparr>"
  have sys1: "sys_ok tbl [] ?e1 ?w"
    using logged_sys [OF sys refl only_file_refl sys_okD(4) [OF sys] m1(2), of "e_metrics ?e" "w_rng ?w"] by simp
  have e1: "bw_buf (e_wal ?e1) = []" "immutable (e_mem ?e1) = Some l" "unat (e_next_sst ?e1) + 1 < 2 ^ 64" "e_opts ?e1 = default_options"
    "e_manifest ?e1 = manifest_new" "e_path ?e1 = ''db''"
    by (simp_all add: small_engine_def l(1))
  have short: "short_keys (sl_contents l)" "32 + tables_weight [] + weight (sl_contents l) < 2 ^ 32"
    using l(3) by (simp_all add: short_keys_def entry_weight_def)
  obtain bs d where f: "sst_good ?es bs" "sys_ok (tbl(e_next_sst ?e1 \<mapsto> bs)) [(flushed_meta ?e1 ?es, bs)] (flushed ?e1 ?es bs) (?w\<lparr>w_disk := d\<rparr>)"
    "files d (default_wal_path (e_path ?e1)) = Some []"
    using flush_start [OF sys1 e1(2,1) short e1(3)] by (auto simp: l(3))
  let ?f = "flushed ?e1 ?es bs" and ?t = "(flushed_meta ?e1 ?es, bs)"
  have fe: "e_mem ?f = m1\<lparr>immutable := None\<rparr>" "e_path ?f = ''db''" "bw_buf (e_wal ?f) = []" "e_opts ?f = default_options"
    "unat (e_next_sst ?f) + 1 < 2 ^ 64" "e_manifest ?f = add_sst 0 (flushed_meta ?e1 ?es) manifest_new"
    by (simp_all add: flushed_def small_engine_def)
  have mem: "mt_lookup (e_mem ?f) = Map.empty" by (simp add: fe(1) mt_lookup_settled l(2))
  have "log_ok crc [] ?f (?w\<lparr>w_disk := d\<rparr>)" using f(3) by (simp add: log_ok_def fe(2,3) e1(6) mem)
  moreover have "calm ?f" "o_sync_wal (e_opts ?f)" by (simp_all add: calm_def settled_def fe(1,4) l(2) default_options_def)
  ultimately have db: "db_ok crc [?t] ?f (?w\<lparr>w_disk := d\<rparr>)" using f(2) by (auto simp: db_ok_def)
  have lvl: "ssts_at_level (e_manifest ?f) 0 = [flushed_meta ?e1 ?es]" "ssts_at_level (e_manifest ?f) 1 = []"
    by (simp_all add: fe(6) ssts_at_level_add) (simp_all add: ssts_at_level_def manifest_new_def)
  have "view 7 [?t] ?f [1] = Some [7]"
    by (simp add: view_def stored_def mem tentries_good [OF f(1)] unpack_unprefixed unpack_inner_def unwrap_ttl_def tombstone_def)
  moreover have "table_lookup (inputs [?t] ?f 0) [1] \<noteq> None"
  proof -
    have "input_ids ?f 0 = map tid [?t]" using lvl(2) by (simp add: input_ids_def src_metas_def dst_metas_def lvl(1) tid_def)
    then have "inputs [?t] ?f 0 = [?t]" using tables_of_self [of "[?t]" "[?t]"] by (simp only: inputs_def) simp
    then show ?thesis by (simp add: tentries_good [OF f(1)])
  qed
  moreover have "32 + load [?t] ?f < 2 ^ 32" by (simp add: load_def fe(1) l(2) tentries_good [OF f(1)] entry_weight_def)
  moreover have "mt_lookup (e_mem ?f) [1] = None" "ssts_at_level (e_manifest ?f) 0 \<noteq> []" by (simp_all only: mem lvl) simp
  moreover have "\<forall>n. w_clock (?w\<lparr>w_disk := d\<rparr>) n = 7" "sound_listing (w_readdir (?w\<lparr>w_disk := d\<rparr>))" using bl(3,4) by simp_all
  moreover have "shallow (e_manifest ?f)" unfolding fe(6) by (simp add: shallow_def ssts_at_level_add) (simp add: ssts_at_level_def manifest_new_def)
  ultimately show ?thesis using db fe(5) by blast
qed

end
