(* ===== verification/Db.thy ===== *)
theory Db
  imports EngineClose
begin

text \<open>
  \<open>DB\<close>, the handle that threads share (\<open>src/engine.rs\<close>): an engine behind a mutex, counted by \<open>Arc\<close>. Every method
  takes the lock, unwraps the result, runs the engine's method and releases the lock. A panic while the lock is held
  poisons the mutex for good. The methods on keys are written as the sequences of steps at which threads interleave
  (\<open>Threads.thy\<close> runs them), and are shown to be the engine's methods under the lock when nobody interferes.
\<close>

subsection \<open>The handle\<close>

record db =
  db_engine :: engine
  db_poisoned :: bool
  db_handles :: nat

type_synonym 'a dprog = "(db \<times> world, 'a) prog"

definition poison_msg :: string where
  "poison_msg = ''called `Result::unwrap()` on an `Err` value: PoisonError { .. }''"

fun panics :: "'a res \<Rightarrow> bool" where
  "panics (Inl (Panic msg)) = True"
| "panics r = False"

subsection \<open>Method calls as sequences of steps\<close>

text \<open>
  A call of a method as a thread executes it. \<open>Lock\<close> waits for the mutex and unwraps the result, \<open>Act\<close> is a step of
  the engine's code on the engine and the world, which also tells how the code goes on, and \<open>Unlock\<close> drops the guard
  and returns (or unwinds, with the guard in scope). Nothing but \<open>Lock\<close> keeps the steps of two threads apart.
\<close>

datatype 'a script =
    Act "engine \<times> world \<Rightarrow> engine \<times> world" "engine \<times> world \<Rightarrow> 'a script"
  | Lock "'a script"
  | Unlock "'a res"

text \<open>One statement of an engine method; an error or a panic leaves the method, which drops the guard.\<close>

definition act :: "'b eprog \<Rightarrow> ('b \<Rightarrow> 'a script) \<Rightarrow> 'a script" where
  "act m k = Act (\<lambda>s. snd (m s)) (\<lambda>s. case fst (m s) of Inl f \<Rightarrow> Unlock (Inl f) | Inr x \<Rightarrow> k x)"

definition give :: "'a \<Rightarrow> 'a script" where
  "give x = Unlock (Inr x)"

text \<open>A loop over \<open>xs\<close> that goes on with \<open>k\<close>.\<close>

fun act_for :: "'x list \<Rightarrow> ('x \<Rightarrow> 'a script \<Rightarrow> 'a script) \<Rightarrow> 'a script \<Rightarrow> 'a script" where
  "act_for [] body k = k"
| "act_for (x # xs) body k = body x (act_for xs body k)"

text \<open>The call when no other thread runs in between.\<close>

primrec alone :: "'a script \<Rightarrow> 'a dprog" where
  "alone (Act f k) = (\<lambda>s. alone (k (db_engine (fst s), snd s))
     (case f (db_engine (fst s), snd s) of (e, w) \<Rightarrow> ((fst s)\<lparr>db_engine := e\<rparr>, w)))"
| "alone (Lock k) = (\<lambda>s. if db_poisoned (fst s) then (Inl (Panic poison_msg), s) else alone k s)"
| "alone (Unlock r) = (\<lambda>s. (r, ((fst s)\<lparr>db_poisoned := db_poisoned (fst s) \<or> panics r\<rparr>, snd s)))"

text \<open>\<open>self.inner.lock().unwrap()\<close> and a method of the guard in one step.\<close>

definition locked :: "'a eprog \<Rightarrow> 'a dprog" where
  "locked m = alone (Lock (act m give))"

text \<open>The statements of the engine methods that threads interleave at.\<close>

definition compact_script :: "'a script \<Rightarrow> 'a script" where
  "compact_script k =
     act (e_gets e_opts) (\<lambda>opts.
       act_for [0..<o_max_levels opts - 1] (\<lambda>level k.
         act (st_lift (level_threshold (o_l0_threshold opts) level)) (\<lambda>threshold.
         act (e_gets (\<lambda>e. length (ssts_at_level (e_manifest e) level))) (\<lambda>n.
           if n < threshold then k else act (compact_level level) (\<lambda>_. k)))) k)"

definition flush_script :: "'a script \<Rightarrow> 'a script" where
  "flush_script k =
     act (e_gets (\<lambda>e. mt_take_immutable (e_mem e))) (\<lambda>(imm, mem').
       case imm of
         None \<Rightarrow> k
       | Some l \<Rightarrow>
           act (e_modify (\<lambda>e. e\<lparr>e_mem := mem'\<rparr>)) (\<lambda>_.
           act next_sst_id (\<lambda>i.
           act (st_lift (sl_iter l)) (\<lambda>es.
             if es = [] then k
             else
               act (write_table i es) (\<lambda>r.
               let meta = sst_meta_new i 0 (fst (hd es)) (fst (last es)) in
               act (e_modify (\<lambda>e. e\<lparr>e_manifest := add_sst 0 meta (e_manifest e),
                                   e_readers := e_readers e @ [(meta, r)]\<rparr>)) (\<lambda>_.
               act save_manifest (\<lambda>_.
               act reset_wal (\<lambda>_.
               act (count_metric (\<lambda>m. m\<lparr>m_flushes := m_flushes m + 1\<rparr>)) (\<lambda>_.
                 compact_script k)))))))))"

definition write_script :: "(bufw \<times> disk, unit) prog \<Rightarrow> bytes \<Rightarrow> bytes \<Rightarrow> (metrics \<Rightarrow> metrics) \<Rightarrow> unit script" where
  "write_script log_it key encoded metric =
     act (on_wal log_it) (\<lambda>_.
     act (e_gets (\<lambda>e. o_sync_wal (e_opts e))) (\<lambda>sync.
     act (if sync then on_wal wal_flush else st_return ()) (\<lambda>_.
     act (mem_put key encoded) (\<lambda>_.
     act (count_metric metric) (\<lambda>_.
       flush_script (give ()))))))"

fun search_loop :: "(sst_meta \<times> reader) list \<Rightarrow> bytes \<Rightarrow> (bytes option \<Rightarrow> 'a script) \<Rightarrow> 'a script" where
  "search_loop [] key k = k None"
| "search_loop ((m, r) # rs) key k =
     act (on_cache (sst_get r key)) (\<lambda>hit.
       case hit of Some v \<Rightarrow> k (Some v) | None \<Rightarrow> search_loop rs key k)"

fun scan_loop :: "(sst_meta \<times> reader) list \<Rightarrow> bytes \<Rightarrow> bytes \<Rightarrow> entry list \<Rightarrow> (entry list \<Rightarrow> 'a script) \<Rightarrow> 'a script" where
  "scan_loop [] start end acc k = k acc"
| "scan_loop ((m, r) # rs) start end acc k =
     act (on_cache (SSTableReader.sst_iter r)) (\<lambda>es.
       scan_loop rs start end (bt_extend (filter (\<lambda>e. start \<le> fst e \<and> fst e < end) es) acc) k)"

subsection \<open>The methods\<close>

definition db_open_with_options :: "checksum \<Rightarrow> path \<Rightarrow> options \<Rightarrow> db wprog" where
  "db_open_with_options crc dir opts =
     st_bind (eng_open crc dir opts) (\<lambda>e. st_return \<lparr>db_engine = e, db_poisoned = False, db_handles = 1\<rparr>)"

definition db_open :: "checksum \<Rightarrow> path \<Rightarrow> db wprog" where
  "db_open crc dir =
     st_bind (eng_open_default crc dir) (\<lambda>e. st_return \<lparr>db_engine = e, db_poisoned = False, db_handles = 1\<rparr>)"

definition put_script :: "checksum \<Rightarrow> bytes \<Rightarrow> bytes \<Rightarrow> unit script" where
  "put_script crc key val =
     Lock (act take_seq (\<lambda>seq.
       let encoded = encode_with_seq val seq in
         write_script (wal_append crc key encoded) key encoded (\<lambda>m. m\<lparr>m_writes := m_writes m + 1\<rparr>)))"

definition db_put :: "checksum \<Rightarrow> bytes \<Rightarrow> bytes \<Rightarrow> unit dprog" where
  "db_put crc key val = alone (put_script crc key val)"

definition delete_script :: "checksum \<Rightarrow> bytes \<Rightarrow> unit script" where
  "delete_script crc key =
     Lock (act take_seq (\<lambda>seq.
       let encoded = encode_with_seq tombstone seq in
         write_script (wal_append_record crc \<lparr>rec_op = Delete, rec_key = key, rec_value = encoded\<rparr>) key encoded
           (\<lambda>m. m\<lparr>m_deletes := m_deletes m + 1\<rparr>)))"

definition db_delete :: "checksum \<Rightarrow> bytes \<Rightarrow> unit dprog" where
  "db_delete crc key = alone (delete_script crc key)"

definition get_script :: "bytes \<Rightarrow> bytes option script" where
  "get_script key =
     Lock (act (count_metric (\<lambda>m. m\<lparr>m_reads := m_reads m + 1\<rparr>)) (\<lambda>_.
       act (e_gets e_mem) (\<lambda>mem.
       act (st_lift (mt_get mem key)) (\<lambda>hit.
         case hit of
           Some v \<Rightarrow> act (unpack_now value_now unpack_value v) give
         | None \<Rightarrow>
             act (e_gets (\<lambda>e. rev (e_readers e))) (\<lambda>rs.
             search_loop rs key (\<lambda>found.
               case found of None \<Rightarrow> give None | Some v \<Rightarrow> act (unpack_now value_now unpack_value v) give))))))"

definition db_get :: "bytes \<Rightarrow> bytes option dprog" where
  "db_get key = alone (get_script key)"

definition scan_script :: "bytes \<Rightarrow> bytes \<Rightarrow> entry list script" where
  "scan_script start end =
     Lock (act (e_gets e_readers) (\<lambda>rs.
       scan_loop rs start end [] (\<lambda>older.
       act (e_gets e_mem) (\<lambda>mem.
       act (st_lift (mt_scan mem start end)) (\<lambda>es.
         act (on_world (visible_entries (bt_extend es older))) give)))))"

definition db_scan :: "bytes \<Rightarrow> bytes \<Rightarrow> entry list dprog" where
  "db_scan start end = alone (scan_script start end)"

definition db_prefix_scan :: "bytes \<Rightarrow> entry list dprog" where
  "db_prefix_scan pre = locked (eng_prefix_scan pre)"

definition db_write_batch :: "checksum \<Rightarrow> write_batch \<Rightarrow> unit dprog" where
  "db_write_batch crc b = locked (eng_write_batch crc b)"

definition db_snapshot :: "snapshot dprog" where
  "db_snapshot = locked (e_gets eng_snapshot)"

definition db_get_at :: "bytes \<Rightarrow> snapshot \<Rightarrow> bytes option dprog" where
  "db_get_at key snap = locked (eng_get_at key snap)"

definition put_with_ttl_script :: "checksum \<Rightarrow> bytes \<Rightarrow> bytes \<Rightarrow> u64 \<Rightarrow> unit script" where
  "put_with_ttl_script crc key val ttl =
     Lock (act (on_world now_secs) (\<lambda>now.
       act (st_lift (add_u64 now ttl)) (\<lambda>expiry.
       act take_seq (\<lambda>seq.
       let encoded = encode_with_seq (ttl_encode expiry val) seq in
         write_script (wal_append crc key encoded) key encoded (\<lambda>m. m\<lparr>m_writes := m_writes m + 1\<rparr>)))))"

definition db_put_with_ttl :: "checksum \<Rightarrow> bytes \<Rightarrow> bytes \<Rightarrow> u64 \<Rightarrow> unit dprog" where
  "db_put_with_ttl crc key val ttl = alone (put_with_ttl_script crc key val ttl)"

definition db_metrics :: "metrics dprog" where
  "db_metrics = locked (e_gets metrics_snapshot)"

text \<open>\<open>Clone\<close> and \<open>Drop\<close> of the \<open>Arc\<close>; the last handle drops the engine, whose writer flushes its buffer.\<close>

definition db_clone :: "db \<Rightarrow> db" where
  "db_clone s = s\<lparr>db_handles := db_handles s + 1\<rparr>"

definition db_drop :: "db \<times> world \<Rightarrow> db option \<times> world" where
  "db_drop = (\<lambda>(s, w).
     if db_handles s = 1 then (None, eng_drop (db_engine s) w) else (Some (s\<lparr>db_handles := db_handles s - 1\<rparr>), w))"

text \<open>\<open>close\<close> consumes its handle: with another one around it fails, else it takes the engine out of the mutex.\<close>

definition db_close :: "db \<times> world \<Rightarrow> unit res \<times> (db option \<times> world)" where
  "db_close = (\<lambda>(s, w).
     if db_handles s \<noteq> 1 then (Inl (Fail (Internal ''cannot close: other references exist'')), db_drop (s, w))
     else if db_poisoned s then (Inl (Panic poison_msg), (None, eng_drop (db_engine s) w))
     else (case eng_close (db_engine s) w of (r, w') \<Rightarrow> (r, (None, w'))))"

subsection \<open>What the lock gives\<close>

lemma st_bind_return: "st_bind m st_return = m"
  by (simp add: st_bind_def st_return_def fun_eq_iff split: prod.splits sum.splits)

lemma st_return_bind: "st_bind (st_return x) f = f x"
  by (simp add: fun_eq_iff)

lemma st_bind_if: "st_bind (if b then m else n) f = (if b then st_bind m f else st_bind n f)"
  by simp

lemmas monad_laws = st_bind_assoc st_bind_return st_return_bind st_bind_if
  option.case_distrib [of "\<lambda>m. st_bind m f" for f] prod.case_distrib [of "\<lambda>m. st_bind m f" for f]

text \<open>A script without \<open>Lock\<close>, and what it computes on the engine.\<close>

primrec lock_free :: "'a script \<Rightarrow> bool" where
  "lock_free (Act f k) \<longleftrightarrow> (\<forall>s. lock_free (k s))"
| "lock_free (Lock k) \<longleftrightarrow> False"
| "lock_free (Unlock r) \<longleftrightarrow> True"

primrec finish :: "'a script \<Rightarrow> 'a eprog" where
  "finish (Act f k) = (\<lambda>s. finish (k s) (f s))"
| "finish (Lock k) = finish k"
| "finish (Unlock r) = st_lift r"

lemma finish_act [simp]: "finish (act m k) = st_bind m (\<lambda>x. finish (k x))"
  by (auto simp: act_def st_bind_def st_lift_def fun_eq_iff split: prod.splits sum.splits)

lemma finish_give [simp]: "finish (give x) = st_return x"
  by (simp add: give_def st_lift_def st_return_def fun_eq_iff)

lemmas script_laws = if_distrib [of finish] option.case_distrib [of finish] prod.case_distrib [of finish]

lemma lock_free_act [simp]: "(\<And>x. lock_free (k x)) \<Longrightarrow> lock_free (act m k)"
  by (simp add: act_def split: sum.splits)

lemma lock_free_give [simp]: "lock_free (give x)"
  by (simp add: give_def)

lemma alone_finish:
  assumes "lock_free b"
  shows "alone b (d, w) = (case finish b (db_engine d, w) of
     (r, (e, w')) \<Rightarrow> (r, (d\<lparr>db_engine := e, db_poisoned := db_poisoned d \<or> panics r\<rparr>, w')))"
  using assms
proof (induction b arbitrary: d w)
  case (Act f k)
  obtain e w' where "f (db_engine d, w) = (e, w')" by fastforce
  then show ?case using Act.prems Act.IH [OF rangeI, of "(db_engine d, w)" "d\<lparr>db_engine := e\<rparr>" w'] by simp
qed (simp_all add: st_lift_def)

lemma locked_eq:
  "locked m (s, w) =
     (if db_poisoned s then (Inl (Panic poison_msg), (s, w))
      else (case m (db_engine s, w) of (r, (e, w')) \<Rightarrow> (r, (s\<lparr>db_engine := e, db_poisoned := panics r\<rparr>, w'))))"
  by (simp add: locked_def alone_finish monad_laws)

text \<open>A method that takes the lock first and holds it until it returns.\<close>

definition guarded :: "'a script \<Rightarrow> bool" where
  "guarded m \<longleftrightarrow> (\<exists>b. m = Lock b \<and> lock_free b)"

lemma alone_guarded: "guarded m \<Longrightarrow> alone m = locked (finish m)"
  by (auto simp: guarded_def locked_eq alone_finish fun_eq_iff)

text \<open>The scripts are the methods of the engine.\<close>

lemma lock_free_for [simp]: "(\<And>x k. lock_free k \<Longrightarrow> lock_free (body x k)) \<Longrightarrow> lock_free k \<Longrightarrow> lock_free (act_for xs body k)"
  by (induction xs) simp_all

lemma finish_for:
  "(\<And>x k. finish (body x k) = st_bind (m x) (\<lambda>_. finish k)) \<Longrightarrow> finish (act_for xs body k) = st_bind (st_for xs m) (\<lambda>_. finish k)"
  by (induction xs) (simp_all add: monad_laws)

lemma compact_script [simp]:
  "lock_free k \<Longrightarrow> lock_free (compact_script k)" "finish (compact_script k) = st_bind maybe_compact (\<lambda>_. finish k)"
proof -
  show "lock_free k \<Longrightarrow> lock_free (compact_script k)" by (simp add: compact_script_def)
  let ?m = "\<lambda>opts level. st_bind (st_lift (level_threshold (o_l0_threshold opts) level)) (\<lambda>threshold.
         st_bind (e_gets (\<lambda>e. length (ssts_at_level (e_manifest e) level))) (\<lambda>n.
           if n < threshold then st_return () else compact_level level))"
  have loop: "finish (act_for xs (\<lambda>level k.
         act (st_lift (level_threshold (o_l0_threshold opts) level)) (\<lambda>threshold.
         act (e_gets (\<lambda>e. length (ssts_at_level (e_manifest e) level))) (\<lambda>n.
           if n < threshold then k else act (compact_level level) (\<lambda>_. k)))) k) =
      st_bind (st_for xs (?m opts)) (\<lambda>_. finish k)" for xs opts
    by (rule finish_for) (simp add: script_laws monad_laws cong: if_cong)
  then show "finish (compact_script k) = st_bind maybe_compact (\<lambda>_. finish k)"
    by (simp only: compact_script_def maybe_compact_def finish_act loop st_bind_assoc)
qed

lemma flush_script [simp]:
  "lock_free k \<Longrightarrow> lock_free (flush_script k)" "finish (flush_script k) = st_bind maybe_flush (\<lambda>_. finish k)"
  by (auto simp: flush_script_def Let_def split: prod.splits option.splits intro!: lock_free_act)
    (simp add: flush_script_def maybe_flush_def script_laws monad_laws Let_def cong: if_cong option.case_cong prod.case_cong)

lemma write_script [simp]:
  "lock_free (write_script log_it key encoded metric)"
  "finish (write_script log_it key encoded metric) = log_and_apply log_it key encoded metric"
  by (simp add: write_script_def) (simp add: write_script_def log_and_apply_def monad_laws)

lemma search_loop [simp]:
  "(\<And>x. lock_free (k x)) \<Longrightarrow> lock_free (search_loop rs key k)"
  "finish (search_loop rs key k) = st_bind (search_tables rs key) (\<lambda>x. finish (k x))"
  by (induction rs key k rule: search_loop.induct) (auto simp: script_laws monad_laws split: option.splits intro!: lock_free_act)

lemma scan_loop [simp]:
  "(\<And>x. lock_free (k x)) \<Longrightarrow> lock_free (scan_loop rs start end acc k)"
  "finish (scan_loop rs start end acc k) = st_bind (scan_tables rs start end acc) (\<lambda>x. finish (k x))"
  by (induction rs start "end" acc k rule: scan_loop.induct) (simp_all add: monad_laws)

lemma scripts_guarded:
  "guarded (put_script crc key val)" "guarded (delete_script crc key)" "guarded (put_with_ttl_script crc key val ttl)"
  "guarded (get_script key)" "guarded (scan_script start end)"
  by (auto simp: guarded_def put_script_def delete_script_def put_with_ttl_script_def get_script_def scan_script_def Let_def
      intro!: lock_free_act search_loop(1) split: option.split)

lemma finish_scripts:
  "finish (put_script crc key val) = eng_put crc key val" "finish (delete_script crc key) = eng_delete crc key"
  "finish (put_with_ttl_script crc key val ttl) = eng_put_with_ttl crc key val ttl"
  "finish (get_script key) = eng_get key" "finish (scan_script start end) = eng_scan start end"
  by (simp_all add: put_script_def delete_script_def put_with_ttl_script_def scan_script_def Let_def monad_laws
      eng_put_def eng_delete_def eng_put_with_ttl_def eng_scan_def)
    (simp add: get_script_def eng_get_def monad_laws script_laws cong: option.case_cong)

lemma db_methods:
  "db_put crc key val = locked (eng_put crc key val)"
  "db_delete crc key = locked (eng_delete crc key)"
  "db_get key = locked (eng_get key)"
  "db_scan start end = locked (eng_scan start end)"
  "db_put_with_ttl crc key val ttl = locked (eng_put_with_ttl crc key val ttl)"
  by (simp_all add: db_put_def db_delete_def db_get_def db_scan_def db_put_with_ttl_def alone_guarded scripts_guarded finish_scripts)

lemma locked_ok:
  "\<not> db_poisoned s \<Longrightarrow> m (db_engine s, w) = (Inr x, (e, w')) \<Longrightarrow>
     locked m (s, w) = (Inr x, (s\<lparr>db_engine := e\<rparr>, w'))"
  by (simp add: locked_eq)

lemma locked_poisoned: "db_poisoned s \<Longrightarrow> locked m (s, w) = (Inl (Panic poison_msg), (s, w))"
  by (simp add: locked_eq)

text \<open>Poisoning is for good, and exactly a panic causes it.\<close>

lemma locked_poisons:
  assumes "locked m (s, w) = (r, (s', w'))"
  shows "db_poisoned s' \<longleftrightarrow> db_poisoned s \<or> panics r" "db_handles s' = db_handles s"
  using assms by (auto simp: locked_eq split: if_splits prod.splits)

end
