(* ===== verification/Threads.thy ===== *)
theory Threads
  imports Db
begin

text \<open>
  Threads that share a \<open>DB\<close> handle (\<open>src/engine.rs\<close>). Every thread runs the steps of its method calls, and the steps
  of all threads interleave freely: only the \<open>Lock\<close> of a method waits. That the body of a method runs as if nobody
  interfered is a theorem about the methods, and so is that every execution is a sequence of the methods of \<open>Db.thy\<close>.
\<close>

subsection \<open>Calls\<close>

fun call_script :: "checksum \<Rightarrow> call \<Rightarrow> answer script" where
  "call_script crc (Put_call k v) = map_script (\<lambda>_. Done) (put_script crc k v)"
| "call_script crc (Ttl_call k v ttl) = map_script (\<lambda>_. Done) (put_with_ttl_script crc k v ttl)"
| "call_script crc (Delete_call k) = map_script (\<lambda>_. Done) (delete_script crc k)"
| "call_script crc (Get_call k) = map_script Found (get_script k)"
| "call_script crc (Scan_call lo hi) = map_script Listed (scan_script lo hi)"

fun db_call :: "checksum \<Rightarrow> call \<Rightarrow> answer dprog" where
  "db_call crc (Put_call k v) = st_bind (db_put crc k v) (\<lambda>_. st_return Done)"
| "db_call crc (Ttl_call k v ttl) = st_bind (db_put_with_ttl crc k v ttl) (\<lambda>_. st_return Done)"
| "db_call crc (Delete_call k) = st_bind (db_delete crc k) (\<lambda>_. st_return Done)"
| "db_call crc (Get_call k) = st_bind (db_get k) (\<lambda>r. st_return (Found r))"
| "db_call crc (Scan_call lo hi) = st_bind (db_scan lo hi) (\<lambda>es. st_return (Listed es))"

lemma panics_map [simp]: "panics (map_sum id f r) = panics r"
  by (cases r rule: panics.cases) simp_all

lemma lock_free_map [simp]: "lock_free (map_script f b) = lock_free b"
  by (induction b) simp_all

lemma guarded_map: "guarded m \<Longrightarrow> guarded (map_script f m)"
  by (auto simp: guarded_def)

lemma alone_map: "alone (map_script f m) = st_bind (alone m) (\<lambda>x. st_return (f x))"
proof (induction m)
  case (Act g k)
  show ?case
  proof
    fix s
    show "alone (map_script f (script.Act g k)) s = st_bind (alone (script.Act g k)) (\<lambda>x. st_return (f x)) s"
      by (simp add: Act.IH [OF rangeI] st_bind_def)
  qed
next
  case (Unlock r)
  then show ?case by (cases r rule: panics.cases) (simp_all add: fun_eq_iff st_bind_def st_return_def)
qed (simp add: fun_eq_iff st_bind_def)

lemma call_script_guarded: "guarded (call_script crc c)"
  by (cases c) (simp_all add: guarded_map scripts_guarded)

lemma alone_call_script: "alone (call_script crc c) = db_call crc c"
  by (cases c) (simp_all add: alone_map db_put_def db_delete_def db_get_def db_scan_def db_put_with_ttl_def)

lemma locked_bind: "st_bind (locked m) (\<lambda>x. st_return (f x)) = locked (st_bind m (\<lambda>x. st_return (f x)))"
proof
  fix s :: "db \<times> world"
  obtain d w where s: "s = (d, w)" by (cases s)
  obtain r e w' where r: "m (db_engine d, w) = (r, (e, w'))" by (metis surj_pair)
  show "st_bind (locked m) (\<lambda>x. st_return (f x)) s = locked (st_bind m (\<lambda>x. st_return (f x))) s"
    by (cases r rule: panics.cases) (simp_all add: s locked_eq st_bind_def st_return_def r)
qed

lemma db_call_locked: "db_call crc c = locked (run_call crc c)"
  by (cases c) (simp_all add: db_methods locked_bind)

subsection \<open>Threads\<close>

text \<open>
  \<open>t_owner\<close> holds the mutex, \<open>t_active\<close> is the call that a thread is in with the rest of its steps, \<open>t_todo\<close> are the
  calls it has still to make and \<open>t_history\<close> the calls that have returned, in this order. A panic ends its thread.
\<close>

record threads =
  t_db :: db
  t_world :: world
  t_owner :: "nat option"
  t_active :: "nat \<Rightarrow> (call \<times> answer script) option"
  t_todo :: "nat \<Rightarrow> call list"
  t_history :: "(nat \<times> call \<times> answer res) list"

inductive thread_step :: "checksum \<Rightarrow> threads \<Rightarrow> threads \<Rightarrow> bool" for crc where
  Call: "t_active s t = None \<Longrightarrow> t_todo s t = c # cs \<Longrightarrow>
    thread_step crc s (s\<lparr>t_active := (t_active s)(t \<mapsto> (c, call_script crc c)), t_todo := (t_todo s)(t := cs)\<rparr>)"
| Lock: "t_active s t = Some (c, Lock k) \<Longrightarrow> t_owner s = None \<Longrightarrow> \<not> db_poisoned (t_db s) \<Longrightarrow>
    thread_step crc s (s\<lparr>t_owner := Some t, t_active := (t_active s)(t \<mapsto> (c, k))\<rparr>)"
| Poisoned: "t_active s t = Some (c, Lock k) \<Longrightarrow> t_owner s = None \<Longrightarrow> db_poisoned (t_db s) \<Longrightarrow>
    thread_step crc s (s\<lparr>t_active := (t_active s)(t := None), t_todo := (t_todo s)(t := []),
      t_history := t_history s @ [(t, c, Inl (Panic poison_msg))]\<rparr>)"
| Act: "t_active s t = Some (c, Act f k) \<Longrightarrow> f (db_engine (t_db s), t_world s) = (e, w) \<Longrightarrow>
    thread_step crc s (s\<lparr>t_db := (t_db s)\<lparr>db_engine := e\<rparr>, t_world := w,
      t_active := (t_active s)(t \<mapsto> (c, k (db_engine (t_db s), t_world s)))\<rparr>)"
| Unlock: "t_active s t = Some (c, Unlock r) \<Longrightarrow>
    thread_step crc s (s\<lparr>t_db := (t_db s)\<lparr>db_poisoned := db_poisoned (t_db s) \<or> panics r\<rparr>, t_owner := None,
      t_active := (t_active s)(t := None), t_todo := (t_todo s)(t := if panics r then [] else t_todo s t),
      t_history := t_history s @ [(t, c, r)]\<rparr>)"

inductive thread_run :: "checksum \<Rightarrow> threads \<Rightarrow> threads \<Rightarrow> bool" for crc where
  Start: "thread_run crc s s"
| Step: "thread_run crc s s' \<Longrightarrow> thread_step crc s' s'' \<Longrightarrow> thread_run crc s s''"

definition fresh_threads :: "db \<Rightarrow> world \<Rightarrow> (nat \<Rightarrow> call list) \<Rightarrow> threads" where
  "fresh_threads d w todo =
     \<lparr>t_db = d, t_world = w, t_owner = None, t_active = Map.empty, t_todo = todo, t_history = []\<rparr>"

text \<open>The sequential machine: one method after the other, no threads.\<close>

definition call_step :: "checksum \<Rightarrow> db \<times> world \<Rightarrow> nat \<times> call \<times> answer res \<Rightarrow> db \<times> world \<Rightarrow> bool" where
  "call_step crc s x s' \<longleftrightarrow> (case x of (t, c, r) \<Rightarrow> db_call crc c s = (r, s'))"

abbreviation calls_run :: "checksum \<Rightarrow> db \<times> world \<Rightarrow> (nat \<times> call \<times> answer res) list \<Rightarrow> db \<times> world \<Rightarrow> bool" where
  "calls_run crc \<equiv> runs (call_step crc)"

lemma calls_run_step: "calls_run crc s h s' \<Longrightarrow> db_call crc c s' = (r, s'') \<Longrightarrow> calls_run crc s (h @ [(t, c, r)]) s''"
  by (rule runs.Step) (simp_all add: call_step_def)

subsection \<open>Mutual exclusion\<close>

text \<open>
  A thread that is in a call and does not own the mutex still has its whole method before it. The state is the one that
  the returned calls leave, when nobody owns the mutex; else the owner is in its method, and what is left of it leads
  to where the whole method leads from the state that the returned calls leave.
\<close>

definition waiting :: "checksum \<Rightarrow> threads \<Rightarrow> nat \<Rightarrow> bool" where
  "waiting crc s t \<longleftrightarrow> (\<forall>c m. t_active s t = Some (c, m) \<longrightarrow> m = call_script crc c)"

definition exclusive :: "checksum \<Rightarrow> db \<times> world \<Rightarrow> threads \<Rightarrow> bool" where
  "exclusive crc s0 s \<longleftrightarrow> (\<exists>base. calls_run crc s0 (t_history s) base \<and>
     (case t_owner s of
        None \<Rightarrow> (t_db s, t_world s) = base \<and> (\<forall>t. waiting crc s t)
      | Some t \<Rightarrow> (\<exists>c b. t_active s t = Some (c, b) \<and> lock_free b \<and> alone b (t_db s, t_world s) = db_call crc c base) \<and>
          (\<forall>u. u \<noteq> t \<longrightarrow> waiting crc s u)))"

lemma exclusive_free:
  "t_owner s = None \<Longrightarrow>
     exclusive crc s0 s \<longleftrightarrow> calls_run crc s0 (t_history s) (t_db s, t_world s) \<and> (\<forall>t. waiting crc s t)"
  by (auto simp: exclusive_def)

lemma exclusive_held:
  assumes "t_owner s = Some t"
  shows "exclusive crc s0 s \<longleftrightarrow> (\<exists>base c b. calls_run crc s0 (t_history s) base \<and> t_active s t = Some (c, b) \<and> lock_free b \<and>
       alone b (t_db s, t_world s) = db_call crc c base \<and> (\<forall>u. u \<noteq> t \<longrightarrow> waiting crc s u))"
  unfolding exclusive_def assms option.case by blast

text \<open>A thread at a step of a body owns the mutex.\<close>

lemma exclusive_owner:
  assumes "exclusive crc s0 s" "t_active s t = Some (c, b)" "\<forall>k. b \<noteq> script.Lock k"
  shows "t_owner s = Some t"
proof (rule ccontr)
  assume "t_owner s \<noteq> Some t"
  then have "waiting crc s t"
  proof (cases "t_owner s")
    case None
    then show ?thesis using assms(1) exclusive_free by blast
  next
    case (Some u)
    then show ?thesis using assms(1) exclusive_held [OF Some] \<open>t_owner s \<noteq> Some t\<close> by auto
  qed
  then have "b = call_script crc c" using assms(2) by (simp add: waiting_def)
  then show False using call_script_guarded [of crc c] assms(3) by (auto simp: guarded_def)
qed

lemma exclusive_step:
  assumes "thread_step crc s s'" "exclusive crc s0 s"
  shows "exclusive crc s0 s'"
  using assms(1)
proof cases
  case (Call t c cs)
  have wait: "waiting crc s u \<Longrightarrow> waiting crc s' u" for u using Call(1) by (simp add: waiting_def)
  have same: "t_owner s' = t_owner s" "t_history s' = t_history s" "t_db s' = t_db s" "t_world s' = t_world s"
    "u \<noteq> t \<Longrightarrow> t_active s' u = t_active s u" for u using Call(1) by simp_all
  show ?thesis
  proof (cases "t_owner s")
    case None
    then show ?thesis using assms(2) wait unfolding exclusive_free [OF None] exclusive_free [of s', unfolded same, OF None] by blast
  next
    case (Some u)
    then obtain base c' b where h: "calls_run crc s0 (t_history s) base" "t_active s u = Some (c', b)" "lock_free b"
      "alone b (t_db s, t_world s) = db_call crc c' base" "\<forall>v. v \<noteq> u \<longrightarrow> waiting crc s v"
      using assms(2) exclusive_held [OF Some] by blast
    then have "u \<noteq> t" using Call(2) by auto
    then show ?thesis using h wait same exclusive_held [of s' u] Some by metis
  qed
next
  case (Lock t c k)
  then have b: "calls_run crc s0 (t_history s) (t_db s, t_world s)" "\<forall>t. waiting crc s t"
    using assms(2) exclusive_free by blast+
  have m: "call_script crc c = script.Lock k" using b(2) Lock(2) by (auto simp: waiting_def)
  then have "lock_free k" using call_script_guarded [of crc c] by (auto simp: guarded_def)
  moreover have "alone k (t_db s, t_world s) = db_call crc c (t_db s, t_world s)"
    using Lock(4) unfolding alone_call_script [symmetric] m by simp
  moreover have own: "t_owner s' = Some t" using Lock(1) by simp
  ultimately show ?thesis using b Lock(1) unfolding exclusive_held [OF own]
    by (intro exI [of _ "(t_db s, t_world s)"] exI [of _ c] exI [of _ k]) (simp add: waiting_def)
next
  case (Poisoned t c k)
  then have b: "calls_run crc s0 (t_history s) (t_db s, t_world s)" "\<forall>t. waiting crc s t"
    using assms(2) exclusive_free by blast+
  have m: "call_script crc c = script.Lock k" using b(2) Poisoned(2) by (auto simp: waiting_def)
  have "db_call crc c (t_db s, t_world s) = (Inl (Panic poison_msg), (t_db s, t_world s))"
    using Poisoned(4) unfolding alone_call_script [symmetric] m by simp
  moreover have "t_owner s' = None" using Poisoned(1,3) by simp
  ultimately show ?thesis using calls_run_step [OF b(1)] b(2) Poisoned(1) by (simp add: exclusive_free waiting_def)
next
  case (Act t c f k e w)
  then have own: "t_owner s = Some t" using exclusive_owner [OF assms(2)] by blast
  then obtain base where b: "calls_run crc s0 (t_history s) base" "lock_free (script.Act f k)"
    "alone (script.Act f k) (t_db s, t_world s) = db_call crc c base" "\<forall>u. u \<noteq> t \<longrightarrow> waiting crc s u"
    using assms(2) Act(2) by (auto simp: exclusive_held)
  have "lock_free (k (db_engine (t_db s), t_world s))" using b(2) by simp
  moreover have "alone (k (db_engine (t_db s), t_world s)) ((t_db s)\<lparr>db_engine := e\<rparr>, w) = db_call crc c base"
    using b(3) Act(3) by simp
  moreover have own': "t_owner s' = Some t" using own Act(1) by simp
  ultimately show ?thesis using b(1,4) Act(1) unfolding exclusive_held [OF own']
    by (intro exI [of _ base] exI [of _ c] exI [of _ "k (db_engine (t_db s), t_world s)"]) (simp add: waiting_def)
next
  case (Unlock t c r)
  then have own: "t_owner s = Some t" using exclusive_owner [OF assms(2)] by blast
  then obtain base where b: "calls_run crc s0 (t_history s) base"
    "alone (script.Unlock r) (t_db s, t_world s) = db_call crc c base" "\<forall>u. u \<noteq> t \<longrightarrow> waiting crc s u"
    using assms(2) Unlock(2) by (auto simp: exclusive_held)
  have "db_call crc c base = (r, ((t_db s)\<lparr>db_poisoned := db_poisoned (t_db s) \<or> panics r\<rparr>, t_world s))"
    using b(2) by simp
  moreover have "t_owner s' = None" using Unlock(1) by simp
  ultimately show ?thesis using calls_run_step [OF b(1)] b(3) Unlock(1) by (auto simp: exclusive_free waiting_def)
qed

lemma exclusive_run:
  assumes "thread_run crc s s'" "t_history s = []" "t_owner s = None" "t_active s = Map.empty"
  shows "exclusive crc (t_db s, t_world s) s'"
  using assms
proof (induction rule: thread_run.induct)
  case (Start s)
  then show ?case by (auto simp: exclusive_free waiting_def)
qed (use exclusive_step in blast)

text \<open>So the calls that have returned are a run of the sequential machine.\<close>

lemma exclusive_calls:
  assumes "exclusive crc s0 s"
  shows "\<exists>s1. calls_run crc s0 (t_history s) s1 \<and> (t_owner s = None \<longrightarrow> s1 = (t_db s, t_world s))"
  using assms unfolding exclusive_def by (cases "t_owner s") auto

text \<open>No deadlock: while a call is unfinished some thread can take a step.\<close>

lemma exclusive_progress:
  assumes "exclusive crc s0 s" "t_active s t \<noteq> None \<or> t_todo s t \<noteq> []"
  shows "\<exists>s'. thread_step crc s s'"
proof (cases "t_owner s")
  case None
  show ?thesis
  proof (cases "t_active s t")
    case (Some a)
    obtain c m where a: "a = (c, m)" by (cases a)
    have "m = call_script crc c" using assms(1) None Some unfolding exclusive_free [OF None] waiting_def a by blast
    then obtain k where "m = script.Lock k" using call_script_guarded [of crc c] by (auto simp: guarded_def)
    then show ?thesis using Some None a thread_step.Lock thread_step.Poisoned by metis
  next
    case none: None
    then show ?thesis using assms(2) thread_step.Call by (metis list.exhaust)
  qed
next
  case (Some u)
  then obtain c b where b: "t_active s u = Some (c, b)" "lock_free b" using assms(1) exclusive_held [OF Some] by blast
  show ?thesis
  proof (cases b)
    case (Act f k)
    then show ?thesis using b(1) thread_step.Act by (metis surj_pair)
  next
    case (Unlock r)
    then show ?thesis using b(1) thread_step.Unlock by metis
  qed (use b(2) in simp)
qed

subsection \<open>Program order\<close>

definition calls_of :: "nat \<Rightarrow> (nat \<times> call \<times> answer res) list \<Rightarrow> call list" where
  "calls_of t h = map (fst \<circ> snd) (filter (\<lambda>x. fst x = t) h)"

lemma calls_of_simps [simp]: "calls_of t [] = []" "calls_of t (h @ [(u, c, r)]) = calls_of t h @ (if u = t then [c] else [])"
  by (simp_all add: calls_of_def)

definition panicked :: "nat \<Rightarrow> (nat \<times> call \<times> answer res) list \<Rightarrow> bool" where
  "panicked t h \<longleftrightarrow> (\<exists>x \<in> set h. fst x = t \<and> panics (snd (snd x)))"

lemma panicked_simps [simp]:
  "panicked t [] \<longleftrightarrow> False" "panicked t (h @ [(u, c, r)]) \<longleftrightarrow> panicked t h \<or> u = t \<and> panics r"
  by (auto simp: panicked_def)

lemma panics_isl: "panics r \<Longrightarrow> isl r"
  by (cases r) auto

text \<open>The call that a thread is in.\<close>

definition current :: "threads \<Rightarrow> nat \<Rightarrow> call list" where
  "current s t = (case t_active s t of None \<Rightarrow> [] | Some (c, m) \<Rightarrow> [c])"

definition in_program_order :: "(nat \<Rightarrow> call list) \<Rightarrow> threads \<Rightarrow> nat \<Rightarrow> bool" where
  "in_program_order todo s t \<longleftrightarrow>
     (if panicked t (t_history s) then t_active s t = None \<and> t_todo s t = [] \<and> (\<exists>rest. todo t = calls_of t (t_history s) @ rest)
      else todo t = calls_of t (t_history s) @ current s t @ t_todo s t)"

lemma program_order_step: "thread_step crc s s' \<Longrightarrow> in_program_order todo s t \<Longrightarrow> in_program_order todo s' t"
  by (induction rule: thread_step.induct) (auto simp: in_program_order_def current_def split: if_splits)

lemma program_order_run:
  assumes "thread_run crc s s'" "t_history s = []" "t_active s = Map.empty"
  shows "in_program_order (t_todo s) s' t"
  using assms
proof (induction rule: thread_run.induct)
  case (Start s)
  then show ?case by (simp add: in_program_order_def current_def)
qed (use program_order_step in blast)

subsection \<open>A poisoned handle\<close>

text \<open>After a panic under the lock no thread acquires it again: every call fails and leaves the engine alone.\<close>

definition frozen :: "checksum \<Rightarrow> db \<Rightarrow> world \<Rightarrow> threads \<Rightarrow> bool" where
  "frozen crc d w s \<longleftrightarrow> t_db s = d \<and> t_world s = w \<and> t_owner s = None \<and> (\<forall>t. waiting crc s t) \<and>
     (\<forall>x \<in> set (t_history s). snd (snd x) = Inl (Panic poison_msg))"

lemma frozen_step:
  assumes "thread_step crc s s'" "db_poisoned d" "frozen crc d w s"
  shows "frozen crc d w s'"
proof -
  have lock: "\<exists>k. m = script.Lock k" if "t_active s t = Some (c, m)" for t c m
    using that assms(3) call_script_guarded [of crc c] by (auto simp: frozen_def waiting_def guarded_def)
  from assms(1) show ?thesis
  proof cases
    case (Act t c f k e w')
    then show ?thesis using lock by blast
  next
    case (Unlock t c r)
    then show ?thesis using lock by blast
  qed (use assms(2,3) in \<open>auto simp: frozen_def waiting_def\<close>)
qed

lemma thread_run_poisoned:
  assumes "thread_run crc s s'" "db_poisoned (t_db s)" "s = fresh_threads d w todo"
  shows "frozen crc d w s'"
  using assms
proof (induction rule: thread_run.induct)
  case (Start s)
  then show ?case by (simp add: frozen_def fresh_threads_def waiting_def)
next
  case (Step s s' s'')
  then show ?case using frozen_step [of crc s' s'' d w] by (simp add: fresh_threads_def)
qed

subsection \<open>Answers of a concurrent program\<close>

definition labels :: "(nat \<times> call \<times> answer res) list \<Rightarrow> label list" where
  "labels h = map (\<lambda>(t, c, r). label.Call c (projr r)) h"

lemma labels_simps [simp]: "labels [] = []" "labels (h @ [(t, c, r)]) = labels h @ [label.Call c (projr r)]"
  by (simp_all add: labels_def)

text \<open>Every call of the history met an engine on which it is allowed, and its TTL fits 64 bits.\<close>

definition calls_allowed :: "checksum \<Rightarrow> db \<times> world \<Rightarrow> (nat \<times> call \<times> answer res) list \<Rightarrow> bool" where
  "calls_allowed crc s h \<longleftrightarrow> (\<forall>h1 t c r h2 d w. h = h1 @ (t, c, r) # h2 \<longrightarrow> calls_run crc s h1 (d, w) \<longrightarrow>
     allowed (label.Call c Done) (db_engine d) \<and> expiry_ok (w_clock w (w_ticks w)) c)"

lemma calls_allowed_snoc:
  "calls_allowed crc s (h @ [(t, c, r)]) \<longleftrightarrow> calls_allowed crc s h \<and>
     (\<forall>d w. calls_run crc s h (d, w) \<longrightarrow> allowed (label.Call c Done) (db_engine d) \<and> expiry_ok (w_clock w (w_ticks w)) c)"
proof (intro iffI conjI; (elim conjE)?)
  assume a: "calls_allowed crc s (h @ [(t, c, r)])"
  show "calls_allowed crc s h" unfolding calls_allowed_def
  proof (intro allI impI)
    fix h1 u c' r' h2 d w assume "h = h1 @ (u, c', r') # h2" "calls_run crc s h1 (d, w)"
    then show "allowed (label.Call c' Done) (db_engine d) \<and> expiry_ok (w_clock w (w_ticks w)) c'"
      using a [unfolded calls_allowed_def, rule_format, of h1 u c' r' "h2 @ [(t, c, r)]" d w] by simp
  qed
  show "\<forall>d w. calls_run crc s h (d, w) \<longrightarrow> allowed (label.Call c Done) (db_engine d) \<and> expiry_ok (w_clock w (w_ticks w)) c"
    using a [unfolded calls_allowed_def, rule_format, of h t c r "[]"] by simp
next
  assume a: "calls_allowed crc s h"
    "\<forall>d w. calls_run crc s h (d, w) \<longrightarrow> allowed (label.Call c Done) (db_engine d) \<and> expiry_ok (w_clock w (w_ticks w)) c"
  show "calls_allowed crc s (h @ [(t, c, r)])" unfolding calls_allowed_def
  proof (intro allI impI)
    fix h1 u c' r' h2 d w assume b: "h @ [(t, c, r)] = h1 @ (u, c', r') # h2" "calls_run crc s h1 (d, w)"
    show "allowed (label.Call c' Done) (db_engine d) \<and> expiry_ok (w_clock w (w_ticks w)) c'"
    proof (cases h2 rule: rev_cases)
      case Nil
      then show ?thesis using b a(2) by simp
    next
      case (snoc h3 x)
      then have "h = h1 @ (u, c', r') # h3" using b(1) by simp
      then show ?thesis using b(2) a(1) unfolding calls_allowed_def by blast
    qed
  qed
qed

lemma calls_run_answers:
  assumes "calls_run crc s h s'" "\<not> db_poisoned (fst s)" "calls_allowed crc s h"
    and "sim crc (cost (labels h) + room) (db_engine (fst s), snd s) a"
  shows "\<exists>a'. spec_run a (labels h) a' \<and> sim crc room (db_engine (fst s'), snd s') a' \<and> \<not> db_poisoned (fst s') \<and>
    (\<forall>x \<in> set h. \<not> isl (snd (snd x)))"
  using assms
proof (induction arbitrary: room rule: runs.induct)
  case (Start s)
  then show ?case by (auto intro: runs.Start)
next
  case (Step s h s' x s'')
  obtain t c r d w now m where x: "x = (t, c, r)" "s' = (d, w)" by (metis surj_pair)
  have "sim crc (cost (labels h) + (call_cost c + room)) (db_engine (fst s), snd s) a"
    using Step.prems(3) by (simp add: x ac_simps)
  from Step.IH [OF Step.prems(1) _ this] Step.prems(2) obtain now m where a: "spec_run a (labels h) (now, m)"
    "sim crc (call_cost c + room) (db_engine d, w) (now, m)" "\<not> db_poisoned d" "\<forall>x \<in> set h. \<not> isl (snd (snd x))"
    by (auto simp: x calls_allowed_snoc)
  have clk: "w_clock w (w_ticks w) = now" using a(2) by (auto simp: sim_iff)
  have al: "allowed (label.Call c Done) (db_engine d)" "expiry_ok now c"
    using Step.prems(2) Step.hyps(1) unfolding x calls_allowed_snoc clk [symmetric] by blast+
  obtain ans e w' m' where r: "run_call crc c (db_engine d, w) = (Inr ans, (e, w'))"
    "spec_step (now, m) (label.Call c ans) (now, m')" "sim crc room (e, w') (now, m')"
    using sim_call [OF a(2) al] by blast
  have "r = Inr ans \<and> s'' = (d\<lparr>db_engine := e\<rparr>, w')"
    using Step.hyps(2) locked_ok [where m = "run_call crc c", OF a(3) r(1)] by (simp add: x call_step_def db_call_locked)
  then show ?case using a r(2,3) runs.Step [OF a(1) r(2)] by (intro exI [of _ "(now, m')"]) (simp add: x)
qed

subsection \<open>A run of two threads\<close>

definition sample_todo :: "nat \<Rightarrow> call list" where
  "sample_todo t = (if t = 0 then [Put_call [1] [2]] else if t = 1 then [Get_call [1]] else [])"

text \<open>The owner of the lock can go on to the end of its method.\<close>

lemma thread_rest:
  assumes "thread_run crc s0 s" "t_active s t = Some (c, b)" "lock_free b" "alone b (t_db s, t_world s) = (Inr a, (d, w))"
  shows "thread_run crc s0 (s\<lparr>t_db := d, t_world := w, t_owner := None, t_active := (t_active s)(t := None),
    t_history := t_history s @ [(t, c, Inr a)]\<rparr>)"
  using assms
proof (induction b arbitrary: s)
  case (Act f k)
  obtain e w' where f: "f (db_engine (t_db s), t_world s) = (e, w')" by fastforce
  let ?s = "s\<lparr>t_db := (t_db s)\<lparr>db_engine := e\<rparr>, t_world := w', t_active := (t_active s)(t \<mapsto> (c, k (db_engine (t_db s), t_world s)))\<rparr>"
  have run: "thread_run crc s0 ?s" using thread_run.Step [OF Act.prems(1) thread_step.Act [OF Act.prems(2) f]] .
  have "t_active ?s t = Some (c, k (db_engine (t_db s), t_world s))" "lock_free (k (db_engine (t_db s), t_world s))"
    "alone (k (db_engine (t_db s), t_world s)) (t_db ?s, t_world ?s) = (Inr a, (d, w))"
    using Act.prems(3,4) f by simp_all
  from Act.IH [OF rangeI run this] show ?case by (simp del: fun_upd_apply)
next
  case (Unlock r)
  have u: "r = Inr a" "d = t_db s" "w = t_world s" using Unlock.prems(4) by auto
  from thread_run.Step [OF Unlock.prems(1) thread_step.Unlock [OF Unlock.prems(2)]] show ?case using u by (simp del: fun_upd_apply)
qed simp

lemma thread_turn:
  assumes "thread_run crc s0 s" "t_active s t = Some (c, call_script crc c)" "t_owner s = None" "\<not> db_poisoned (t_db s)"
    and "run_call crc c (db_engine (t_db s), t_world s) = (Inr a, (e, w))"
  shows "thread_run crc s0 (s\<lparr>t_db := (t_db s)\<lparr>db_engine := e\<rparr>, t_world := w, t_owner := None, t_active := (t_active s)(t := None),
    t_history := t_history s @ [(t, c, Inr a)]\<rparr>)"
proof -
  obtain b where b: "call_script crc c = script.Lock b" "lock_free b" using call_script_guarded [of crc c] by (auto simp: guarded_def)
  let ?held = "s\<lparr>t_owner := Some t, t_active := (t_active s)(t \<mapsto> (c, b))\<rparr>"
  have run: "thread_run crc s0 ?held"
    using thread_run.Step [OF assms(1) thread_step.Lock [OF assms(2) [unfolded b(1)] assms(3,4)]] .
  have "alone (call_script crc c) (t_db s, t_world s) = (Inr a, ((t_db s)\<lparr>db_engine := e\<rparr>, w))"
    unfolding alone_call_script db_call_locked by (rule locked_ok [where m = "run_call crc c", OF assms(4,5)])
  then have "alone b (t_db ?held, t_world ?held) = (Inr a, ((t_db s)\<lparr>db_engine := e\<rparr>, w))" using assms(4) by (simp add: b(1))
  from thread_rest [OF run _ b(2) this, of t c] show ?thesis by simp
qed

text \<open>Both threads are in their calls before either has the lock.\<close>

lemma sample_threads:
  "\<exists>d w0 s. db_open_with_options crc ''db'' default_options (new_world 7) = (Inr d, w0) \<and>
     thread_run crc (fresh_threads d w0 sample_todo) s \<and>
     t_history s = [(0, Put_call [1] [2], Inr Done), (1, Get_call [1], Inr (Found (Some [2])))] \<and>
     calls_allowed crc (d, w0) (t_history s)"
proof -
  have room: "64 + (call_cost (Put_call [1] [2]) + 0) < (2 :: nat) ^ 32" by simp
  obtain e w0 where o: "eng_open crc ''db'' default_options (new_world 7) = (Inr e, w0)"
    "sim crc (call_cost (Put_call [1] [2]) + 0) (e, w0) (7, Map.empty)" "roomy (e_opts e) (e_manifest e)"
    by (rule new_engine [OF room])
  let ?d = "\<lparr>db_engine = e, db_poisoned = False, db_handles = 1\<rparr>"
  have d: "db_open_with_options crc ''db'' default_options (new_world 7) = (Inr ?d, w0)"
    using o(1) by (simp add: db_open_with_options_def st_bind_def st_return_def)
  obtain e1 w1 where p: "run_call crc (Put_call [1] [2]) (e, w0) = (Inr Done, (e1, w1))" "sim crc 0 (e1, w1) (7, [[1] \<mapsto> ([2], None)])"
    using sim_call [OF o(2), of Done] o(3) by (auto elim!: spec_putE simp: meaning_def tombstone_def)
  have "shown [[1] \<mapsto> ([2], None)] 7 [1] = Some [2]" by (simp add: shown_def)
  then obtain e2 w2 where "eng_get [1] (e1, w1) = (Inr (Some [2]), (e2, w2))" using sim_get [OF p(2), of "[1]"] by auto
  then have g: "run_call crc (Get_call [1]) (e1, w1) = (Inr (Found (Some [2])), (e2, w2))"
    using st_bind_done [of "eng_get [1]" _ _ _ Found] by simp
  let ?s0 = "fresh_threads ?d w0 sample_todo" and ?h = "[(0, Put_call [1] [2], Inr Done)] :: (nat \<times> call \<times> answer res) list"
  let ?m0 = "call_script crc (Put_call [1] [2])" and ?m1 = "call_script crc (Get_call [1])"
  let ?s1 = "?s0\<lparr>t_active := [0 \<mapsto> (Put_call [1] [2], ?m0)], t_todo := sample_todo(0 := [])\<rparr>"
  let ?s2 = "?s1\<lparr>t_active := [0 \<mapsto> (Put_call [1] [2], ?m0), 1 \<mapsto> (Get_call [1], ?m1)], t_todo := sample_todo(0 := [], 1 := [])\<rparr>"
  have "thread_step crc ?s0 ?s1"
    using thread_step.Call [of ?s0 0 "Put_call [1] [2]" "[]" crc] by (simp add: fresh_threads_def sample_todo_def del: call_script.simps)
  moreover have "thread_step crc ?s1 ?s2"
    using thread_step.Call [of ?s1 1 "Get_call [1]" "[]" crc] by (simp add: fresh_threads_def sample_todo_def del: call_script.simps)
  ultimately have run: "thread_run crc ?s0 ?s2" using thread_run.intros by blast
  let ?s3 = "?s2\<lparr>t_db := ?d\<lparr>db_engine := e1\<rparr>, t_world := w1, t_owner := None, t_active := (t_active ?s2)(0 := None), t_history := ?h\<rparr>"
  have run3: "thread_run crc ?s0 ?s3"
    using thread_turn [OF run, of 0 "Put_call [1] [2]" Done e1 w1] p(1)
    by (simp add: fresh_threads_def del: call_script.simps fun_upd_apply run_call.simps) simp
  have "\<exists>s4. thread_run crc ?s0 s4 \<and> t_history s4 = ?h @ [(1, Get_call [1], Inr (Found (Some [2])))]"
    using thread_turn [OF run3, of 1 "Get_call [1]" "Found (Some [2])" e2 w2] g
    by (fastforce simp: fresh_threads_def simp del: call_script.simps run_call.simps)
  then obtain s4 where s4: "thread_run crc ?s0 s4" "t_history s4 = ?h @ [(1, Get_call [1], Inr (Found (Some [2])))]" by blast
  have h1: "calls_allowed crc (?d, w0) ([] @ [(0, Put_call [1] [2], Inr Done)])"
    unfolding calls_allowed_snoc using o(3) by (simp add: calls_allowed_def)
  have "calls_allowed crc (?d, w0) (t_history s4)"
    unfolding s4(2) calls_allowed_snoc using h1 by simp
  then show ?thesis using d s4(1) s4(2) [unfolded append_Cons append_Nil]
    by (intro exI [of _ ?d] exI [of _ w0] exI [of _ s4] conjI) assumption+
qed

end
