(* ===== verification/Utf8.thy ===== *)
theory Utf8
  imports Errors
begin

text \<open>
  The text conversions of the standard library that the binaries use: \<open>str::from_utf8\<close>,
  \<open>String::from_utf8_lossy\<close> and the hexadecimal dump of a value. Strings are their UTF-8 bytes, one \<open>char\<close> per byte,
  so \<open>as_bytes\<close> is a change of type.
\<close>

definition as_bytes :: "string \<Rightarrow> bytes" where
  "as_bytes s = map (\<lambda>c. word_of_nat (of_char c)) s"

definition as_text :: "bytes \<Rightarrow> string" where
  "as_text bs = map (\<lambda>b. char_of (unat b)) bs"

lemma byte_char: "char_of (unat (word_of_nat (of_char c) :: u8)) = c" "word_of_nat (of_char (char_of (unat b))) = (b :: u8)"
proof -
  have "(of_char c :: nat) < 256" using range_nat_of_char by (metis atLeastLessThan_iff rangeI)
  then show "char_of (unat (word_of_nat (of_char c) :: u8)) = c"
    by (simp add: unat_of_nat take_bit_nat_eq_self)
  have "unat b < 256" using unat_u8_less [of b] by simp
  then show "word_of_nat (of_char (char_of (unat b))) = (b :: u8)"
    by (simp add: take_bit_nat_eq_self)
qed

lemma as_text_bytes [simp]: "as_text (as_bytes s) = s"
  by (simp add: as_text_def as_bytes_def comp_def byte_char(1))

lemma as_bytes_text [simp]: "as_bytes (as_text bs) = bs"
  by (simp add: as_text_def as_bytes_def comp_def byte_char(2))

subsection \<open>UTF-8\<close>

definition between :: "u8 \<Rightarrow> u8 \<Rightarrow> bytes \<Rightarrow> nat \<Rightarrow> bool" where
  "between lo hi bs i \<longleftrightarrow> i < length bs \<and> lo \<le> bs ! i \<and> bs ! i \<le> hi"

text \<open>The length of the first chunk and whether it is a character: a broken sequence is cut where the first byte
  does not fit.\<close>

definition second_ok :: "bytes \<Rightarrow> bool" where
  "second_ok bs =
     (let b = bs ! 0 in
      if b = 0xE0 then between 0xA0 0xBF bs 1
      else if b = 0xED then between 0x80 0x9F bs 1
      else if b = 0xF0 then between 0x90 0xBF bs 1
      else if b = 0xF4 then between 0x80 0x8F bs 1
      else between 0x80 0xBF bs 1)"

definition utf8_width :: "u8 \<Rightarrow> nat" where
  "utf8_width b =
     (if b < 0x80 then 1 else if 0xC2 \<le> b \<and> b \<le> 0xDF then 2
      else if 0xE0 \<le> b \<and> b \<le> 0xEF then 3 else if 0xF0 \<le> b \<and> b \<le> 0xF4 then 4 else 0)"

definition utf8_chunk :: "bytes \<Rightarrow> nat \<times> bool" where
  "utf8_chunk bs =
     (let n = utf8_width (bs ! 0) in
      if n = 1 then (1, True)
      else if n = 0 \<or> \<not> second_ok bs then (1, False)
      else if n = 2 then (2, True)
      else if \<not> between 0x80 0xBF bs 2 then (2, False)
      else if n = 3 then (3, True)
      else if \<not> between 0x80 0xBF bs 3 then (3, False)
      else (4, True))"

lemma utf8_chunk_pos: "0 < fst (utf8_chunk bs)"
  by (simp add: utf8_chunk_def Let_def)

function from_utf8_lossy :: "bytes \<Rightarrow> bytes" where
  "from_utf8_lossy bs =
     (if bs = [] then []
      else case utf8_chunk bs of
        (n, True) \<Rightarrow> take n bs @ from_utf8_lossy (drop n bs)
      | (n, False) \<Rightarrow> [0xEF, 0xBF, 0xBD] @ from_utf8_lossy (drop n bs))"
  by pat_completeness auto
termination
proof (relation "measure length")
  fix bs :: bytes and n ok
  assume "bs \<noteq> []" "(n, ok) = utf8_chunk bs"
  moreover from this have "0 < n" using utf8_chunk_pos [of bs] by (metis fst_conv)
  ultimately show "(drop n bs, bs) \<in> measure length" by (cases bs) auto
  then show "(drop n bs, bs) \<in> measure length" .
qed (use utf8_chunk_pos in \<open>force simp: length_greater_0_conv [symmetric] simp del: length_greater_0_conv\<close>)+

declare from_utf8_lossy.simps [simp del]

function utf8_valid :: "bytes \<Rightarrow> bool" where
  "utf8_valid bs =
     (if bs = [] then True
      else if snd (utf8_chunk bs) then utf8_valid (drop (fst (utf8_chunk bs)) bs) else False)"
  by pat_completeness auto
termination
  by (relation "measure length") (use utf8_chunk_pos in \<open>auto simp: length_greater_0_conv [symmetric] simp del: length_greater_0_conv\<close>)

declare utf8_valid.simps [simp del]

definition from_utf8 :: "bytes \<Rightarrow> string option" where
  "from_utf8 bs = (if utf8_valid bs then Some (as_text bs) else None)"

lemma utf8_valid_Nil [simp]: "utf8_valid []" "from_utf8_lossy [] = []"
  by (simp_all add: utf8_valid.simps [of "[]"] from_utf8_lossy.simps [of "[]"])

text \<open>A character is decided by its own bytes.\<close>

lemma utf8_chunk_local:
  assumes "utf8_chunk bs = (n, True)" "bs \<noteq> []"
  shows "n \<le> length bs" "utf8_chunk (take n bs @ r) = (n, True)"
proof -
  have n: "n \<in> {1, 2, 3, 4}" using assms(1) by (auto simp: utf8_chunk_def Let_def split: if_splits)
  have w: "utf8_width (bs ! 0) \<le> 4" by (simp add: utf8_width_def)
  have facts: "n = utf8_width (bs ! 0)" "2 \<le> n \<longrightarrow> second_ok bs" "3 \<le> n \<longrightarrow> between 0x80 0xBF bs 2"
    "4 \<le> n \<longrightarrow> between 0x80 0xBF bs 3"
    using assms(1) w by (auto simp: utf8_chunk_def Let_def split: if_splits)
  have second: "second_ok bs \<Longrightarrow> 1 < length bs" by (auto simp: second_ok_def between_def Let_def split: if_splits)
  have "n \<le> length bs" using n facts(2-4) second assms(2) by (cases bs) (auto simp: between_def Suc_le_eq)
  note len = this facts
  show "n \<le> length bs" by (rule len(1))
  have nth: "(take n bs @ r) ! i = bs ! i" if "i < n" for i using that len(1) by (simp add: nth_append)
  have zero: "(take n bs @ r) ! 0 = bs ! 0" using n nth by auto
  have bt: "between lo hi (take n bs @ r) i = between lo hi bs i" if "i < n" for lo hi i
    using nth [OF that] that len(1) by (simp add: between_def)
  have second: "2 \<le> n \<longrightarrow> second_ok (take n bs @ r)"
    using len(3) bt [of 1] unfolding second_ok_def zero Let_def by auto
  have width: "utf8_width ((take n bs @ r) ! 0) = n" by (simp only: zero len(2) [symmetric])
  have rest: "3 \<le> n \<longrightarrow> between 0x80 0xBF (take n bs @ r) 2" "4 \<le> n \<longrightarrow> between 0x80 0xBF (take n bs @ r) 3"
    using len(4,5) bt [of 2] bt [of 3] by auto
  show "utf8_chunk (take n bs @ r) = (n, True)"
    unfolding utf8_chunk_def width Let_def using n second rest by auto
qed

lemma from_utf8_lossy_valid: "utf8_valid (from_utf8_lossy bs)"
proof (induction bs rule: from_utf8_lossy.induct)
  case (1 bs)
  show ?case
  proof (cases "bs = []")
    case False
    obtain n ok where c: "utf8_chunk bs = (n, ok)" by (cases "utf8_chunk bs")
    show ?thesis
    proof (cases ok)
      case True
      then have chunk: "utf8_chunk bs = (n, True)" using c by simp
      let ?r = "from_utf8_lossy (drop n bs)"
      have "from_utf8_lossy bs = take n bs @ ?r" using False chunk by (simp add: from_utf8_lossy.simps [of bs])
      moreover have "length (take n bs) = n" using utf8_chunk_local(1) [OF chunk False] by simp
      ultimately show ?thesis
        using 1(1) [OF False chunk [symmetric] refl] utf8_chunk_local(2) [OF chunk False, of ?r]
        by (subst utf8_valid.simps) simp
    next
      case False': False
      then have chunk: "utf8_chunk bs = (n, False)" using c by simp
      let ?r = "from_utf8_lossy (drop n bs)"
      have "from_utf8_lossy bs = [0xEF, 0xBF, 0xBD] @ ?r" using False chunk by (simp add: from_utf8_lossy.simps [of bs])
      moreover have "utf8_chunk ([0xEF, 0xBF, 0xBD] @ ?r) = (3, True)"
        by (simp add: utf8_chunk_def utf8_width_def second_ok_def between_def)
      ultimately show ?thesis
        using 1(2) [OF False chunk [symmetric] refl] by (subst utf8_valid.simps) simp
    qed
  qed simp
qed

lemma from_utf8_lossy_id: "utf8_valid bs \<Longrightarrow> from_utf8_lossy bs = bs"
proof (induction bs rule: utf8_valid.induct)
  case (1 bs)
  show ?case
  proof (cases "bs = []")
    case False
    obtain n where c: "utf8_chunk bs = (n, True)" using 1(2) False by (cases "utf8_chunk bs") (simp add: utf8_valid.simps [of bs] split: if_splits)
    have "utf8_valid (drop n bs)" using 1(2) False c by (simp add: utf8_valid.simps [of bs])
    then have "from_utf8_lossy (drop n bs) = drop n bs" using 1(1) False c by simp
    then show ?thesis using False c by (simp add: from_utf8_lossy.simps [of bs])
  qed simp
qed

subsection \<open>Hexadecimal dumps\<close>

text \<open>\<open>format!("{:02x}", b)\<close> joined by spaces\<close>

fun join_space :: "string list \<Rightarrow> string" where
  "join_space [] = []"
| "join_space [s] = s"
| "join_space (s # ss) = s @ '' '' @ join_space ss"

definition hex_dump :: "bytes \<Rightarrow> string" where
  "hex_dump bs = join_space (map (\<lambda>b. hex 2 (unat b)) bs)"

lemma hex_dump_Cons:
  "hex_dump (b # bs) = hex 2 (unat b) @ (if bs = [] then [] else '' '' @ hex_dump bs)"
  by (cases bs) (simp_all add: hex_dump_def)

lemma length_hex_dump: "length (hex_dump bs) = 3 * length bs - 1"
proof (induction bs)
  case (Cons b bs)
  then show ?case by (cases bs) (simp_all add: hex_dump_Cons)
qed (simp add: hex_dump_def)

lemma hex_dump_inject: "hex_dump bs = hex_dump cs \<longleftrightarrow> bs = cs"
proof
  assume "hex_dump bs = hex_dump cs"
  then show "bs = cs"
  proof (induction bs arbitrary: cs)
    case Nil
    then have "3 * length cs - 1 = 0" using length_hex_dump [of cs] by (simp add: hex_dump_def)
    then show ?case by (cases cs) auto
  next
    case (Cons b bs)
    have len: "3 * length cs - 1 = 3 * length (b # bs) - 1" using length_hex_dump Cons.prems by metis
    then obtain c cs' where cs: "cs = c # cs'" by (cases cs) auto
    have eq: "hex 2 (unat b) = hex 2 (unat c)"
      "(if bs = [] then [] else '' '' @ hex_dump bs) = (if cs' = [] then [] else '' '' @ hex_dump cs')"
      using Cons.prems [unfolded cs hex_dump_Cons]
        append_eq_append_conv [of "hex 2 (unat b)" "hex 2 (unat c)"] by (simp_all only: length_hex) blast+
    have "b = c" using hex_inject [of "unat b" 2 "unat c"] eq(1) unat_u8_less [of b] unat_u8_less [of c]
      by (simp add: word_unat_eq_iff)
    moreover have "bs = cs'" using eq(2) Cons.IH [of cs'] by (simp split: if_splits)
    ultimately show ?case using cs by simp
  qed
qed simp

end
