(* ===== verification/Cli.thy ===== *)
theory Cli
  imports Db Utf8
begin

text \<open>
  The command line client (\<open>src/bin/cli.rs\<close>). A run takes the
  process arguments, program name first, and the world, and leaves the lines on both streams, how the process ended,
  and the world. \<open>took\<close> is the text of an elapsed time; \<open>show_key\<close> is the rendering of a key in an error.
  \<open>process::exit\<close> runs no destructors; a return and a panic drop the handle.
\<close>

record streams =
  out :: "string list"
  err :: "string list"

datatype ending = Returned | Exited nat | Faulted fault

definition usage :: "string list" where
  "usage = [
     ''Usage: kv-cli <db-path> <command> [args...]'',
     '''',
     ''Commands:'',
     ''  put <key> <value>         Write a key-value pair'',
     ''  get <key>                 Read the value for a key'',
     ''  delete <key>              Delete a key'',
     ''  scan <start> <end>        Scan keys in [start, end) range'',
     ''  batch put k1 v1 put k2 v2 ...  Atomic batch write'',
     ''  stats                     Show database metrics'',
     '''',
     ''Examples:'',
     ''  kv-cli ./mydb put name rust'',
     ''  kv-cli ./mydb get name'',
     ''  kv-cli ./mydb scan a z'']"

definition fail_with :: "string list \<Rightarrow> world \<Rightarrow> (streams \<times> ending) \<times> world" where
  "fail_with msgs w = ((\<lparr>out = [], err = msgs\<rparr>, Exited 1), w)"

text \<open>The end of a command: \<open>unwrap_or_else\<close> with the error message and exit, or the lines of a success.\<close>

definition conclude :: "(bytes \<Rightarrow> string) \<Rightarrow> 'a res \<times> (db \<times> world) \<Rightarrow> ('a \<Rightarrow> streams) \<Rightarrow> (streams \<times> ending) \<times> world" where
  "conclude show_key res f =
     (case res of
        (Inr x, s) \<Rightarrow> ((f x, Returned), snd (db_drop s))
      | (Inl (Fail e), s) \<Rightarrow> fail_with [''Error: '' @ display show_key e] (snd s)
      | (Inl ft, s) \<Rightarrow> ((\<lparr>out = [], err = []\<rparr>, Faulted ft), snd (db_drop s)))"

definition say :: "string list \<Rightarrow> streams" where
  "say ls = \<lparr>out = ls, err = []\<rparr>"

definition in_parens :: "string \<Rightarrow> string" where
  "in_parens s = ''('' @ s @ '')''"

definition show_found :: "string \<Rightarrow> bytes option \<Rightarrow> streams" where
  "show_found took r =
     say [(case r of
             Some value \<Rightarrow> (case from_utf8 value of Some s \<Rightarrow> s | None \<Rightarrow> hex_dump value)
           | None \<Rightarrow> ''(nil)'') @ '' '' @ in_parens took]"

definition show_scan :: "string \<Rightarrow> entry list \<Rightarrow> streams" where
  "show_scan took es =
     \<lparr>out = map (\<lambda>(k, v). as_text (from_utf8_lossy k) @ '' = '' @ as_text (from_utf8_lossy v)) es,
      err = [''('' @ dec (length es) @ '' results, '' @ took @ '')'']\<rparr>"

definition show_stats :: "metrics \<Rightarrow> streams" where
  "show_stats m = say [
     ''Writes:       '' @ dec (unat (m_writes m)),
     ''Reads:        '' @ dec (unat (m_reads m)),
     ''Deletes:      '' @ dec (unat (m_deletes m)),
     ''Compactions:  '' @ dec (unat (m_compactions m)),
     ''Flushes:      '' @ dec (unat (m_flushes m))]"

text \<open>The loop \<open>while i + 2 < args.len()\<close> over the arguments after the command.\<close>

fun batch_args :: "string list \<Rightarrow> write_batch \<Rightarrow> string + write_batch" where
  "batch_args (op # a # b # rest) acc =
     (if op = ''put'' then batch_args rest (batch_put (as_bytes a) (as_bytes b) acc)
      else if op = ''delete'' then batch_args (b # rest) (batch_delete (as_bytes a) acc)
      else Inl op)"
| "batch_args _ acc = Inr acc"

definition cli_command ::
  "checksum \<Rightarrow> (bytes \<Rightarrow> string) \<Rightarrow> string \<Rightarrow> string \<Rightarrow> string list \<Rightarrow> db \<times> world \<Rightarrow> (streams \<times> ending) \<times> world" where
  "cli_command crc show_key took command args s =
     (if command = ''put'' then
        (case args of
           key # value # _ \<Rightarrow> conclude show_key (db_put crc (as_bytes key) (as_bytes value) s) (\<lambda>_. say [''OK '' @ in_parens took])
         | _ \<Rightarrow> fail_with [''Usage: kv-cli <db-path> put <key> <value>''] (snd s))
      else if command = ''get'' then
        (case args of
           key # _ \<Rightarrow> conclude show_key (db_get (as_bytes key) s) (show_found took)
         | _ \<Rightarrow> fail_with [''Usage: kv-cli <db-path> get <key>''] (snd s))
      else if command = ''delete'' then
        (case args of
           key # _ \<Rightarrow> conclude show_key (db_delete crc (as_bytes key) s) (\<lambda>_. say [''OK '' @ in_parens took])
         | _ \<Rightarrow> fail_with [''Usage: kv-cli <db-path> delete <key>''] (snd s))
      else if command = ''scan'' then
        (case args of
           start # end # _ \<Rightarrow> conclude show_key (db_scan (as_bytes start) (as_bytes end) s) (show_scan took)
         | _ \<Rightarrow> fail_with [''Usage: kv-cli <db-path> scan <start> <end>''] (snd s))
      else if command = ''stats'' then conclude show_key (db_metrics s) show_stats
      else if command = ''batch'' then
        (case batch_args args batch_new of
           Inl other \<Rightarrow> fail_with [''Unknown batch op: '' @ other] (snd s)
         | Inr b \<Rightarrow> conclude show_key (db_write_batch crc b s)
             (\<lambda>_. say [''OK: '' @ dec (batch_len b) @ '' ops '' @ in_parens took]))
      else fail_with ((''Unknown command: '' @ command) # usage) (snd s))"

definition cli_main ::
  "checksum \<Rightarrow> (bytes \<Rightarrow> string) \<Rightarrow> string \<Rightarrow> string list \<Rightarrow> world \<Rightarrow> (streams \<times> ending) \<times> world" where
  "cli_main crc show_key took args w =
     (case args of
        prog # db_path # command # rest \<Rightarrow>
          (case db_open_with_options crc db_path default_options w of
             (Inl (Fail e), w') \<Rightarrow> fail_with [''Error opening database: '' @ display show_key e] w'
           | (Inl ft, w') \<Rightarrow> ((\<lparr>out = [], err = []\<rparr>, Faulted ft), w')
           | (Inr d, w') \<Rightarrow> cli_command crc show_key took command rest (d, w'))
      | _ \<Rightarrow> fail_with usage w)"

subsection \<open>The batch arguments\<close>

text \<open>How a user writes a batch down.\<close>

fun op_words :: "batch_op \<Rightarrow> string list" where
  "op_words (BPut key val) = [''put'', as_text key, as_text val]"
| "op_words (BDelete key) = [''delete'', as_text key]"

fun is_delete :: "batch_op \<Rightarrow> bool" where
  "is_delete (BDelete key) = True"
| "is_delete (BPut key val) = False"

text \<open>What the loop takes: a deletion that stands last is cut off by the bound of the loop.\<close>

definition taken :: "batch_op list \<Rightarrow> batch_op list" where
  "taken ops = (if ops \<noteq> [] \<and> is_delete (last ops) then butlast ops else ops)"

lemma taken_Cons: "ops \<noteq> [] \<Longrightarrow> taken (op # ops) = op # taken ops"
  by (simp add: taken_def)

lemma op_words_start: "ops \<noteq> [] \<Longrightarrow> \<exists>x y zs. concat (map op_words ops) = x # y # zs"
  by (cases ops; cases "hd ops") auto

lemma batch_args_words:
  "batch_args (concat (map op_words ops)) b = Inr (b\<lparr>wb_ops := wb_ops b @ taken ops\<rparr>)"
proof (induction ops arbitrary: b)
  case Nil
  then show ?case by (simp add: taken_def)
next
  case (Cons op ops)
  show ?case
  proof (cases op)
    case (BPut key val)
    have "taken (op # ops) = op # taken ops" using BPut by (cases ops) (simp_all add: taken_def)
    then show ?thesis using BPut Cons.IH by (simp add: batch_put_def)
  next
    case (BDelete key)
    show ?thesis
    proof (cases "ops = []")
      case True
      then show ?thesis using BDelete by (simp add: taken_def)
    next
      case False
      obtain x y zs where w: "concat (map op_words ops) = x # y # zs" using op_words_start [OF False] by blast
      have "batch_args (x # y # zs) (batch_delete key b) =
          Inr ((batch_delete key b)\<lparr>wb_ops := wb_ops (batch_delete key b) @ taken ops\<rparr>)"
        using Cons.IH [of "batch_delete key b"] by (simp only: w)
      then show ?thesis using BDelete w taken_Cons [OF False] by (simp add: batch_delete_def)
    qed
  qed
qed

text \<open>An operation that is neither is reported; what came before is not written.\<close>

lemma batch_args_unknown:
  "op \<noteq> ''put'' \<Longrightarrow> op \<noteq> ''delete'' \<Longrightarrow> \<forall>o' \<in> set ops. \<not> is_delete o' \<Longrightarrow>
     batch_args (concat (map op_words ops) @ op # a # c # rest) b = Inl op"
proof (induction ops arbitrary: b)
  case (Cons o' ops)
  then show ?case by (cases o') auto
qed simp

end
