(* ===== verification/Http.thy ===== *)
theory Http
  imports Cli
begin

text \<open>
  The management interface (\<open>src/http/handler.rs\<close> and the numbers of \<open>src/http/dashboard.rs\<close>): what every route
  does to the shared handle and what it answers. The routing of a path to its handler, the JSON text of a response
  and the HTML around the numbers of the dashboard belong to axum, serde and the embedded template; a response is the
  value that is serialised. \<open>up\<close> is the time since the start of the server in seconds. A panic in a handler ends its
  task: the client gets no response.
\<close>

subsection \<open>Responses\<close>

record health_response =
  h_status :: string
  h_version :: string
  h_uptime_secs :: u64

record stats_response =
  st_sst_count :: nat
  st_memtable_size :: nat

record kv_response =
  kv_found :: bool
  kv_key :: string
  kv_value :: "string option"
  kv_value_hex :: "string option"

record action_response =
  ac_success :: bool
  ac_message :: string

text \<open>What the page of the dashboard shows.\<close>

record page =
  pg_uptime :: string
  pg_metrics :: metrics

definition uptime_text :: "u64 \<Rightarrow> string" where
  "uptime_text uptime_secs =
     (let days = uptime_secs div 86400; hours = (uptime_secs mod 86400) div 3600;
          mins = (uptime_secs mod 3600) div 60; secs = uptime_secs mod 60 in
      if 0 < days then dec (unat days) @ ''d '' @ dec (unat hours) @ ''h '' @ dec (unat mins) @ ''m '' @ dec (unat secs) @ ''s''
      else if 0 < hours then dec (unat hours) @ ''h '' @ dec (unat mins) @ ''m '' @ dec (unat secs) @ ''s''
      else dec (unat mins) @ ''m '' @ dec (unat secs) @ ''s'')"

definition render :: "u64 \<Rightarrow> metrics \<Rightarrow> page" where
  "render uptime_secs m = \<lparr>pg_uptime = uptime_text uptime_secs, pg_metrics = m\<rparr>"

datatype body =
    Page_body page
  | Health_body health_response
  | Metrics_body metrics
  | Stats_body stats_response
  | Kv_body kv_response
  | Action_body action_response

datatype reply = Answer body | Status nat | No_answer fault

text \<open>A handler leaves its reply, the lines it writes to the error stream, and the shared state.\<close>

type_synonym handler = "db \<times> world \<Rightarrow> (reply \<times> string list) \<times> (db \<times> world)"

subsection \<open>The handlers\<close>

text \<open>The \<open>match\<close> of the handlers on a database result: \<open>Ok\<close> is answered, \<open>Err\<close> is logged and becomes status 500.\<close>

definition answer_or_500 :: "(bytes \<Rightarrow> string) \<Rightarrow> string \<Rightarrow> ('a \<Rightarrow> body) \<Rightarrow> 'a dprog \<Rightarrow> handler" where
  "answer_or_500 show_key what f m s =
     (case m s of
        (Inr x, s') \<Rightarrow> ((Answer (f x), []), s')
      | (Inl (Fail e), s') \<Rightarrow> ((Status 500, [what @ '' error: '' @ display show_key e]), s')
      | (Inl ft, s') \<Rightarrow> ((No_answer ft, []), s'))"

text \<open>\<open>metrics\<close> of the handle is not a \<open>Result\<close>; only a poisoned lock keeps it from returning.\<close>

definition http_index :: "u64 \<Rightarrow> handler" where
  "http_index up s =
     (case db_metrics s of
        (Inr m, s') \<Rightarrow> ((Answer (Page_body (render up m)), []), s')
      | (Inl ft, s') \<Rightarrow> ((No_answer ft, []), s'))"

definition http_health :: "u64 \<Rightarrow> handler" where
  "http_health up s =
     ((Answer (Health_body \<lparr>h_status = ''ok'', h_version = ''0.1.0'', h_uptime_secs = up\<rparr>), []), s)"

definition http_metrics :: handler where
  "http_metrics s =
     (case db_metrics s of
        (Inr m, s') \<Rightarrow> ((Answer (Metrics_body m), []), s')
      | (Inl ft, s') \<Rightarrow> ((No_answer ft, []), s'))"

definition http_stats :: handler where
  "http_stats s = ((Answer (Stats_body \<lparr>st_sst_count = 0, st_memtable_size = 0\<rparr>), []), s)"

definition kv_found_or_not :: "string \<Rightarrow> bytes option \<Rightarrow> body" where
  "kv_found_or_not key r =
     Kv_body (case r of
         Some val \<Rightarrow> \<lparr>kv_found = True, kv_key = key, kv_value = Some (as_text (from_utf8_lossy val)),
           kv_value_hex = Some (hex_dump val)\<rparr>
       | None \<Rightarrow> \<lparr>kv_found = False, kv_key = key, kv_value = None, kv_value_hex = None\<rparr>)"

definition http_get :: "(bytes \<Rightarrow> string) \<Rightarrow> string \<Rightarrow> handler" where
  "http_get show_key key = answer_or_500 show_key ''get'' (kv_found_or_not key) (db_get (as_bytes key))"

definition http_put :: "checksum \<Rightarrow> (bytes \<Rightarrow> string) \<Rightarrow> string \<Rightarrow> string \<Rightarrow> handler" where
  "http_put crc show_key key val =
     answer_or_500 show_key ''put''
       (\<lambda>_. Action_body \<lparr>ac_success = True,
          ac_message = ''OK: wrote '' @ dec (length (as_bytes val)) @ '' bytes to '' @ [CHR 0x27] @ key @ [CHR 0x27]\<rparr>)
       (db_put crc (as_bytes key) (as_bytes val))"

definition http_delete :: "checksum \<Rightarrow> (bytes \<Rightarrow> string) \<Rightarrow> string \<Rightarrow> handler" where
  "http_delete crc show_key key =
     answer_or_500 show_key ''delete''
       (\<lambda>_. Action_body \<lparr>ac_success = True, ac_message = ''OK: deleted '' @ [CHR 0x27] @ key @ [CHR 0x27]\<rparr>)
       (db_delete crc (as_bytes key))"

definition http_compact :: handler where
  "http_compact s =
     ((Answer (Action_body \<lparr>ac_success = True, ac_message = ''compaction is triggered automatically on flush''\<rparr>), []), s)"

subsection \<open>The routes\<close>

datatype request = GetIndex | GetHealth | GetMetrics | GetStats | GetKey string | PutKey string string | DeleteKey string | PostCompact

fun route :: "request \<Rightarrow> string \<times> string" where
  "route GetIndex = (''GET'', ''/'')"
| "route GetHealth = (''GET'', ''/api/health'')"
| "route GetMetrics = (''GET'', ''/api/metrics'')"
| "route GetStats = (''GET'', ''/api/stats'')"
| "route (GetKey key) = (''GET'', ''/api/get/'' @ key)"
| "route (PutKey key val) = (''POST'', ''/api/put'')"
| "route (DeleteKey key) = (''POST'', ''/api/delete/'' @ key)"
| "route PostCompact = (''POST'', ''/api/compact'')"

fun serve :: "checksum \<Rightarrow> (bytes \<Rightarrow> string) \<Rightarrow> u64 \<Rightarrow> request \<Rightarrow> handler" where
  "serve crc show_key up GetIndex = http_index up"
| "serve crc show_key up GetHealth = http_health up"
| "serve crc show_key up GetMetrics = http_metrics"
| "serve crc show_key up GetStats = http_stats"
| "serve crc show_key up (GetKey key) = http_get show_key key"
| "serve crc show_key up (PutKey key val) = http_put crc show_key key val"
| "serve crc show_key up (DeleteKey key) = http_delete crc show_key key"
| "serve crc show_key up PostCompact = http_compact"

subsection \<open>What the routes promise\<close>

text \<open>The uptime is split without loss.\<close>

lemma uptime_parts:
  fixes u :: u64
  shows "unat u = unat (u div 86400) * 86400 + unat ((u mod 86400) div 3600) * 3600 + unat ((u mod 3600) div 60) * 60 + unat (u mod 60)"
proof -
  have split: "n = n div 86400 * 86400 + n mod 86400 div 3600 * 3600 + n mod 3600 div 60 * 60 + n mod 60" for n :: nat
  proof -
    have "n mod 3600 = n mod 86400 mod 3600" "n mod 60 = n mod 3600 mod 60" by (simp_all add: mod_mod_cancel)
    then show ?thesis using div_mult_mod_eq [of n 86400] div_mult_mod_eq [of "n mod 86400" 3600] div_mult_mod_eq [of "n mod 3600" 60]
      by linarith
  qed
  show ?thesis using split [of "unat u"] by (simp add: unat_div unat_mod_distrib)
qed

text \<open>A request that reads or writes a key is the engine's call under the lock.\<close>

fun call_for :: "request \<Rightarrow> call option" where
  "call_for (GetKey key) = Some (Get_call (as_bytes key))"
| "call_for (PutKey key val) = Some (Put_call (as_bytes key) (as_bytes val))"
| "call_for (DeleteKey key) = Some (Delete_call (as_bytes key))"
| "call_for q = None"

fun reply_for :: "request \<Rightarrow> answer \<Rightarrow> reply" where
  "reply_for (GetKey key) (Found r) = Answer (kv_found_or_not key r)"
| "reply_for (PutKey key val) a = Answer (Action_body \<lparr>ac_success = True,
     ac_message = ''OK: wrote '' @ dec (length (as_bytes val)) @ '' bytes to '' @ [CHR 0x27] @ key @ [CHR 0x27]\<rparr>)"
| "reply_for (DeleteKey key) a = Answer (Action_body \<lparr>ac_success = True,
     ac_message = ''OK: deleted '' @ [CHR 0x27] @ key @ [CHR 0x27]\<rparr>)"
| "reply_for q a = Status 500"

lemma answer_ok:
  "\<not> db_poisoned d \<Longrightarrow> m (db_engine d, w) = (Inr x, (e, w')) \<Longrightarrow>
     answer_or_500 show_key what f (locked m) (d, w) = ((Answer (f x), []), (d\<lparr>db_engine := e\<rparr>, w'))"
  by (simp add: answer_or_500_def locked_ok)

lemma length_as_bytes [simp]: "length (as_bytes s) = length s"
  by (simp add: as_bytes_def)

lemma serve_sim:
  assumes "sim crc (call_cost c + room) (db_engine d, w) (now, m)" "\<not> db_poisoned d" "call_for q = Some c"
    and "allowed (Call c Done) (db_engine d)"
  shows "\<exists>a d' w' m'. serve crc show_key up q (d, w) = ((reply_for q a, []), (d', w')) \<and>
    spec_step (now, m) (Call c a) (now, m') \<and> sim crc room (db_engine d', w') (now, m') \<and> \<not> db_poisoned d' \<and>
    db_handles d' = db_handles d \<and> e_path (db_engine d') = e_path (db_engine d)"
proof (cases q)
  case (GetKey key)
  obtain e' w' where r: "eng_get (as_bytes key) (db_engine d, w) = (Inr (shown m now (as_bytes key)), (e', w'))"
    "sim crc room (e', w') (now, m)" "e_path e' = e_path (db_engine d)"
    using sim_get [of crc room "db_engine d" w now m "as_bytes key"] assms(1,3) by (auto simp: GetKey)
  show ?thesis
    using answer_ok [where m = "eng_get (as_bytes key)", OF assms(2) r(1)] r(2,3) assms(2,3) spec_step.Get [of now m "as_bytes key"]
    by (auto simp: GetKey http_get_def db_methods intro!: exI [of _ "Found (shown m now (as_bytes key))"])
next
  case (PutKey key val)
  obtain e' w' where r: "eng_put crc (as_bytes key) (as_bytes val) (db_engine d, w) = (Inr (), (e', w'))"
    "sim crc room (e', w') (now, m(as_bytes key := meaning (as_bytes val)))"
    "e_path e' = e_path (db_engine d)"
    using put_op.write_sim [of crc "as_bytes key" "as_bytes val" room "db_engine d" w now m] assms(1,3,4) by (auto simp: PutKey)
  show ?thesis
    using answer_ok [where m = "eng_put crc (as_bytes key) (as_bytes val)", OF assms(2) r(1)] r(2,3) assms(2,3) spec_step.Put [of now m "as_bytes key" "as_bytes val"]
    by (fastforce simp: PutKey http_put_def db_methods)
next
  case (DeleteKey key)
  obtain e' w' where r: "eng_delete crc (as_bytes key) (db_engine d, w) = (Inr (), (e', w'))"
    "sim crc room (e', w') (now, m(as_bytes key := None))"
    "e_path e' = e_path (db_engine d)"
    using delete_op.write_sim [of crc "as_bytes key" room "db_engine d" w now m] assms(1,3,4) by (auto simp: DeleteKey)
  show ?thesis
    using answer_ok [where m = "eng_delete crc (as_bytes key)", OF assms(2) r(1)] r(2,3) assms(2,3) spec_step.Delete [of now m "as_bytes key"]
    by (fastforce simp: DeleteKey http_delete_def db_methods)
qed (use assms(3) in auto)

text \<open>After a panic under the lock the routes that need the database do not answer; the others do not notice.\<close>

lemma serve_poisoned:
  assumes "db_poisoned d"
  shows "serve crc show_key up q (d, w) =
    (if q \<in> {GetHealth, GetStats, PostCompact} then (fst (serve crc show_key up q (d, w)), (d, w))
     else ((No_answer (Panic poison_msg), []), (d, w)))"
  by (cases q) (simp_all add: http_index_def http_health_def http_metrics_def http_stats_def http_get_def http_put_def
      http_delete_def http_compact_def answer_or_500_def db_methods db_metrics_def
      locked_poisoned [OF assms])

text \<open>An error of the engine is status 500 and one line in the log.\<close>

lemma answer_failed:
  assumes "\<not> db_poisoned d" "m (db_engine d, w) = (Inl (Fail e), (e', w'))"
  shows "answer_or_500 show_key what f (locked m) (d, w) =
    ((Status 500, [what @ '' error: '' @ display show_key e]), (d\<lparr>db_engine := e'\<rparr>, w'))"
  using assms by (simp add: answer_or_500_def locked_eq)

text \<open>Two values get the same reply only when they are equal: the hexadecimal field tells them apart.\<close>

lemma kv_found_inject: "kv_found_or_not key r = kv_found_or_not key' r' \<Longrightarrow> key = key' \<and> r = r'"
  by (auto simp: kv_found_or_not_def hex_dump_inject split: option.splits)

end
