(* ===== verification/Server.thy ===== *)
theory Server
  imports Http EngineTorn
begin

text \<open>
  The server program (\<open>src/bin/server.rs\<close>) and the start of the management interface (\<open>src/http/mod.rs\<close>). What tokio
  does for a listener is a parameter (\<open>bind\<close> and \<open>local_addr\<close>). \<open>axum::serve\<close> accepts connections for ever and never
  returns, so a server that has started is a running process: the routes with the state that they share. It ends when
  it is killed. \<open>debug\<close> renders the error in the panic of \<open>expect\<close>.
\<close>

type_synonym app = "u64 \<Rightarrow> request \<Rightarrow> handler"

subsection \<open>The banner\<close>

text \<open>A box-drawing character is three bytes of UTF-8.\<close>

definition box :: "char \<Rightarrow> string" where
  "box c = [CHR 0xE2, CHR 0x95, c]"

definition rule_line :: "char \<Rightarrow> char \<Rightarrow> string" where
  "rule_line left right = box left @ concat (replicate 46 (box (CHR 0x90))) @ box right"

definition side :: string where
  "side = box (CHR 0x91)"

definition banner :: "string \<Rightarrow> string list" where
  "banner addr =
     [rule_line (CHR 0x94) (CHR 0x97),
      side @ ''         rust-kvdb  Management Console        '' @ side,
      rule_line (CHR 0xA0) (CHR 0xA3),
      side @ ''  Dashboard:  http://'' @ addr @ ''             '' @ side,
      side @ ''  API Docs:   http://'' @ addr @ ''/api/health   '' @ side,
      rule_line (CHR 0x9A) (CHR 0x9D)]"

subsection \<open>Starting\<close>

text \<open>Either the routes are served from now on, or \<open>start\<close> has returned an error and dropped the handle.\<close>

datatype started = Serving app "db \<times> world" | Refused string world

definition http_start ::
  "checksum \<Rightarrow> (bytes \<Rightarrow> string) \<Rightarrow> (string \<Rightarrow> string + 'l) \<Rightarrow> ('l \<Rightarrow> string + string) \<Rightarrow> db \<Rightarrow> string \<Rightarrow>
   world \<Rightarrow> streams \<times> started" where
  "http_start crc show_key bind local_addr d addr w =
     (case bind addr of
        Inl e \<Rightarrow> (say [], Refused e (snd (db_drop (d, w))))
      | Inr listener \<Rightarrow>
          (case local_addr listener of
             Inl e \<Rightarrow> (say [], Refused e (snd (db_drop (d, w))))
           | Inr local \<Rightarrow> (say (banner local), Serving (serve crc show_key) (d, w))))"

text \<open>The database path and the address of the server.\<close>

definition server_args :: "string list \<Rightarrow> string \<times> string" where
  "server_args args =
     (if 1 < length args then args ! 1 else ''./data'', if 2 < length args then args ! 2 else ''127.0.0.1:8080'')"

text \<open>The process after \<open>main\<close> has done all it does by itself.\<close>

datatype process = Running app "db \<times> world" | Ended ending world

definition server_main ::
  "checksum \<Rightarrow> (bytes \<Rightarrow> string) \<Rightarrow> (kv_error \<Rightarrow> string) \<Rightarrow> (string \<Rightarrow> string + 'l) \<Rightarrow> ('l \<Rightarrow> string + string) \<Rightarrow>
   string list \<Rightarrow> world \<Rightarrow> streams \<times> process" where
  "server_main crc show_key debug bind local_addr args w =
     (case server_args args of (db_path, addr) \<Rightarrow>
        (case db_open_with_options crc db_path default_options w of
           (Inl (Fail e), w') \<Rightarrow> (say [], Ended (Faulted (Panic (''failed to open database: '' @ debug e))) w')
         | (Inl ft, w') \<Rightarrow> (say [], Ended (Faulted ft) w')
         | (Inr d, w') \<Rightarrow>
             (case http_start crc show_key bind local_addr d addr w' of
                (io, Serving app s) \<Rightarrow> (io\<lparr>out := (''Database opened at: '' @ db_path) # out io\<rparr>, Running app s)
              | (io, Refused e w'') \<Rightarrow>
                  (\<lparr>out = (''Database opened at: '' @ db_path) # out io, err = err io @ [''Server error: '' @ e]\<rparr>,
                   Ended (Exited 1) w''))))"

subsection \<open>What a run of the server leaves\<close>

lemma drop_clean: "db_handles d = 1 \<Longrightarrow> bw_buf (e_wal (db_engine d)) = [] \<Longrightarrow> snd (db_drop (d, w)) = w"
  by (simp add: db_drop_def eng_drop_def bw_drop_def bw_flush_buf_def)

text \<open>An address that is taken ends the process with status 1, after the database was opened; the log has nothing left
  to write, so the directory stays as opening left it.\<close>

lemma server_bind_failed:
  assumes "server_args args = (dir, addr)" "eng_open crc dir default_options w = (Inr e, w')" "bw_buf (e_wal e) = []"
    and "bind addr = Inl msg"
  shows "server_main crc show_key debug bind local_addr args w =
    (\<lparr>out = [''Database opened at: '' @ dir], err = [''Server error: '' @ msg]\<rparr>, Ended (Exited 1) w')"
  using assms by (simp add: server_main_def http_start_def db_open_with_options_def st_bind_def st_return_def say_def drop_clean)

text \<open>A listener makes it a running server with the database as it was opened.\<close>

lemma server_running:
  assumes "server_args args = (dir, addr)" "db_open_with_options crc dir default_options w = (Inr d, w')"
    and "bind addr = Inr l" "local_addr l = Inr local"
  shows "server_main crc show_key debug bind local_addr args w =
    (\<lparr>out = (''Database opened at: '' @ dir) # banner local, err = []\<rparr>, Running (serve crc show_key) (d, w'))"
  using assms by (simp add: server_main_def http_start_def say_def)

text \<open>A directory that does not open panics before any socket is touched.\<close>

lemma server_open_failed:
  assumes "server_args args = (dir, addr)" "eng_open crc dir default_options w = (Inl (Fail e), w')"
  shows "server_main crc show_key debug bind local_addr args w =
    (say [], Ended (Faulted (Panic (''failed to open database: '' @ debug e))) w')"
  using assms by (simp add: server_main_def db_open_with_options_def st_bind_def)

subsection \<open>Requests one after the other\<close>

text \<open>A server that handles requests in order: the replies, the lines on the error stream, and the state.\<close>

fun serve_all :: "app \<Rightarrow> (u64 \<times> request) list \<Rightarrow> db \<times> world \<Rightarrow> (reply list \<times> string list) \<times> (db \<times> world)" where
  "serve_all app [] s = (([], []), s)"
| "serve_all app ((up, q) # qs) s =
     (case app up q s of ((r, ls), s') \<Rightarrow>
        (case serve_all app qs s' of ((rs, ls'), s'') \<Rightarrow> ((r # rs, ls @ ls'), s'')))"

text \<open>After a panic under the lock no request changes anything, and none that needs the database is answered.\<close>

lemma serve_all_poisoned:
  assumes "db_poisoned d"
  shows "snd (serve_all (serve crc show_key) qs (d, w)) = (d, w) \<and>
    length (fst (fst (serve_all (serve crc show_key) qs (d, w)))) = length qs \<and>
    (\<forall>i < length qs. snd (qs ! i) \<notin> {GetHealth, GetStats, PostCompact} \<longrightarrow>
      fst (fst (serve_all (serve crc show_key) qs (d, w))) ! i = No_answer (Panic poison_msg))"
proof (induction qs)
  case (Cons a qs)
  obtain up q where a: "a = (up, q)" by fastforce
  obtain r ls where r: "serve crc show_key up q (d, w) = ((r, ls), (d, w))"
    "q \<notin> {GetHealth, GetStats, PostCompact} \<longrightarrow> r = No_answer (Panic poison_msg)"
    using serve_poisoned [OF assms, of crc show_key up q w] by (metis prod.collapse fst_conv)
  show ?case using Cons.IH r a by (auto simp: nth_Cons' split: prod.splits)
qed simp

subsection \<open>Sessions\<close>

text \<open>One request of a session, with its reply: a request on a key stays below the bounds of a run.\<close>

definition http_step :: "checksum \<Rightarrow> (bytes \<Rightarrow> string) \<Rightarrow> db \<times> world \<Rightarrow> u64 \<times> request \<times> reply \<Rightarrow> db \<times> world \<Rightarrow> bool" where
  "http_step crc show_key s x s' \<longleftrightarrow> (case x of (up, q, r) \<Rightarrow>
     (\<forall>c. call_for q = Some c \<longrightarrow> allowed (Call c Done) (db_engine (fst s))) \<and>
     (\<exists>ls. serve crc show_key up q s = ((r, ls), s')))"

text \<open>The specification: a request on a key is the call on the map, the other requests are answered and change nothing.\<close>

definition http_spec :: "u64 \<times> spec \<Rightarrow> u64 \<times> request \<times> reply \<Rightarrow> u64 \<times> spec \<Rightarrow> bool" where
  "http_spec a x b \<longleftrightarrow> (case x of (up, q, r) \<Rightarrow>
     (case call_for q of
        Some c \<Rightarrow> fst b = fst a \<and> (\<exists>ans. r = reply_for q ans \<and> spec_step a (Call c ans) b)
      | None \<Rightarrow> b = a \<and> (\<exists>body. r = Answer body)))"

definition http_rel :: "checksum \<Rightarrow> path \<Rightarrow> nat \<Rightarrow> db \<times> world \<Rightarrow> u64 \<times> spec \<Rightarrow> bool" where
  "http_rel crc dir room s a \<longleftrightarrow> sim crc room (db_engine (fst s), snd s) a \<and> \<not> db_poisoned (fst s) \<and>
     db_handles (fst s) = 1 \<and> e_path (db_engine (fst s)) = dir"

definition request_cost :: "u64 \<times> request \<times> reply \<Rightarrow> nat" where
  "request_cost x = (case call_for (fst (snd x)) of Some c \<Rightarrow> call_cost c | None \<Rightarrow> 0)"

text \<open>The routes without a call on the engine.\<close>

lemma db_metrics_done: "\<not> db_poisoned d \<Longrightarrow> db_metrics (d, w) = (Inr (metrics_snapshot (db_engine d)), (d, w))"
  by (cases d) (simp add: db_metrics_def locked_eq e_gets_def st_gets_def)

lemma serve_other:
  assumes "\<not> db_poisoned d" "call_for q = None"
  shows "\<exists>body. serve crc show_key up q (d, w) = ((Answer body, []), (d, w))"
  using assms(2)
  by (cases q) (auto simp: http_index_def http_health_def http_metrics_def http_stats_def http_compact_def db_metrics_done [OF assms(1)])

interpretation http_sim: simulation "http_step crc show_key" http_spec "http_rel crc dir" request_cost for crc show_key dir
proof unfold_locales
  fix x room s a s' assume rel: "http_rel crc dir (request_cost x + room) s a" and step: "http_step crc show_key s x s'"
  obtain d w now m up q r where s: "s = (d, w)" "a = (now, m)" "x = (up, q, r)" by (metis surj_pair)
  from step obtain ls where run: "serve crc show_key up q (d, w) = ((r, ls), s')" by (auto simp: http_step_def s)
  show "\<exists>b. http_spec a x b \<and> http_rel crc dir room s' b"
  proof (cases "call_for q")
    case None
    then show ?thesis
      using rel run serve_other [of d q crc show_key up w] by (auto simp: s http_rel_def http_spec_def request_cost_def)
  next
    case (Some c)
    then have pre: "sim crc (call_cost c + room) (db_engine d, w) (now, m)" "\<not> db_poisoned d" "allowed (Call c Done) (db_engine d)"
      using rel step by (auto simp: s http_rel_def request_cost_def http_step_def)
    from serve_sim [OF pre(1,2) Some pre(3), of show_key up] obtain ans d' w' m' where
      "serve crc show_key up q (d, w) = ((reply_for q ans, []), (d', w'))" "spec_step (now, m) (Call c ans) (now, m')"
      "sim crc room (db_engine d', w') (now, m')" "\<not> db_poisoned d'" "db_handles d' = db_handles d"
      "e_path (db_engine d') = e_path (db_engine d)" by blast
    then show ?thesis using run Some rel
      by (intro exI [of _ "(now, m')"]) (auto simp: s http_rel_def http_spec_def)
  qed
qed

text \<open>Requests do not move the clock, and every one of them is answered.\<close>

lemma http_spec_answer: "http_spec a (up, q, r) b \<Longrightarrow> \<exists>body. r = Answer body"
  by (cases q) (auto simp: http_spec_def elim!: spec_getE)

lemma http_spec_run:
  assumes "runs http_spec a xs b"
  shows "fst b = fst a \<and> (\<forall>x \<in> set xs. \<exists>body. snd (snd x) = Answer body)"
  using assms
proof (induction rule: runs.induct)
  case (Step s ls s' l s'')
  obtain up q r where l: "l = (up, q, r)" by (metis surj_pair)
  have "fst s'' = fst s'" using Step.hyps(2) by (auto simp: l http_spec_def split: option.splits)
  moreover have "\<exists>body. r = Answer body" using http_spec_answer Step.hyps(2) unfolding l by blast
  ultimately show ?case using Step.IH by (simp add: l)
qed simp

text \<open>Between two calls nothing waits in the buffer of the log.\<close>

lemma sim_flushed: "sim crc room (e, w) a \<Longrightarrow> bw_buf (e_wal e) = []"
  by (cases a) (auto simp: sim_iff db_ok_def log_ok_def)

text \<open>A value that \<open>kv-cli\<close> prints for a key.\<close>

lemma cli_get:
  assumes sim: "sim crc room (e, w) (now, m)" and one: "one_level (e_manifest e)"
  shows "\<exists>w'. cli_main crc show_key took [prog, e_path e, ''get'', key] w =
    ((show_found took (shown m now (as_bytes key)), Returned), w')"
proof -
  have "o_sync_wal default_options" by (simp add: default_options_def)
  from sim_restart [OF sim this one] obtain e1 w1 where o: "eng_open crc (e_path e) default_options w = (Inr e1, w1)"
    "sim crc room (e1, w1) (now, m)" by blast
  let ?d = "\<lparr>db_engine = e1, db_poisoned = False, db_handles = 1\<rparr>"
  obtain e2 w2 where g: "eng_get (as_bytes key) (e1, w1) = (Inr (shown m now (as_bytes key)), (e2, w2))"
    using sim_get [OF o(2)] by blast
  have "db_get (as_bytes key) (?d, w1) = (Inr (shown m now (as_bytes key)), (?d\<lparr>db_engine := e2\<rparr>, w2))"
    unfolding db_methods by (rule locked_ok) (simp_all add: g)
  then show ?thesis using o(1)
    by (simp add: cli_main_def cli_command_def db_open_with_options_def st_bind_def st_return_def conclude_def)
qed

lemma session_left:
  assumes fresh: "fresh_dir dir now w" and opened: "db_open_with_options crc dir default_options w = (Inr d0, w0)"
    and run: "runs (http_step crc show_key) (d0, w0) xs (d, w1)" and small: "64 + sum_list (map request_cost xs) < 2 ^ 32"
  shows "\<exists>m. runs http_spec (now, Map.empty) xs (now, m) \<and> http_rel crc dir 0 (d, w1) (now, m)"
proof -
  have "o_sync_wal default_options" by (simp add: default_options_def)
  from sim_open [OF fresh this small, of crc] obtain e0 w' where o: "eng_open crc dir default_options w = (Inr e0, w')"
    "sim crc (sum_list (map request_cost xs)) (e0, w') (now, Map.empty)" "e_path e0 = dir" by blast
  moreover have "d0 = \<lparr>db_engine = e0, db_poisoned = False, db_handles = 1\<rparr>" "w0 = w'"
    using opened by (simp_all add: db_open_with_options_def st_bind_def st_return_def o(1))
  ultimately have "http_rel crc dir (sum_list (map request_cost xs) + 0) (d0, w0) (now, Map.empty)" by (simp add: http_rel_def)
  from http_sim.runs_sim [OF run this] obtain b where b: "runs http_spec (now, Map.empty) xs b" "http_rel crc dir 0 (d, w1) b"
    by blast
  then show ?thesis using http_spec_run [OF b(1)] by (cases b) auto
qed

lemma db_opens:
  assumes "fresh_dir dir now w"
  shows "\<exists>d w'. db_open_with_options crc dir default_options w = (Inr d, w')"
proof -
  have "o_sync_wal default_options" by (simp add: default_options_def)
  from sim_open [OF assms this, of 0 crc] show ?thesis by (auto simp: db_open_with_options_def st_bind_def st_return_def)
qed

text \<open>A first small write leaves the manifest of a new database alone.\<close>

lemma first_write:
  assumes "length key + length val < 1000"
  shows "\<exists>e w e' w'. eng_open crc ''db'' default_options (new_world 7) = (Inr e, w) \<and>
    eng_put crc key val (e, w) = (Inr (), (e', w')) \<and> e_manifest e = manifest_new \<and> e_manifest e' = manifest_new \<and>
    e_opts e = default_options"
proof -
  have "o_sync_wal default_options" by (simp add: default_options_def)
  then obtain e w where o: "eng_open crc ''db'' default_options (new_world 7) = (Inr e, w)" "db_ok crc [] e w"
    "e_opts e = default_options" "e_next_seq e = 1" "e_manifest e = manifest_new" "load [] e = 0"
    "max_size (e_mem e) = o_memtable_size default_options"
    using open_fresh [of "new_world 7" "''db''" default_options crc] fresh_new_world [of "''db''" 7] by (auto simp: fresh_dir_def)
  obtain tbl rs where s: "sys_ok tbl [] e w" "log_ok crc rs e w" "calm e" "o_sync_wal (e_opts e)" "eng_ok tbl [] e"
    using o(2) by (rule db_okE)
  have mem: "mt_inv (e_mem e)" "immutable (e_mem e) = None" "no_faults (w_disk w)" "bw_buf (e_wal e) = []"
    using s by (simp_all add: calm_def settled_def sys_ok_def log_ok_def eng_okD(1))
  have empty: "sl_contents (active (e_mem e)) = []"
    using o(6) by (cases "sl_contents (active (e_mem e))") (simp_all add: load_def weight_def entry_weight_def)
  then have size: "sl_size (active (e_mem e)) = size_of_skiplist" using mem(1) by (auto simp: mt_inv_def sl_sized_def)
  have "sl_size (active (e_mem e)) + grow key (encode_with_seq val 1) (active (e_mem e)) \<le> max_size (e_mem e)"
    using assms by (simp add: size empty o(7) default_options_def grow_def size_of_skiplist_def size_of_ptr_def size_of_node_def size_of_vec_def)
  then obtain b m mt d rng where "eng_put crc key val (e, w) =
      (Inr (), (e\<lparr>e_next_seq := 2, e_wal := b, e_mem := m, e_metrics := mt\<rparr>, w\<lparr>w_disk := d, w_rng := rng\<rparr>))"
    using put_settled [OF mem(1,2) s(4) _ mem(3,4), of "encode_with_seq val 1" val key crc] o(4) by auto
  moreover have "e_manifest (e\<lparr>e_next_seq := 2, e_wal := b, e_mem := m, e_metrics := mt\<rparr>) = manifest_new" using o(5) by simp
  ultimately show ?thesis using o(1,3,5) by blast
qed

end
