(* ===== verification/Spec2Isabelle.thy ===== *)
theory Spec2Isabelle
  imports Prelude Errors Ordered Disk WalRecord WalLog Block Bloom Cache Manifest SkipListOps
    MemTable ValueCodec SSTableCorrect MergeIterator Runs EngineLimits EngineRepair EngineTorn Db Threads Cli Http Server
begin

text \<open>
  Verification of the key-value engine \<open>kv-engine\<close> (the Rust sources under \<open>src/\<close>): an LSM tree with a write-ahead
  log, a memtable on a skip list, sorted table files with bloom filters and a block cache, a manifest, leveled
  compaction, a handle that threads share, and a command line and an HTTP front end.

  How the parts interact. A write takes a sequence number, is appended to the log (\<open>wal/writer.rs\<close>), synced, and put
  into the memtable (\<open>memtable/\<close>). A full memtable is frozen and written as a table file (\<open>sstable/builder.rs\<close>), which
  enters the manifest (\<open>manifest.rs\<close>); then the log is truncated and levels over their limit are compacted into the
  next. A read asks the memtable and then the tables from the newest reader to the oldest, through filter, index, cache
  and block; values carry the sequence number, tombstones and expiry times as byte prefixes. \<open>open\<close> loads the
  manifest, opens its tables and replays the log. \<open>DB\<close> puts the engine behind a mutex.

  Theories, in the order of the parts.
  \<^item> Prelude, Errors, Ordered, Disk: words and little-endian codecs; \<open>error.rs\<close> and panics as the sum \<open>'a res\<close>; the
    sorted map behind \<open>BTreeMap\<close> and the binary search of slices; files, \<open>BufWriter\<close> and \<open>fsync\<close> with a plan that
    makes any system call fail, torn writes included.
  \<^item> WalRecord, WalLog: \<open>wal/record.rs\<close> and \<open>wal/writer.rs\<close>. What is appended and synced is read back, also after a
    crash; a truncated log yields a prefix; no damaged record passes the checksum unless the checksum collides.
  \<^item> Block, Bloom, Cache, Manifest: \<open>sstable/block.rs\<close>, \<open>filter/bloom.rs\<close>, \<open>cache/block_cache.rs\<close>, \<open>manifest.rs\<close> and
    \<open>version.rs\<close>. Codec round trips with their bounds, exactness of the filter, the invariant of the LRU cache.
  \<^item> SkipList, SkipListCorrect, SkipListOps: \<open>memtable/skiplist.rs\<close>. Raw pointers are addresses of an arena; every
    lane is a null-terminated path; the list refines a sorted association list, no dereference is null or dangling.
  \<^item> MemTable: \<open>memtable/memtable.rs\<close>, the active and the frozen list as one map.
  \<^item> ValueCodec, Batch: the value encodings and \<open>next_key\<close> of \<open>engine.rs\<close>; \<open>types.rs\<close> and \<open>write_batch.rs\<close>.
  \<^item> SSTableBuilder, SSTableReader, SSTableCorrect: \<open>sstable/builder.rs\<close> and \<open>sstable/reader.rs\<close>. A built file opens, a
    lookup returns what was added, the iterator returns everything in order, through any coherent cache.
  \<^item> MergeIterator: \<open>compaction/merge_iterator.rs\<close>, equal to a stable sort of its sources.
  \<^item> Engine: \<open>engine.rs\<close>, every operation as a program on the engine and its world (disk, clock, directory listing).
  \<^item> EngineReads, EngineWrites, EngineCompact, EngineState, EngineOps, EngineOpen, EngineBatch, EngineClose,
    EngineRepair: what the operations do. \<open>view t ts e\<close> is the abstraction: the map that reads see at time \<open>t\<close> when the
    readers are \<open>ts\<close>. \<open>db_ok\<close> is the invariant of an engine between two calls: the memtable is well formed, every
    reader is a good table the cache agrees with, levels are ordered and their key ranges are apart, the directory
    holds exactly the files of the engine, and the log on disk is synced and rebuilds the memtable.
  \<^item> EngineRuns: runs of calls, waiting and restarts as a step relation, the map with expiry times as their
    specification, and the simulation between the two. EngineLimits: the exact behaviour where the engine leaves that
    specification (compaction above older values, restarts with several levels), with concrete states.
  \<^item> EngineCrash, EngineTorn: the death of the process in the middle of a call. A fault plan ends the call at some system
    call, the directory is opened again on a healthy disk. A put cut anywhere, its flush included, leaves the old or the
    new state, or a manifest file that was cut and is refused; a torn record hides later records of the log, and a compaction cut before
    its last step loses its inputs.
  \<^item> Db: the handle and its lock with poisoning. The methods on keys are scripts: sequences of steps that start with
    the lock and end when the guard is dropped. Threads: threads whose steps interleave freely, mutual exclusion as an
    invariant of all executions, and with it the linearization of every execution. Utf8, Cli, Http: the text conversions,
    \<open>bin/cli.rs\<close>, and \<open>http/handler.rs\<close> with the numbers of \<open>http/dashboard.rs\<close>.
  \<^item> Server: \<open>bin/server.rs\<close> and \<open>http/mod.rs\<close>. A started server is a process that serves its routes until
    it is killed. A session of requests simulates the map; what it leaves on the disk is what a later process reads.

  Interfaces. The locales of the development are interpreted by the model in the theory of the component that provides
  them. Runs holds labelled runs of a step relation and forward simulation (\<open>simulation\<close>), which EngineRuns interprets
  on the engine and its specification; there too, \<open>write_call\<close> is what put, put with an expiry and delete share,
  and Server interprets \<open>simulation\<close> on HTTP sessions. An error path is always a value (\<open>Inl (Fail e)\<close>, or
  \<open>Inl (Panic msg)\<close> for what unwinds).

  Integers. Every \<open>u8\<close>, \<open>u32\<close> and \<open>u64\<close> has its width; \<open>as\<close> casts truncate; \<open>usize\<close> is \<^typ>\<open>nat\<close> on a 64-bit target,
  where no object in memory reaches the bound. Plain \<open>+\<close> on \<open>u32\<close> and \<open>u64\<close> is checked and panics, as in a build with
  overflow checks; the theorems about runs stay below the bounds, so they hold for wrapping builds too. Loops are total
  functions with a measure. Only the walks along raw pointers of the skip list take fuel, the number of cells of the
  arena; a walk that used it up would be the fault \<open>Diverges\<close>, and the theorems on the list show that it returns. The cascade of compactions visits levels 0 to 5, as the code does.

  Bounds of the theorems on runs. A table file is smaller than 4 GiB (its offsets are 32 bits), so the bytes written
  stay below \<open>2 ^ 32 - 64\<close>; keys are below 64 KiB (16-bit lengths in a block). A write is allowed while level 1 has room
  for another table (\<open>roomy\<close>), and nothing lies below level 1 then (\<open>shallow\<close>, which the runs keep and the theorems on
  single operations assume and conclude), so that no compaction moves a tombstone above an older value; a restart is
  allowed while one level holds all tables; EngineLimits shows what happens beyond both. \<open>sync_wal\<close> is on, system calls succeed, and nobody else
  writes to the directory; failing system calls are covered by EngineCrash, for a put on tables of level 0 only, and by
  the theorems on log, manifest and disk.

  Parameters, for code that is not in the repository: \<open>crc\<close> (the \<open>crc32fast\<close> crate), the rendering of a key in an
  error message and of an error in a panic, the elapsed times that are printed, the order of a directory listing, the
  listener of tokio. \<open>axum::serve\<close> appears by what is documented of it: it serves and does not return.

  Not modelled: the log lines of \<open>tracing\<close>, the routing and JSON text of axum and serde, the embedded HTML, CSS and
  JavaScript of the dashboard; module declarations,
  tests and benches hold no logic of the program. \<open>compaction/leveled.rs\<close> and \<open>sstable/iterator.rs\<close> are empty.
\<close>

subsection \<open>The database\<close>

text \<open>C1: A run of the database from an empty directory, made of puts, deletes, puts with a TTL, gets, scans, the passing of time and restarts, answers every call as the map with expiry times does: flushes, compactions, log replay and recovery never show, and every key reads as the map says in the end. The run is bounded by the bytes it writes (keys below 64 KiB), needs room in level 1 for writes and restarts only while one level holds all tables; a value that looks like an internal marker means what the marker means.\<close>

theorem engine_refines_map:
  assumes "fresh_dir dir now w" "o_sync_wal opts" "eng_open crc dir opts w = (Inr e0, w0)"
    and "sys_run crc (e0, w0) ls s" "64 + cost ls < 2 ^ 32"
  shows "\<exists>later m. spec_run (now, Map.empty) ls (later, m) \<and> (\<forall>k. fst (eng_get k s) = Inr (shown m later k))"
proof -
  have "sim crc (cost ls + 0) (e0, w0) (now, Map.empty)"
    using sim_open [OF assms(1,2), of "cost ls" crc] assms(3,5) by auto
  from sys_run_sim [OF assms(4) this] obtain later m where a: "spec_run (now, Map.empty) ls (later, m)" "sim crc 0 s (later, m)"
    by (metis surj_pair)
  obtain e w' where "s = (e, w')" by (cases s)
  then have "fst (eng_get k s) = Inr (shown m later k)" for k using sim_get [of crc 0 e w' later m k] a(2) by auto
  then show ?thesis using a(1) by blast
qed

lemma engine_refines_map_witness:
  "\<exists>e0 w0 s. eng_open (\<lambda>_. 5) ''db'' default_options (new_world 7) = (Inr e0, w0) \<and>
     sys_run (\<lambda>_. 5) (e0, w0) [Call (Put_call [1] [2]) Done, Wait 8, Call (Get_call [1]) (Found (Some [2]))] s \<and>
     (\<exists>later m. fst (eng_get [1] s) = Inr (shown m later [1]) \<and> spec_run (7, Map.empty)
        [Call (Put_call [1] [2]) Done, Wait 8, Call (Get_call [1]) (Found (Some [2]))] (later, m))"
proof -
  obtain e0 w0 s where r: "eng_open (\<lambda>_. 5) ''db'' default_options (new_world 7) = (Inr e0, w0)"
    "sys_run (\<lambda>_. 5) (e0, w0) [Call (Put_call [1] [2]) Done, Wait 8, Call (Get_call [1]) (Found (Some [2]))] s"
    using sample_run by blast
  have "o_sync_wal default_options" by (simp add: default_options_def)
  moreover have "64 + cost [Call (Put_call [1] [2]) Done, Wait 8, Call (Get_call [1]) (Found (Some [2]))] < 2 ^ 32"
    by (simp add: cost_def)
  ultimately show ?thesis using engine_refines_map [OF fresh_new_world _ r] r by blast
qed

text \<open>C2: In the runs of C1 - from an empty directory, with keys below 64 KiB, a bound on the bytes written, writes only while level 1 has room for another table and restarts only while one level holds all tables - a get returns what the last write to its key stored, with other writes, reads, flushes, the compactions they trigger, waiting and such restarts before and between: the value of a put that is not shaped like an internal marker, nothing after a delete, and the value of a put with a TTL until its expiry and nothing from then on.\<close>

theorem last_write_wins:
  assumes "fresh_dir dir now w" "o_sync_wal opts" "eng_open crc dir opts w = (Inr e0, w0)"
    and "sys_run crc (e0, w0) (ls @ Call c r # ks @ [Call (Get_call k) (Found x)]) s" "\<forall>l \<in> set ks. \<not> touches k l"
    and "64 + cost (ls @ Call c r # ks @ [Call (Get_call k) (Found x)]) < 2 ^ 32"
  shows "(c = Put_call k v \<and> \<not> marker_like v \<longrightarrow> x = Some v) \<and> (c = Delete_call k \<longrightarrow> x = None) \<and>
    (c = Ttl_call k v ttl \<longrightarrow> x = (if time_after now ls + ttl \<le> time_after now (ls @ ks) then None else Some v))"
proof -
  let ?ls = "ls @ Call c r # ks @ [Call (Get_call k) (Found x)]"
  have "sim crc (cost ?ls + 0) (e0, w0) (now, Map.empty)"
    using sim_open [OF assms(1,2,6), of crc] assms(3) by auto
  from sys_run_sim [OF assms(4) this] obtain a where "spec_run (now, Map.empty) ?ls a" by blast
  from spec_last_write [OF this assms(5)] show ?thesis by simp
qed

lemma last_write_wins_witness:
  "\<exists>e0 w0 s. eng_open (\<lambda>_. 5) ''db'' default_options (new_world 7) = (Inr e0, w0) \<and>
     sys_run (\<lambda>_. 5) (e0, w0) ([] @ Call (Put_call [1] [2]) Done # [Wait 8] @ [Call (Get_call [1]) (Found (Some [2]))]) s \<and>
     (Put_call [1] [2] = Put_call [1] [2] \<and> \<not> marker_like [2] \<longrightarrow> Some [2] = Some [2 :: u8])"
proof -
  obtain e0 w0 s where r: "eng_open (\<lambda>_. 5) ''db'' default_options (new_world 7) = (Inr e0, w0)"
    "sys_run (\<lambda>_. 5) (e0, w0) ([] @ Call (Put_call [1] [2]) Done # [Wait 8] @ [Call (Get_call [1]) (Found (Some [2]))]) s"
    using sample_run [of "\<lambda>_. 5"] by (simp only: append_Nil append_Cons) blast
  have "o_sync_wal default_options" by (simp add: default_options_def)
  moreover have "\<forall>l \<in> set [Wait 8]. \<not> touches [1] l" by simp
  moreover have "64 + cost ([] @ Call (Put_call [1] [2]) Done # [Wait 8] @ [Call (Get_call [1]) (Found (Some [2]))]) < 2 ^ 32"
    by (simp add: cost_def)
  ultimately have "Put_call [1] [2] = Put_call [1] [2] \<and> \<not> marker_like [2] \<longrightarrow> Some [2] = Some [2 :: u8]"
    using last_write_wins [OF fresh_new_world _ r] by blast
  then show ?thesis using r by blast
qed

text \<open>C3: On every state that a run of C1 reaches, while the system calls succeed, every call returns Ok (no panic, no error, no endless loop) when its key is below 64 KiB and level 1 has room for another table (for writes), the bytes written stay below the bound and the expiry of a TTL fits 64 bits; and when one level holds all tables and the new options sync the log, opening the directory again returns an engine.\<close>

theorem engine_calls_return:
  assumes "fresh_dir dir now w" "o_sync_wal opts" "eng_open crc dir opts w = (Inr e0, w0)"
    and "sys_run crc (e0, w0) ls (e, w1)" "64 + (cost ls + call_cost c) < 2 ^ 32"
    and "allowed (Call c a) e" "expiry_ok (time_after now ls) c"
  shows "(\<exists>r s'. run_call crc c (e, w1) = (Inr r, s')) \<and>
    (o_sync_wal opts' \<longrightarrow> one_level (e_manifest e) \<longrightarrow> (\<exists>e' w'. eng_open crc (e_path e) opts' w1 = (Inr e', w')))"
proof -
  have "sim crc (cost ls + call_cost c) (e0, w0) (now, Map.empty)"
    using sim_open [OF assms(1,2,5), of crc] assms(3) by auto
  from sys_run_sim [OF assms(4) this] obtain later m where a: "spec_run (now, Map.empty) ls (later, m)"
    "sim crc (call_cost c + 0) (e, w1) (later, m)" by auto
  have "later = time_after now ls" using spec_run_time [OF a(1)] by simp
  then show ?thesis using sim_call [OF a(2) assms(6)] sim_restart [OF a(2), of opts'] assms(7) by blast
qed

lemma engine_calls_return_witness:
  "\<exists>e w r s' e' w'. eng_open (\<lambda>_. 5) ''db'' default_options (new_world 7) = (Inr e, w) \<and>
     run_call (\<lambda>_. 5) (Put_call [1] [2]) (e, w) = (Inr r, s') \<and> eng_open (\<lambda>_. 5) (e_path e) default_options w = (Inr e', w')"
proof -
  have room: "64 + 0 < (2 :: nat) ^ 32" by simp
  obtain e w where o: "eng_open (\<lambda>_. 5) ''db'' default_options (new_world 7) = (Inr e, w)" "roomy (e_opts e) (e_manifest e)"
    "one_level (e_manifest e)"
    by (rule new_engine [OF room])
  have sync: "o_sync_wal default_options" by (simp add: default_options_def)
  have small: "64 + (cost [] + call_cost (Put_call [1] [2])) < 2 ^ 32" by (simp add: cost_def)
  have al: "allowed (Call (Put_call [1] [2]) Done) e" "expiry_ok (time_after 7 []) (Put_call [1] [2])" using o(2) by simp_all
  from engine_calls_return [OF fresh_new_world sync o(1) runs.Start small al, of default_options] sync o(1,3) show ?thesis by blast
qed

text \<open>C4: A process that is killed between two operations loses nothing: on every reachable state whose tables lie in one level, opening the directory again gives an engine on which every get and every scan returns what it would have returned before.\<close>

theorem restart_keeps_reads:
  assumes "fresh_dir dir now w" "o_sync_wal opts" "eng_open crc dir opts w = (Inr e0, w0)"
    and "sys_run crc (e0, w0) ls (e, w1)" "64 + cost ls < 2 ^ 32" "one_level (e_manifest e)" "o_sync_wal opts'"
  shows "\<exists>e' w'. eng_open crc (e_path e) opts' w1 = (Inr e', w') \<and>
    fst (eng_get k (e', w')) = fst (eng_get k (e, w1)) \<and> fst (eng_scan lo hi (e', w')) = fst (eng_scan lo hi (e, w1))"
proof -
  have "sim crc (cost ls + 0) (e0, w0) (now, Map.empty)" using sim_open [OF assms(1,2), of "cost ls" crc] assms(3,5) by auto
  from sys_run_sim [OF assms(4) this] obtain later m where a: "sim crc 0 (e, w1) (later, m)" by auto
  obtain e' w' where r: "eng_open crc (e_path e) opts' w1 = (Inr e', w')" "sim crc 0 (e', w') (later, m)"
    using sim_restart [OF a assms(7,6)] by blast
  have "fst (eng_get k (e', w')) = fst (eng_get k (e, w1))" using sim_get [OF a, of k] sim_get [OF r(2), of k] by auto
  moreover have "fst (eng_scan lo hi (e', w')) = fst (eng_scan lo hi (e, w1))"
  proof -
    obtain es s1 where es: "eng_scan lo hi (e, w1) = (Inr es, s1)" "sorted_keys es"
      "\<forall>k. map_of es k = (if lo \<le> k \<and> k < hi then shown m later k else None)"
      using sim_scan [OF a, of lo hi] by blast
    obtain fs s2 where fs: "eng_scan lo hi (e', w') = (Inr fs, s2)" "sorted_keys fs"
      "\<forall>k. map_of fs k = (if lo \<le> k \<and> k < hi then shown m later k else None)"
      using sim_scan [OF r(2), of lo hi] by blast
    have "map_of fs = map_of es" using es(3) fs(3) by (simp add: fun_eq_iff)
    then have "fs = es" by (rule sorted_keys_eqI [OF fs(2) es(2)])
    then show ?thesis using es(1) fs(1) by simp
  qed
  ultimately show ?thesis using r(1) by blast
qed

lemma restart_keeps_reads_witness:
  "\<exists>e w e' w'. eng_open (\<lambda>_. 5) ''db'' default_options (new_world 7) = (Inr e, w) \<and>
     eng_open (\<lambda>_. 5) (e_path e) default_options w = (Inr e', w') \<and> fst (eng_get [1] (e', w')) = fst (eng_get [1] (e, w))"
proof -
  have room: "64 + 0 < (2 :: nat) ^ 32" by simp
  obtain e w where o: "eng_open (\<lambda>_. 5) ''db'' default_options (new_world 7) = (Inr e, w)" "one_level (e_manifest e)"
    by (rule new_engine [OF room])
  have sync: "o_sync_wal default_options" by (simp add: default_options_def)
  have "64 + cost [] < 2 ^ 32" by (simp add: cost_def)
  from restart_keeps_reads [OF fresh_new_world sync o(1) runs.Start this o(2) sync] o(1) show ?thesis by blast
qed

text \<open>C5: A put that is cut at any system call - in the log, in the table file, in the manifest, in the truncation of the log; by an error or a torn write - and followed by the death of the process never leaves a wrong database: when the put had returned Ok, opening the directory again gives an engine that reads every key as after the put; when it had not, either the file of the manifest is a proper prefix of the manifest with one more table - it was cut while it was rewritten - and opening is refused as corrupt, or opening gives an engine that reads every key as before the put or every key as after it. For states that satisfy the invariant, a key below 64 KiB and sizes and ids below the bounds, all tables in level 0 and no compaction due after a flush.\<close>

theorem put_cut_anywhere:
  assumes "db_ok crc ts e w" "sound_listing (w_readdir w)" "\<forall>n. w_clock w n = now" "steady e"
    and "fits_write ts e key (encode_with_seq val (e_next_seq e))" "eng_put crc key val (e, faulty plan w) = (res, (e1, w1))"
  shows "res \<noteq> Inr () \<and> (manifest_cut (e_path e) (e_manifest e) (w_disk w1) \<and> open_refused crc (e_path e) opts (restart w1) \<or>
      recovers crc (e_path e) opts (restart w1) (view now ts e)) \<or>
    recovers crc (e_path e) opts (restart w1) ((view now ts e)(key := unpack_value now (encode_with_seq val (e_next_seq e))))"
  by (rule put_crash [OF assms])

lemma put_cut_anywhere_witness:
  "\<exists>e res e1 w1. eng_put (\<lambda>_. 5) [1] [2] (e, faulty (\<lambda>n. if n = 0 then Some 9 else None) (blank_world ''db'' 7)) = (res, (e1, w1)) \<and>
     (res \<noteq> Inr () \<and> (manifest_cut ''db'' manifest_new (w_disk w1) \<and> open_refused (\<lambda>_. 5) ''db'' default_options (restart w1) \<or>
        recovers (\<lambda>_. 5) ''db'' default_options (restart w1) (\<lambda>_. None)) \<or>
      recovers (\<lambda>_. 5) ''db'' default_options (restart w1) [[1] \<mapsto> [2]])"
proof -
  obtain m where m: "mt_inv m" "mt_lookup m = Map.empty" "immutable m = None" using mt_new_spec [of 100] by blast
  then have empty: "sl_contents (active m) = []" by (simp add: mt_lookup_settled)
  let ?e = "small_engine ''db'' manifest_new [] m" and ?w = "blank_world ''db'' 7"
  note bl = blank_ok [OF m(1,3) empty refl]
  have e: "e_path ?e = ''db''" "e_next_seq ?e = 9" "e_manifest ?e = manifest_new" "e_opts ?e = default_options" "e_mem ?e = m" "e_next_sst ?e = 9"
    by (simp_all add: small_engine_def)
  have "flat manifest_new" by (simp add: flat_def manifest_new_def)
  then have steady: "steady ?e" by (simp add: steady_def e(3,4) quiet_new)
  have fits: "fits_write [] ?e [1] (encode_with_seq [2] (e_next_seq ?e))"
    using roomy_new by (simp add: fits_write_def bl(2) e(2-4,6) entry_weight_def)
  obtain res e1 w1 where run: "eng_put (\<lambda>_. 5) [1] [2] (?e, faulty (\<lambda>n. if n = 0 then Some 9 else None) ?w) = (res, (e1, w1))"
    by (rule prod_cases3) (rule that)
  have v: "view 7 [] ?e = (\<lambda>_. None)" by (simp add: view_def [abs_def] stored_def e(5) m(2))
  have u: "unpack_value 7 (encode_with_seq [2] 9) = Some [2]"
    by (simp add: unpack_plain unpack_inner_def unwrap_ttl_def tombstone_def)
  show ?thesis
    using put_cut_anywhere [OF bl(1,3,4) steady fits run, of default_options] run unfolding e(1-3) v u by blast
qed

text \<open>C6: While level 1 has room for another table and nothing lies below level 1, put of a key below 64 KiB returns Ok when the bytes stored stay below 4 GiB and the table ids and the sequence number below 64 bits. It keeps the invariant of the database - a well-formed memtable, tables that are good files known to the cache, the order and the key ranges of the levels, the files of the tables and the manifest on disk, a synced log that rebuilds the memtable -, puts nothing below level 1, and changes the view of the store, now and later, at its key only.\<close>

theorem put_keeps_invariant:
  assumes "db_ok crc ts e w" "\<forall>n. w_clock w n = now" "fits_write ts e key (encode_with_seq val (e_next_seq e))"
  shows "\<exists>ts' e' w'. eng_put crc key val (e, w) = (Inr (), (e', w')) \<and> db_ok crc ts' e' w' \<and>
    shallow (e_manifest e') \<and>
    (\<forall>t \<ge> now. view t ts' e' = (view t ts e)(key := unpack_value t (encode_with_seq val (e_next_seq e))))"
  using eng_put_spec [OF assms] unfolding grown_def by blast

lemma put_keeps_invariant_witness:
  "\<exists>e w ts' e' w'. eng_open (\<lambda>_. 5) ''db'' default_options (new_world 7) = (Inr e, w) \<and>
     eng_put (\<lambda>_. 5) [1] [2] (e, w) = (Inr (), (e', w')) \<and> db_ok (\<lambda>_. 5) ts' e' w' \<and>
     shallow (e_manifest e') \<and> view 7 ts' e' [1] = Some [2]"
proof -
  note f = fresh_new_world [of "''db''" 7]
  have "o_sync_wal default_options" by (simp add: default_options_def)
  then obtain e w where o: "eng_open (\<lambda>_. 5) ''db'' default_options (new_world 7) = (Inr e, w)" "db_ok (\<lambda>_. 5) [] e w"
    "e_opts e = default_options" "e_next_seq e = 1" "unat (e_next_sst e) \<le> 1" "e_manifest e = manifest_new" "load [] e = 0"
    "same_env (new_world 7) w"
    using open_fresh [of "new_world 7" "''db''" default_options "\<lambda>_. 5"] f by (auto simp: fresh_dir_def)
  have clk: "\<forall>n. w_clock w n = 7" using o(8) by (simp add: same_env_def new_world_def)
  have fits: "fits_write [] e [1] (encode_with_seq [2] (e_next_seq e))"
    using o(3-7) roomy_new by (simp add: fits_write_def entry_weight_enc)
  show ?thesis using put_keeps_invariant [OF o(2) clk fits] o(1) by (fastforce simp: unpack_plain tombstone_def)
qed

text \<open>C7: Compacting a level (with all shallower levels empty) returns, keeps the tables good and the levels ordered, empties the source level, and leaves every read as it was with one exception: a key whose newest value among the inputs is dead reads what the levels below the destination hold for it. Hence compaction is invisible when nothing lies below, and brings a deleted value back when an older one does.\<close>

theorem compaction_exact:
  assumes "eng_ok tbl ts e" "tree_ok ts e" "no_faults (w_disk w)" "\<forall>n. w_clock w n = now"
    and "\<forall>j < l. ssts_at_level (e_manifest e) j = []" "ssts_at_level (e_manifest e) l \<noteq> []"
    and "32 + tables_weight ts < 2 ^ 32" "unat (e_next_sst e) + 1 < 2 ^ 64"
  shows "\<exists>tbl' ts' e' w'. compact_level l (e, w) = (Inr (), (e', w')) \<and> eng_ok tbl' ts' e' \<and> tree_ok ts' e' \<and>
    ssts_at_level (e_manifest e') l = [] \<and>
    (\<forall>k. view now ts' e' k =
       (if dead_input now ts e l k then Option.bind (table_lookup (deeper ts e l) k) (unpack_value now) else view now ts e k))"
  by (rule compact_level_exact [OF assms])

lemma compaction_exact_witness:
  "\<exists>e w ts ts' e' w'. view 7 ts e [1] = None \<and> compact_level 0 (e, w) = (Inr (), (e', w')) \<and>
     ssts_at_level (e_manifest e') 0 = [] \<and> view 7 ts' e' [1] = Some [9]"
proof -
  obtain m where m: "mt_inv m" "mt_lookup m = Map.empty" using mt_new_spec [of 100] by blast
  let ?e = "small_engine ''db'' buried_manifest buried m" and ?w = "new_world 7"
  note b = buried_ok [OF m refl, where dir = "''db''"]
  have "no_faults (w_disk ?w)" "\<forall>n. w_clock ?w n = 7" "ssts_at_level (e_manifest ?e) 0 \<noteq> []" "unat (e_next_sst ?e) + 1 < 2 ^ 64"
    using no_faults_empty_disk by (simp_all add: new_world_def small_engine_def buried_manifest_def ssts_at_level_def)
  then obtain ts' e' w' where "compact_level 0 (?e, ?w) = (Inr (), (e', w'))" "ssts_at_level (e_manifest e') 0 = []"
    "\<forall>k. view 7 ts' e' k =
       (if dead_input 7 buried ?e 0 k then Option.bind (table_lookup (deeper buried ?e 0) k) (unpack_value 7) else view 7 buried ?e k)"
    using compaction_exact [OF b(1,2), of ?w 7 0] by auto
  moreover have "view 7 buried ?e [1] = None" by (rule b(5))
  ultimately show ?thesis using b(3,4) [of 7] by metis
qed

text \<open>C8: What a restart returns for every key, whatever the levels of the manifest hold (for less than 4 GiB of entries): the log first, then the tables searched from the deepest level of the manifest up to level 0, because open appends the readers level by level from 0 and get searches them from the last. An older value in a deeper level therefore hides a newer one above it.\<close>

theorem reopen_exact:
  assumes "db_ok crc ts e w" "load ts e < 2 ^ 32" "sound_listing (w_readdir w)"
  shows "\<exists>e' w'. eng_open crc (e_path e) opts w = (Inr e', w') \<and>
    (\<forall>k. fst (eng_get k (e', w')) =
       Inr (Option.bind ((table_lookup (reordered ts e) ++ mt_lookup (e_mem e)) k) (unpack_value (w_clock w (w_ticks w')))))"
  by (rule reopen_reads [OF assms])

lemma reopen_exact_witness:
  "\<exists>e e' w'. fst (eng_get [1] (e, stacked_world ''db'' 7)) = Inr (Some [8]) \<and>
     eng_open (\<lambda>_. 5) (e_path e) default_options (stacked_world ''db'' 7) = (Inr e', w') \<and>
     fst (eng_get [1] (e', w')) = Inr (Some [9])"
proof -
  obtain m where m: "mt_inv m" "immutable m = None" "mt_lookup m = Map.empty" using mt_new_spec [of 100] by blast
  then have empty: "sl_contents (active m) = []" by (simp add: mt_lookup_settled)
  let ?e = "small_engine ''db'' stacked_manifest stacked m" and ?w = "stacked_world ''db'' 7"
  note s = stacked_ok(2-) [OF m(1,2) empty refl, of "''db''"]
  have db: "db_ok (\<lambda>_. 5) stacked ?e ?w" by (rule stacked_ok(1) [OF m(1,2) empty refl])
  have mem: "e_mem ?e = m" by (simp add: small_engine_def)
  have clk: "w_clock ?w n = 7" for n by (simp add: stacked_world_def new_world_def)
  have before: "fst (eng_get [1] (?e, ?w)) = Inr (Some [8])"
    using eng_get_db [OF db, of "[1]"] by (auto simp: view_def stored_def mem m(3) unpack_plain tombstone_def)
  obtain e' w' where "eng_open (\<lambda>_. 5) (e_path ?e) default_options ?w = (Inr e', w')" "fst (eng_get [1] (e', w')) = Inr (Some [9])"
    using reopen_exact [OF db s(1) s(3), of default_options] by (auto simp: s(2) mem m(3) clk unpack_plain tombstone_def)
  then show ?thesis using before by blast
qed

subsection \<open>Batches, snapshots, closing and repair\<close>

text \<open>C9: While level 1 has room for another table, nothing lies below level 1 and the sizes and ids stay below the bounds, write_batch returns Ok, and what a get returns afterwards for every key is: what it returned before when the batch does not name the key, nothing when the last operation on it deletes, and for a last put of a value shorter than eight bytes the value (as a marker when it looks like one). A value of eight bytes or more comes back without its first eight bytes: the batch stores it without the sequence number that every read strips.\<close>

theorem write_batch_exact:
  assumes "db_ok crc ts e w" "\<forall>n. w_clock w n = now" "ops_short (wb_ops b)" "64 + load ts e + ops_weight (wb_ops b) < 2 ^ 32"
    and "unat (e_next_sst e) + 2 < 2 ^ 64" "roomy (e_opts e) (e_manifest e)" "shallow (e_manifest e)"
  shows "\<exists>e' w'. eng_write_batch crc b (e, w) = (Inr (), (e', w')) \<and>
    (\<forall>k. fst (eng_get k (e', w')) =
       (case last_op k (wb_ops b) of
          None \<Rightarrow> fst (eng_get k (e, w))
        | Some (BDelete k') \<Rightarrow> Inr None
        | Some (BPut k' val) \<Rightarrow> Inr (unpack_inner now (if 8 \<le> length val then drop 8 val else val))))"
proof -
  obtain tbl where sys: "sys_ok tbl ts e w" using assms(1) by (rule db_okE)
  obtain tbl' ts' e' w' where r: "eng_write_batch crc b (e, w) = (Inr (), (e', w'))" "sys_ok tbl' ts' e' w'"
    "\<forall>t \<ge> now. view t ts' e' = batch_seen t (wb_ops b) (view t ts e)" "same_front (e, w) (e', w')"
    using write_batch_spec [OF assms] by blast
  have clk: "w_clock w n = now" "w_clock w' n = now" for n using assms(2) r(4) by simp_all
  have "fst (eng_get k (e', w')) = Inr (batch_seen now (wb_ops b) (view now ts e) k)"
    "fst (eng_get k (e, w)) = Inr (view now ts e k)" for k
    using r(3) by (simp_all add: eng_get_view [OF sys_okD(1) [OF r(2)]] eng_get_view [OF sys_okD(1) [OF sys]] clk)
  then show ?thesis using r(1)
    by (intro exI [of _ e'] exI [of _ w']) (auto simp: batch_read split: option.splits batch_op.splits)
qed

lemma write_batch_exact_witness:
  "\<exists>e w e' w'. eng_write_batch (\<lambda>_. 5) \<lparr>wb_ops = [BPut [1] [10, 11, 12, 13, 14, 15, 16, 17, 18], BPut [2] [7]]\<rparr> (e, w) =
       (Inr (), (e', w')) \<and> fst (eng_get [1] (e', w')) = Inr (Some [18]) \<and> fst (eng_get [2] (e', w')) = Inr (Some [7])"
proof -
  obtain m where m: "mt_inv m" "mt_lookup m = Map.empty" "immutable m = None" using mt_new_spec [of 100] by blast
  then have empty: "sl_contents (active m) = []" by (simp add: mt_lookup_settled)
  let ?e = "small_engine ''db'' manifest_new [] m" and ?w = "blank_world ''db'' 7"
  let ?b = "\<lparr>wb_ops = [BPut [1] [10, 11, 12, 13, 14, 15, 16, 17, 18], BPut [2] [7]]\<rparr>"
  note bl = blank_ok [OF m(1,3) empty refl]
  have fits: "ops_short (wb_ops ?b)" "64 + load [] ?e + ops_weight (wb_ops ?b) < 2 ^ 32"
    by (simp_all add: bl(2) entry_weight_def)
  have room: "unat (e_next_sst ?e) + 2 < 2 ^ 64" "roomy (e_opts ?e) (e_manifest ?e)" "shallow (e_manifest ?e)"
    using roomy_new by (simp_all add: small_engine_def)
  obtain e' w' where r: "eng_write_batch (\<lambda>_. 5) ?b (?e, ?w) = (Inr (), (e', w'))"
    "\<forall>k. fst (eng_get k (e', w')) =
       (case last_op k (wb_ops ?b) of None \<Rightarrow> fst (eng_get k (?e, ?w)) | Some (BDelete k') \<Rightarrow> Inr None
        | Some (BPut k' val) \<Rightarrow> Inr (unpack_inner 7 (if 8 \<le> length val then drop 8 val else val)))"
    using write_batch_exact [OF bl(1) bl(4) fits room] by blast
  have "fst (eng_get [1] (e', w')) = Inr (Some [18])" "fst (eng_get [2] (e', w')) = Inr (Some [7])"
    using r(2) by (simp_all add: last_op_def unpack_inner_def unwrap_ttl_def tombstone_def)
  then show ?thesis using r(1) by blast
qed

text \<open>C10: A batch is not atomic under a crash: when its first put fills the memtable, the flush at the end of the batch truncates the log although the later put is only in the new memtable. There is a state satisfying the invariant on which a batch of two puts returns Ok and both are visible, and after a crash and open the first is there and the second is gone.\<close>

theorem batch_crash_loses_tail:
  shows "\<exists>e w e1 w1 e2 w2. db_ok crc [] e w \<and>
     eng_write_batch crc \<lparr>wb_ops = [BPut [1] [7], BPut [2] [8]]\<rparr> (e, w) = (Inr (), (e1, w1)) \<and>
     fst (eng_get [2] (e1, w1)) = Inr (Some [8]) \<and> eng_open crc (e_path e1) default_options w1 = (Inr e2, w2) \<and>
     fst (eng_get [1] (e2, w2)) = Inr (Some [7]) \<and> fst (eng_get [2] (e2, w2)) = Inr None"
  by (rule batch_tail_lost)

text \<open>C11: A torn record at the end of the log hides the records appended after it. On a state satisfying the invariant a put is cut after 20 bytes of its record and the process dies; the directory opens; a second put returns Ok, is synced and reads back; after the next open its key is absent, because open neither truncates the torn record nor starts a new log, and the reader takes the second record for the missing bytes of the first.\<close>

theorem acknowledged_put_hidden:
  shows "\<exists>e err e1 w1 e2 w2 e3 w3 e4 w4. db_ok crc [] e (blank_world ''db'' 7) \<and>
     eng_put crc [1] (replicate 100 0) (e, faulty (\<lambda>_. Some 20) (blank_world ''db'' 7)) = (Inl err, (e1, w1)) \<and>
     eng_open crc ''db'' default_options (restart w1) = (Inr e2, w2) \<and> eng_put crc [2] [9] (e2, w2) = (Inr (), (e3, w3)) \<and>
     fst (eng_get [2] (e3, w3)) = Inr (Some [9]) \<and> eng_open crc ''db'' default_options w3 = (Inr e4, w4) \<and>
     fst (eng_get [2] (e4, w4)) = Inr None"
  by (rule torn_record_hides_put)

text \<open>C12: A compaction deletes the files of its inputs before it saves the manifest that names its output. compact_level is the part up to that save followed by the save; a process that dies between the two during a compaction of level 0, with nothing below level 1, leaves a directory that opens without an error, and every key of the compacted tables that is not in the memtable is gone, while all other keys read as before. For every state that satisfies the invariant, with sizes and ids below the bounds.\<close>

theorem compaction_crash_loses_tables:
  assumes "db_ok crc ts e w" "shallow (e_manifest e)" "\<forall>n. w_clock w n = now" "sound_listing (w_readdir w)"
    and "ssts_at_level (e_manifest e) 0 \<noteq> []"
    and "32 + load ts e < 2 ^ 32" "unat (e_next_sst e) + 1 < 2 ^ 64"
  shows "compact_level 0 = st_bind (compact_front 0) (\<lambda>_. st_bind save_manifest (\<lambda>_.
      count_metric (\<lambda>m. m\<lparr>m_compactions := m_compactions m + 1\<rparr>))) \<and>
    (\<exists>e1 w1 e2 w2. compact_front 0 (e, w) = (Inr (), (e1, w1)) \<and> eng_open crc (e_path e) opts w1 = (Inr e2, w2) \<and>
       (\<forall>k. fst (eng_get k (e2, w2)) =
          Inr (if mt_lookup (e_mem e) k = None \<and> table_lookup (inputs ts e 0) k \<noteq> None then None else view now ts e k)))"
  using compact_level_split [of 0] compaction_crash [OF assms] unfolding recovers_def by blast

lemma compaction_crash_loses_tables_witness:
  "\<exists>ts e w e1 w1 e2 w2. view 7 ts e [1] = Some [7] \<and> compact_front 0 (e, w) = (Inr (), (e1, w1)) \<and>
     eng_open (\<lambda>_. 5) (e_path e) default_options w1 = (Inr e2, w2) \<and> fst (eng_get [1] (e2, w2)) = Inr None"
proof -
  obtain ts e w where f: "db_ok (\<lambda>_. 5) ts e w" "shallow (e_manifest e)" "\<forall>n. w_clock w n = 7" "sound_listing (w_readdir w)" "ssts_at_level (e_manifest e) 0 \<noteq> []"
    "32 + load ts e < 2 ^ 32" "unat (e_next_sst e) + 1 < 2 ^ 64"
    and key: "mt_lookup (e_mem e) [1] = None" "table_lookup (inputs ts e 0) [1] \<noteq> None" "view 7 ts e [1] = Some [7]"
    using flushed_db by blast
  obtain e1 w1 e2 w2 where "compact_front 0 (e, w) = (Inr (), (e1, w1))" "eng_open (\<lambda>_. 5) (e_path e) default_options w1 = (Inr e2, w2)"
    "fst (eng_get [1] (e2, w2)) = Inr (if mt_lookup (e_mem e) [1] = None \<and> table_lookup (inputs ts e 0) [1] \<noteq> None then None else view 7 ts e [1])"
    using compaction_crash_loses_tables [OF f, of default_options] by blast
  moreover from this(3) key(1,2) have "fst (eng_get [1] (e2, w2)) = Inr None" by simp
  ultimately show ?thesis using key(3) by blast
qed

text \<open>C13: get_at returns the newest version among the memtable and the tables that is older than the snapshot, unpacked as get unpacks it. It agrees with get when the newest version of the key is older than the snapshot; a key that was overwritten in the memtable after the snapshot reads as absent when no table holds an older version, because the memtable keeps one version per key.\<close>

theorem snapshot_exact:
  assumes "eng_ok tbl ts e"
  shows "fst (eng_get_at k snap (e, w)) = Inr (Option.bind (stored_at snap ts e k) (unpack_inner (w_clock w (w_ticks w)))) \<and>
    ((\<forall>v val seq. stored ts e k = Some v \<longrightarrow> decode_with_seq v = Some (val, seq) \<longrightarrow> seq < snap_seq snap) \<longrightarrow>
       fst (eng_get_at k snap (e, w)) = fst (eng_get k (e, w))) \<and>
    ((\<exists>val seq. mt_lookup (e_mem e) k = Some (encode_with_seq val seq) \<and> \<not> seq < snap_seq snap) \<longrightarrow>
       table_lookup ts k = None \<longrightarrow> fst (eng_get_at k snap (e, w)) = Inr None)"
proof -
  have at: "fst (eng_get_at k snap (e, w)) = Inr (Option.bind (stored_at snap ts e k) (unpack_inner (w_clock w (w_ticks w))))"
    using eng_get_at_spec [OF assms, of k snap w] by auto
  then show ?thesis
    using stored_at_current [of ts e k snap "w_clock w (w_ticks w)"] stored_at_overwritten [of e k _ _ snap ts]
    by (auto simp: eng_get_view [OF assms])
qed

lemma snapshot_exact_witness:
  "\<exists>e. fst (eng_get [1] (e, new_world 7)) = Inr (Some [2]) \<and>
     fst (eng_get_at [1] \<lparr>snap_seq = 6\<rparr> (e, new_world 7)) = Inr (Some [2]) \<and>
     fst (eng_get_at [1] \<lparr>snap_seq = 5\<rparr> (e, new_world 7)) = Inr None"
proof -
  obtain m0 where m0: "mt_inv m0" "mt_lookup m0 = Map.empty" using mt_new_spec [of 100] by blast
  obtain m where m: "mt_inv m" "mt_lookup m = [[1] \<mapsto> encode_with_seq [2] 5]"
    using mt_put_spec [OF m0(1), of "[1]" "encode_with_seq [2] 5" 0] m0(2) by auto
  let ?e = "small_engine ''db'' manifest_new [] m"
  have ok: "eng_ok (table_map []) [] ?e" by (rule small_engine_ok [OF m(1)]) simp_all
  have mem: "mt_lookup (e_mem ?e) [1] = Some (encode_with_seq [2] 5)" by (simp add: small_engine_def m(2))
  then have get: "fst (eng_get [1] (?e, new_world 7)) = Inr (Some [2])"
    by (simp add: eng_get_view [OF ok] view_def stored_def unpack_plain tombstone_def)
  have "\<forall>v val seq. stored [] ?e [1] = Some v \<longrightarrow> decode_with_seq v = Some (val, seq) \<longrightarrow> seq < snap_seq \<lparr>snap_seq = 6\<rparr>"
    using mem by (simp add: stored_def decode_encode_seq)
  then have "fst (eng_get_at [1] \<lparr>snap_seq = 6\<rparr> (?e, new_world 7)) = fst (eng_get [1] (?e, new_world 7))"
    using snapshot_exact [OF ok, of "[1]" "\<lparr>snap_seq = 6\<rparr>" "new_world 7"] by blast
  moreover have "fst (eng_get_at [1] \<lparr>snap_seq = 5\<rparr> (?e, new_world 7)) = Inr None"
  proof -
    have "\<exists>val seq. mt_lookup (e_mem ?e) [1] = Some (encode_with_seq val seq) \<and> \<not> seq < snap_seq \<lparr>snap_seq = 5\<rparr>"
      using mem by (intro exI [of _ "[2]"] exI [of _ 5]) simp
    moreover have "table_lookup [] [1] = None" by simp
    ultimately show ?thesis using snapshot_exact [OF ok, of "[1]" "\<lparr>snap_seq = 5\<rparr>" "new_world 7"] by blast
  qed
  ultimately show ?thesis using get by (intro exI [of _ ?e]) simp
qed

text \<open>C14: On a state that satisfies the invariant, with room for another table in level 1, nothing below level 1 and sizes and ids below the bounds, close returns Ok and loses nothing: everything is in tables on the disk that satisfy the invariant again, still with nothing below level 1, the log is empty, and the view of the store is as before. When those tables lie in one level, opening the directory gives an engine on which every key reads as before close.\<close>

theorem close_then_open:
  assumes "db_ok crc ts e w" "\<forall>n. w_clock w n = now" "roomy (e_opts e) (e_manifest e)" "shallow (e_manifest e)"
    and "32 + load ts e < 2 ^ 32" "unat (e_next_sst e) + 2 < 2 ^ 64" "sound_listing (w_readdir w)"
  shows "\<exists>tbl' ts' e' w'. eng_close e w = (Inr (), w') \<and> sys_ok tbl' ts' e' w' \<and> mt_lookup (e_mem e') = Map.empty \<and>
    shallow (e_manifest e') \<and> (\<forall>t \<ge> now. view t ts' e' = view t ts e) \<and>
    files (w_disk w') (default_wal_path (e_path e)) = Some [] \<and>
    (one_level (e_manifest e') \<longrightarrow> (\<exists>e'' w''. eng_open crc (e_path e) opts w' = (Inr e'', w'') \<and>
       (\<forall>k. fst (eng_get k (e'', w'')) = fst (eng_get k (e, w)))))"
proof -
  obtain tbl where sys: "sys_ok tbl ts e w" using assms(1) by (rule db_okE)
  obtain tbl' ts' e' w' where r: "eng_close e w = (Inr (), w')" "sys_ok tbl' ts' e' w'" "mt_lookup (e_mem e') = Map.empty"
    "\<forall>t \<ge> now. view t ts' e' = view t ts e" "files (w_disk w') (default_wal_path (e_path e)) = Some []"
    "e_path e' = e_path e" "tables_weight ts' \<le> load ts e" "same_env w w'" "shallow (e_manifest e')"
    using eng_close_spec [OF assms(1-6)] by blast
  have clk: "w_clock w n = now" "w_clock w' n = now" for n using assms(2) r(8) by (simp_all add: same_env_def)
  have "\<exists>e'' w''. eng_open crc (e_path e) opts w' = (Inr e'', w'') \<and> (\<forall>k. fst (eng_get k (e'', w'')) = fst (eng_get k (e, w)))"
    if "one_level (e_manifest e')"
    using open_closed [OF r(2,3), of crc opts] r assms(5,7) that
    by (fastforce simp: same_env_def clk eng_get_view [OF sys_okD(1) [OF sys]])
  then show ?thesis using r by blast
qed

lemma close_then_open_witness:
  "\<exists>e w w'. eng_open (\<lambda>_. 5) ''db'' default_options (new_world 7) = (Inr e, w) \<and> eng_close e w = (Inr (), w') \<and>
     files (w_disk w') (default_wal_path ''db'') = Some []"
proof -
  note f = fresh_new_world [of "''db''" 7]
  have "o_sync_wal default_options" by (simp add: default_options_def)
  then obtain e w where o: "eng_open (\<lambda>_. 5) ''db'' default_options (new_world 7) = (Inr e, w)" "db_ok (\<lambda>_. 5) [] e w"
    "e_opts e = default_options" "unat (e_next_sst e) \<le> 1" "e_manifest e = manifest_new" "load [] e = 0" "e_path e = ''db''"
    "same_env (new_world 7) w"
    using open_fresh [of "new_world 7" "''db''" default_options "\<lambda>_. 5"] f by (auto simp: fresh_dir_def)
  have env: "\<forall>n. w_clock w n = 7" "sound_listing (w_readdir w)"
    using o(8) f by (simp_all add: same_env_def fresh_dir_def)
  have fits: "roomy (e_opts e) (e_manifest e)" "shallow (e_manifest e)" "32 + load [] e < 2 ^ 32" "unat (e_next_sst e) + 2 < 2 ^ 64"
    using o(3-6) roomy_new by simp_all
  obtain w' where "eng_close e w = (Inr (), w')" "files (w_disk w') (default_wal_path (e_path e)) = Some []"
    using close_then_open [OF o(2) env(1) fits env(2)] by blast
  then show ?thesis using o(1,7) by metis
qed

text \<open>C15: What repair makes of a directory whose numbered table files all open or are refused with an error: it returns the two counts, deletes exactly the refused tables, truncates the log (so that unflushed writes are lost), writes a manifest that lists the good tables in level 0 in directory order with empty key bounds, and touches no other file.\<close>

theorem repair_exact:
  assumes "no_faults (w_disk w)" "exists_dir (w_disk w) dir" "w_readdir w (tick (w_disk w)) dir = names"
    and "w_readdir w (w_disk w) dir = names" "distinct names"
    and "\<forall>name \<in> set names. sst_name name \<noteq> None \<longrightarrow> opens (w_disk w) (path_join dir name) \<or> refused (w_disk w) (path_join dir name)"
  shows "\<exists>w'. eng_repair exists_dir dir w = (Inr \<lparr>corrupted_files = length (dropped (w_disk w) dir names),
      recovered_ssts = length (kept (w_disk w) dir names)\<rparr>, w') \<and>
    (\<forall>q. files (w_disk w') q =
      (if q = default_wal_path dir \<and> files (w_disk w) q \<noteq> None then Some []
       else if q = manifest_path dir then Some (manifest_encode (repaired (w_disk w) dir names))
       else if q \<in> path_join dir ` set (dropped (w_disk w) dir names) then None else files (w_disk w) q))"
  using eng_repair_spec [of w exists_dir, OF assms] unfolding clear_def .

lemma repair_exact_witness:
  "\<exists>w'. eng_repair (\<lambda>_ _. True) ''db'' (broken_world ''db'') = (Inr \<lparr>corrupted_files = 1, recovered_ssts = 1\<rparr>, w')"
proof -
  let ?w = "broken_world ''db''"
  have nf: "no_faults (w_disk ?w)" using no_faults_empty_disk by (simp add: broken_world_def no_faults_def empty_disk_def)
  have names: "w_readdir ?w d ''db'' = broken_names" for d by (simp add: broken_world_def)
  have "distinct broken_names" by (simp add: broken_names_def pad6_def dec.simps digit_def)
  from repair_exact [where exists_dir = "\<lambda>_ _. True", OF nf _ names names this broken_found(3)]
  show ?thesis by (auto simp: broken_found(1,2))
qed

subsection \<open>The shared handle and the interfaces\<close>



text \<open>C17: An expiry that does not fit 64 bits is a panic, not an error (with overflow checks on), and because it happens under the lock it poisons the handle: from then on no call of any thread reaches the engine, and every call panics.\<close>

theorem ttl_overflow_poisons:
  assumes "\<not> db_poisoned d" "2 ^ 64 \<le> unat (w_clock w (w_ticks w)) + unat ttl"
  shows "\<exists>d' w'. db_put_with_ttl crc key val ttl (d, w) = (Inl (Panic ''attempt to add with overflow''), (d', w')) \<and>
    (\<forall>todo s. thread_run crc (fresh_threads d' w' todo) s \<longrightarrow>
       t_db s = d' \<and> t_world s = w' \<and> (\<forall>x \<in> set (t_history s). snd (snd x) = Inl (Panic poison_msg)))"
proof -
  obtain r d' w' where r: "db_put_with_ttl crc key val ttl (d, w) = (r, (d', w'))" by (cases "db_put_with_ttl crc key val ttl (d, w)") auto
  have "r = Inl (Panic ''attempt to add with overflow'')"
    using r ttl_overflow [OF assms(2), of crc key val "db_engine d"] assms(1)
    by (auto simp: db_methods locked_eq split: prod.splits)
  then have p: "r = Inl (Panic ''attempt to add with overflow'')" "db_poisoned d'"
    using locked_poisons(1) [OF r [unfolded db_methods]] by simp_all
  have "t_db s = d' \<and> t_world s = w' \<and> (\<forall>x \<in> set (t_history s). snd (snd x) = Inl (Panic poison_msg))"
    if "thread_run crc (fresh_threads d' w' todo) s" for todo s
    using thread_run_poisoned [OF that _ refl] p(2) by (simp add: fresh_threads_def frozen_def)
  then show ?thesis using r p(1) by blast
qed

lemma ttl_overflow_poisons_witness:
  "\<exists>d w d' w'. db_put_with_ttl (\<lambda>_. 5) [1] [2] 0xFFFFFFFFFFFFFFFF (d, w) =
     (Inl (Panic ''attempt to add with overflow''), (d', w'))"
proof -
  obtain m where "mt_with_max_size 100 = Inr m" using mt_new_spec [of 100] by blast
  let ?d = "\<lparr>db_engine = small_engine ''db'' manifest_new [] m, db_poisoned = False, db_handles = 1\<rparr>"
  have ok: "\<not> db_poisoned ?d" by simp
  have "(2 :: nat) ^ 64 \<le> unat (w_clock (new_world 7) (w_ticks (new_world 7))) + unat (0xFFFFFFFFFFFFFFFF :: u64)"
    by (simp add: new_world_def)
  from ttl_overflow_poisons [OF ok this, of "\<lambda>_. 5" "[1]" "[2]"] show ?thesis by blast
qed

text \<open>C18: The words of a batch on the command line are read back as its operations, with one exception: a deletion that stands last is dropped silently, because the loop asks for two arguments after every operation.\<close>

theorem cli_batch_words:
  shows "batch_args (concat (map op_words ops)) batch_new =
    Inr \<lparr>wb_ops = (if ops \<noteq> [] \<and> is_delete (last ops) then butlast ops else ops)\<rparr>"
  using batch_args_words [of ops batch_new] by (simp add: taken_def batch_new_def)

text \<open>C19: On every reachable state, a POST to /api/put is answered with success and a GET of the same key after it with the value: the text field is the value itself when that is valid UTF-8 and not one of the markers of the engine, and the hexadecimal field is the dump of its bytes.\<close>

theorem http_put_get:
  assumes "fresh_dir dir now w" "o_sync_wal opts" "eng_open crc dir opts w = (Inr e0, w0)"
    and "sys_run crc (e0, w0) ls (db_engine d, w1)" "64 + (cost ls + call_cost (Put_call (as_bytes key) (as_bytes val))) < 2 ^ 32"
    and "\<not> db_poisoned d" "allowed (Call (Put_call (as_bytes key) (as_bytes val)) Done) (db_engine d)"
    and "\<not> marker_like (as_bytes val)" "utf8_valid (as_bytes val)"
  shows "\<exists>s s' msg. serve crc show_key up (PutKey key val) (d, w1) =
      ((Answer (Action_body \<lparr>ac_success = True, ac_message = msg\<rparr>), []), s) \<and>
    serve crc show_key up' (GetKey key) s =
      ((Answer (Kv_body \<lparr>kv_found = True, kv_key = key, kv_value = Some val, kv_value_hex = Some (hex_dump (as_bytes val))\<rparr>), []), s')"
proof -
  let ?c = "Put_call (as_bytes key) (as_bytes val)"
  have "sim crc (cost ls + call_cost ?c) (e0, w0) (now, Map.empty)" using sim_open [OF assms(1,2,5), of crc] assms(3) by auto
  from sys_run_sim [OF assms(4) this] obtain later m where a: "sim crc (call_cost ?c + 0) (db_engine d, w1) (later, m)" by auto
  have "call_for (PutKey key val) = Some ?c" by simp
  from serve_sim [OF a assms(6) this assms(7), of show_key up] obtain r d1 w2 m1 where
    p: "serve crc show_key up (PutKey key val) (d, w1) = ((reply_for (PutKey key val) r, []), (d1, w2))"
    "spec_step (later, m) (Call ?c r) (later, m1)" "sim crc (call_cost (Get_call (as_bytes key)) + 0) (db_engine d1, w2) (later, m1)"
    "\<not> db_poisoned d1" by auto
  have m1: "m1 = m(as_bytes key \<mapsto> (as_bytes val, None))" using p(2) meaning_plain [OF assms(8)] by (auto elim!: spec_putE)
  have "call_for (GetKey key) = Some (Get_call (as_bytes key))" by simp
  from serve_sim [OF p(3,4) this, of show_key up'] obtain r' d2 w3 m2 where
    g: "serve crc show_key up' (GetKey key) (d1, w2) = ((reply_for (GetKey key) r', []), (d2, w3))"
    "spec_step (later, m1) (Call (Get_call (as_bytes key)) r') (later, m2)" by auto
  have "r' = Found (Some (as_bytes val))" using g(2) by (auto elim!: spec_getE simp: m1 shown_def)
  then show ?thesis using p(1) g(1) by (simp add: kv_found_or_not_def from_utf8_lossy_id [OF assms(9)])
qed

lemma http_put_get_witness:
  "\<exists>e w s s' msg. eng_open (\<lambda>_. 5) ''db'' default_options (new_world 7) = (Inr e, w) \<and>
     serve (\<lambda>_. 5) (\<lambda>_. []) 0 (PutKey ''k'' ''v'') (\<lparr>db_engine = e, db_poisoned = False, db_handles = 1\<rparr>, w) =
       ((Answer (Action_body \<lparr>ac_success = True, ac_message = msg\<rparr>), []), s) \<and>
     serve (\<lambda>_. 5) (\<lambda>_. []) 0 (GetKey ''k'') s =
       ((Answer (Kv_body \<lparr>kv_found = True, kv_key = ''k'', kv_value = Some ''v'', kv_value_hex = Some (hex_dump (as_bytes ''v''))\<rparr>), []), s')"
proof -
  have room: "64 + 0 < (2 :: nat) ^ 32" by simp
  obtain e w where o: "eng_open (\<lambda>_. 5) ''db'' default_options (new_world 7) = (Inr e, w)" "roomy (e_opts e) (e_manifest e)"
    by (rule new_engine [OF room])
  let ?d = "\<lparr>db_engine = e, db_poisoned = False, db_handles = 1\<rparr>"
  have sync: "o_sync_wal default_options" by (simp add: default_options_def)
  have run: "sys_run (\<lambda>_. 5) (e, w) [] (db_engine ?d, w)" by (simp add: runs.Start)
  have small: "64 + (cost [] + call_cost (Put_call (as_bytes ''k'') (as_bytes ''v''))) < 2 ^ 32" by (simp add: cost_def)
  have ok: "\<not> db_poisoned ?d" "allowed (Call (Put_call (as_bytes ''k'') (as_bytes ''v'')) Done) (db_engine ?d)"
    using o(2) by simp_all
  have v: "as_bytes ''v'' = [0x76]" by (simp add: as_bytes_def)
  have val: "\<not> marker_like (as_bytes ''v'')" by (simp add: v marker_like_def tombstone_def)
  have utf: "utf8_valid (as_bytes ''v'')"
    by (simp add: v utf8_valid.simps [of "[0x76]"] utf8_chunk_def utf8_width_def)
  from http_put_get [OF fresh_new_world sync o(1) run small ok val utf] o(1) show ?thesis by blast
qed

text \<open>C20: From the start of the server to the next process: started on an empty directory, with an address that tokio binds, the server opens the database, prints where and its banner, and from then on serves the routes (axum::serve does not return; the process ends when it is killed). Any sequence of requests, handled one after the other within the bounds of a run, is answered as the map answers it: every request gets a response, none with an error status. When the process is killed after any such sequence, a kv-cli get on the directory prints what the map of the session holds for the key, provided one level holds all tables.\<close>

theorem server_session:
  assumes "fresh_dir dir now w" "server_args args = (dir, addr)" "bind addr = Inr l" "local_addr l = Inr local"
  shows "\<exists>d0 w0. server_main crc show_key debug bind local_addr args w =
      (\<lparr>out = (''Database opened at: '' @ dir) # banner local, err = []\<rparr>, Running (serve crc show_key) (d0, w0)) \<and>
    (\<forall>xs d w1. runs (http_step crc show_key) (d0, w0) xs (d, w1) \<longrightarrow> 64 + sum_list (map request_cost xs) < 2 ^ 32 \<longrightarrow>
       (\<exists>m. runs http_spec (now, Map.empty) xs (now, m) \<and> (\<forall>x \<in> set xs. \<exists>b. snd (snd x) = Answer b) \<and>
          (one_level (e_manifest (db_engine d)) \<longrightarrow>
             (\<exists>w2. cli_main crc show_key took [prog, dir, ''get'', key] w1 =
                ((show_found took (shown m now (as_bytes key)), Returned), w2)))))"
proof -
  obtain d0 w0 where o: "db_open_with_options crc dir default_options w = (Inr d0, w0)" using db_opens [OF assms(1)] by blast
  have "\<exists>m. runs http_spec (now, Map.empty) xs (now, m) \<and> (\<forall>x \<in> set xs. \<exists>b. snd (snd x) = Answer b) \<and>
      (one_level (e_manifest (db_engine d)) \<longrightarrow> (\<exists>w2. cli_main crc show_key took [prog, dir, ''get'', key] w1 =
         ((show_found took (shown m now (as_bytes key)), Returned), w2)))"
    if run: "runs (http_step crc show_key) (d0, w0) xs (d, w1)" "64 + sum_list (map request_cost xs) < 2 ^ 32" for xs d w1
  proof -
    obtain m where m: "runs http_spec (now, Map.empty) xs (now, m)" "http_rel crc dir 0 (d, w1) (now, m)"
      using session_left [OF assms(1) o run] by blast
    then have rel: "sim crc 0 (db_engine d, w1) (now, m)" "e_path (db_engine d) = dir" by (simp_all add: http_rel_def)
    show ?thesis using m(1) http_spec_run [OF m(1)] cli_get [OF rel(1), of show_key took prog key] unfolding rel(2) by blast
  qed
  then show ?thesis using server_running [where bind = bind and local_addr = local_addr, OF assms(2) o assms(3,4)] by blast
qed

lemma server_session_witness:
  "\<exists>d0 w0 d w1 w2 b m. server_main (\<lambda>_. 5) (\<lambda>_. []) (\<lambda>_. []) Inr (\<lambda>_. Inr ''here'') [''server'', ''db''] (new_world 7) =
       (\<lparr>out = (''Database opened at: '' @ ''db'') # banner ''here'', err = []\<rparr>, Running (serve (\<lambda>_. 5) (\<lambda>_. [])) (d0, w0)) \<and>
     serve (\<lambda>_. 5) (\<lambda>_. []) 0 (PutKey ''k'' ''v'') (d0, w0) = ((Answer b, []), (d, w1)) \<and>
     cli_main (\<lambda>_. 5) (\<lambda>_. []) [] [''kv-cli'', ''db'', ''get'', ''k''] w1 = ((show_found [] (shown m 7 (as_bytes ''k'')), Returned), w2) \<and>
     m = [as_bytes ''k'' \<mapsto> (as_bytes ''v'', None)]"
proof -
  let ?crc = "\<lambda>_. 5" and ?k = "as_bytes ''k''" and ?v = "as_bytes ''v''" and ?args = "[''server'', ''db'']"
  obtain e w e1 w1 where p: "eng_open ?crc ''db'' default_options (new_world 7) = (Inr e, w)"
    "eng_put ?crc ?k ?v (e, w) = (Inr (), (e1, w1))" "e_manifest e = manifest_new" "e_manifest e1 = manifest_new" "e_opts e = default_options"
    using first_write [of ?k ?v ?crc] by auto
  let ?new = "\<lparr>db_engine = e, db_poisoned = False, db_handles = 1\<rparr>" and ?d = "\<lparr>db_engine = e1, db_poisoned = False, db_handles = 1\<rparr>"
  obtain b where s: "serve ?crc (\<lambda>_. []) 0 (PutKey ''k'' ''v'') (?new, w) = ((Answer b, []), (?d, w1))"
    using answer_ok [where d = ?new and m = "eng_put ?crc ?k ?v" and w = w and x = "()" and e = e1 and w' = w1] p(2)
    by (auto simp: http_put_def db_methods)
  have o: "db_open_with_options ?crc ''db'' default_options (new_world 7) = (Inr ?new, w)"
    using p(1) by (simp add: db_open_with_options_def st_bind_def st_return_def)
  have args: "server_args ?args = (''db'', ''127.0.0.1:8080'')" by (simp add: server_args_def)
  let ?xs = "[(0, PutKey ''k'' ''v'', Answer b)]"
  obtain d0 w0 where main: "server_main ?crc (\<lambda>_. []) (\<lambda>_. []) Inr (\<lambda>_. Inr ''here'') ?args (new_world 7) =
      (\<lparr>out = (''Database opened at: '' @ ''db'') # banner ''here'', err = []\<rparr>, Running (serve ?crc (\<lambda>_. [])) (d0, w0))"
    and session: "\<And>xs d w1. runs (http_step ?crc (\<lambda>_. [])) (d0, w0) xs (d, w1) \<Longrightarrow> 64 + sum_list (map request_cost xs) < 2 ^ 32 \<Longrightarrow>
       \<exists>m. runs http_spec (7, Map.empty) xs (7, m) \<and> (\<forall>x \<in> set xs. \<exists>b. snd (snd x) = Answer b) \<and>
          (one_level (e_manifest (db_engine d)) \<longrightarrow>
             (\<exists>w2. cli_main ?crc (\<lambda>_. []) [] [''kv-cli'', ''db'', ''get'', ''k''] w1 =
                ((show_found [] (shown m 7 (as_bytes ''k'')), Returned), w2)))"
    using server_session [where bind = Inr and local_addr = "\<lambda>_. Inr ''here''" and crc = ?crc and show_key = "\<lambda>_. []" and
        debug = "\<lambda>_. []" and took = "[]" and prog = "''kv-cli''" and key = "''k''",
        OF fresh_new_world args refl refl, of 7] by blast
  have "(d0, w0) = (?new, w)"
    using main server_running [where bind = Inr and local_addr = "\<lambda>_. Inr ''here''" and show_key = "\<lambda>_. []" and
      debug = "\<lambda>_. []", OF args o refl refl] by simp
  moreover have "runs (http_step ?crc (\<lambda>_. [])) (?new, w) ?xs (?d, w1)" using s p(3,5) roomy_new by (simp add: http_step_def)
  moreover have "64 + sum_list (map request_cost ?xs) < 2 ^ 32" by (simp add: request_cost_def)
  moreover have "one_level (e_manifest (db_engine ?d))" using p(4) one_level_new by simp
  ultimately obtain m w2 where c: "runs http_spec (7, Map.empty) ?xs (7, m)"
    "cli_main ?crc (\<lambda>_. []) [] [''kv-cli'', ''db'', ''get'', ''k''] w1 = ((show_found [] (shown m 7 ?k), Returned), w2)"
    using session [of ?xs ?d w1] by auto
  have "meaning ?v = Some (?v, None)" by (rule meaning_plain) (simp add: marker_like_def tombstone_def as_bytes_def)
  with c(1) have "m = [?k \<mapsto> (?v, None)]" by (auto simp: http_spec_def elim!: spec_putE)
  then show ?thesis using main s c(2) \<open>(d0, w0) = (?new, w)\<close> by blast
qed

text \<open>C21: The reply to a GET of a found key always carries well-formed UTF-8 text, whatever bytes are stored; the text is the stored value exactly when that is UTF-8 itself, and the hexadecimal field determines the value in every case.\<close>

theorem http_value_text:
  shows "(\<exists>t. kv_found_or_not key (Some val) =
      Kv_body \<lparr>kv_found = True, kv_key = key, kv_value = Some t, kv_value_hex = Some (hex_dump val)\<rparr> \<and>
      utf8_valid (as_bytes t) \<and> (as_bytes t = val \<longleftrightarrow> utf8_valid val)) \<and>
    (kv_found_or_not key r = kv_found_or_not key' r' \<longleftrightarrow> key = key' \<and> r = r')"
proof -
  have "from_utf8_lossy val = val \<longleftrightarrow> utf8_valid val"
    using from_utf8_lossy_valid [of val] from_utf8_lossy_id [of val] by metis
  then show ?thesis using from_utf8_lossy_valid [of val] kv_found_inject [of key r key' r'] by (auto simp: kv_found_or_not_def)
qed

subsection \<open>SSTables\<close>

text \<open>C22: An SSTable that the builder wrote without error from strictly sorted entries that fit the format is opened again, and get on the opened reader returns exactly the value the entries hold for a key (and None for every other key, bloom-filter false positives included), whatever the shared block cache holds of the known files; the cache stays coherent.\<close>

theorem sstable_build_open_get:
  assumes "sorted_keys es" "sst_fits es" "sst_write p bsize es d = (Inr (), d')" "no_faults d'"
  shows "\<exists>bs d''. sst_open p sst_id d' = (Inr (opened bs sst_id), d'') \<and> concat (map entries bs) = es \<and>
    (\<forall>tbl co k. tbl sst_id = Some bs \<longrightarrow> cache_ok tbl co \<longrightarrow>
       (\<exists>co'. sst_get (opened bs sst_id) k co = (Inr (map_of es k), co') \<and> cache_ok tbl co'))"
  using sst_write_open [OF assms, of sst_id] sst_get_spec sst_goodD(1) by meson

lemma sstable_build_open_get_witness:
  "\<exists>d' d'' bs. sst_write ''t'' 16 [([1], [2]), ([1, 3], [4, 5])] empty_disk = (Inr (), d') \<and>
     sst_open ''t'' 7 d' = (Inr (opened bs 7), d'') \<and>
     fst (sst_get (opened bs 7) [1, 3] None) = Inr (Some [4, 5])"
proof -
  let ?es = "[([1], [2]), ([1, 3], [4, 5])] :: entry list"
  have es: "sorted_keys ?es" "sst_fits ?es" by (simp_all add: sorted_keys_def sst_fits_def entry_weight_def)
  obtain d' where d': "sst_write ''t'' 16 ?es empty_disk = (Inr (), d')"
    using sst_write_total [OF no_faults_empty_disk es(2)] by (auto simp: st_ok_def)
  have "no_faults d'"
    using sst_write_ok [OF d' es(2)] no_faults_only_file no_faults_empty_disk by blast
  from sstable_build_open_get [OF es d' this, of 7] obtain bs d'' where b:
    "sst_open ''t'' 7 d' = (Inr (opened bs 7), d'')"
    "\<forall>tbl co k. tbl 7 = Some bs \<longrightarrow> cache_ok tbl co \<longrightarrow>
       (\<exists>co'. sst_get (opened bs 7) k co = (Inr (map_of ?es k), co') \<and> cache_ok tbl co')" by blast
  from b(2) [rule_format, of "[7 \<mapsto> bs]" None "[1, 3]"]
  have "fst (sst_get (opened bs 7) [1, 3] None) = Inr (Some [4, 5])" by auto
  with d' b(1) show ?thesis by blast
qed

text \<open>C23: Iterating over an opened SSTable, block by block through the cache, yields all its entries in key order; the iteration terminates by construction.\<close>

theorem sstable_iter_all:
  assumes "sst_good es bs" "tbl sst_id = Some bs" "cache_ok tbl co"
  shows "\<exists>co'. SSTableReader.sst_iter (opened bs sst_id) co = (Inr es, co') \<and> cache_ok tbl co'"
  by (rule sst_iter_spec [OF assms])

lemma sstable_iter_all_witness:
  "fst (SSTableReader.sst_iter (opened [block_add [1] [2] block_new] 7) None) = Inr [([1], [2])]"
proof -
  have "sst_good [([1], [2])] [block_add [1] [2] block_new]"
    by (auto simp: sst_good_def sorted_keys_def sst_fits_def entry_weight_def sst_layout_def chunk_ok_def)
  from sstable_iter_all [OF this, of "[7 \<mapsto> [block_add [1] [2] block_new]]" 7 None] show ?thesis by auto
qed

text \<open>C24: When no system call fails and the entries stay within the explicit weight bound (keys below 64 KiB, 32 + sum of 22 + 2*key + value below 2^32), building the file returns Ok: no u32 counter overflows and nothing panics; the file then is exactly the layout of its blocks, no other file is touched, and a block larger than the target holds a single entry.\<close>

theorem sstable_write_total:
  assumes "no_faults d" "sst_fits es"
  shows "\<exists>d' bs. sst_write p bsize es d = (Inr (), d') \<and> files d' p = Some (sst_bytes bs) \<and> only_file p d d' \<and>
    concat (map entries bs) = es \<and>
    (\<forall>b \<in> set bs. entries b \<noteq> [] \<and> (length (entries b) \<le> 1 \<or> estimated_size b \<le> bsize))"
proof -
  obtain x d' where "sst_write p bsize es d = (Inr x, d')" by (rule st_okE [OF sst_write_total [OF assms]])
  then have d': "sst_write p bsize es d = (Inr (), d')" by simp
  from sst_write_ok [OF this assms(2)] show ?thesis
    using d' by (auto simp: sst_layout_def chunk_ok_def)
qed

lemma sstable_write_total_witness:
  "\<exists>d' bs. sst_write ''t'' 16 [([1], [2])] empty_disk = (Inr (), d') \<and>
     files d' ''t'' = Some (sst_bytes bs) \<and> concat (map entries bs) = [([1], [2])]"
proof -
  have "sst_fits [([1], [2])]" by (simp add: sst_fits_def entry_weight_def)
  from sstable_write_total [OF no_faults_empty_disk this, of "''t''" 16] show ?thesis by blast
qed

subsection \<open>Write-ahead log\<close>

text \<open>C25: A crash or I/O failure at any system call while one more record is appended and then flushed (as the engine does with sync_wal on) leaves a log from which the reader recovers either all earlier records or those and the new one, never anything else; when the commit reports success, the new record is recovered and what the file holds is durable.\<close>

theorem wal_crash_recovery:
  assumes "wal_commit crc r (w, d) = (res, (w', d'))" "bw_buf w = []"
    and "\<forall>x \<in> set (rs @ [r]). record_fits x" "file_bytes d (bw_path w) = log_bytes crc rs"
  shows "wal_read crc (file_bytes d' (bw_path w)) \<in> {map Inr rs, map Inr (rs @ [r])} \<and>
    (res = Inr () \<longrightarrow> wal_read crc (file_bytes d' (bw_path w)) = map Inr (rs @ [r]) \<and>
       durable d' (bw_path w) = files d' (bw_path w))"
proof -
  note any = wal_commit_any [OF assms(1,2)]
  have "wal_read crc (file_bytes d' (bw_path w)) \<in> {map Inr rs, map Inr (rs @ [r])}"
    using wal_read_between [OF assms(3)] any(1,2) assms(4) by auto
  moreover have "wal_read crc (file_bytes d' (bw_path w)) = map Inr (rs @ [r])" if "res = Inr ()"
    using any(5) [OF that] wal_read_append [OF assms(3), of crc "[]"] assms(4)
    by (simp add: file_bytes_def wal_read.simps [of crc "[]"] wal_next_def)
  ultimately show ?thesis using any(5) by blast
qed

lemma wal_crash_recovery_witness:
  "let r = \<lparr>rec_op = Put, rec_key = [1], rec_value = [2, 3]\<rparr>; w = \<lparr>bw_path = ''w'', bw_buf = []\<rparr>;
       d' = snd (snd (wal_commit (\<lambda>_. 5) r (w, torn_disk 0 9)))
   in wal_read (\<lambda>_. 5) (file_bytes d' ''w'') \<in> {[], [Inr r]}"
proof -
  let ?r = "\<lparr>rec_op = Put, rec_key = [1], rec_value = [2, 3]\<rparr>" and ?w = "\<lparr>bw_path = ''w'', bw_buf = []\<rparr>"
  obtain res w' d' where run: "wal_commit (\<lambda>_. 5) ?r (?w, torn_disk 0 9) = (res, (w', d'))" by (metis surj_pair)
  from wal_crash_recovery [OF this, of "[]"] show ?thesis
    by (simp add: run record_fits_def)
qed

text \<open>C26: Cutting a log at any byte loses only a suffix of the records: the reader returns exactly the records that lie wholly before the cut, without error.\<close>

theorem wal_truncated_prefix:
  assumes "\<forall>r \<in> set rs. record_fits r"
  shows "\<exists>k \<le> length rs. wal_read crc (take n (log_bytes crc rs)) = map Inr (take k rs) \<and>
    length (log_bytes crc (take k rs)) \<le> n \<and> (k < length rs \<longrightarrow> n < length (log_bytes crc (take (Suc k) rs)))"
  by (rule wal_read_prefix [OF assms])

lemma wal_truncated_prefix_witness:
  "let rs = [\<lparr>rec_op = Put, rec_key = [1], rec_value = [2, 3]\<rparr>, \<lparr>rec_op = Delete, rec_key = [1], rec_value = []\<rparr>]
   in \<exists>k \<le> length rs. wal_read (\<lambda>_. 5) (take 25 (log_bytes (\<lambda>_. 5) rs)) = map Inr (take k rs)"
proof -
  let ?rs = "[\<lparr>rec_op = Put, rec_key = [1], rec_value = [2, 3]\<rparr>, \<lparr>rec_op = Delete, rec_key = [1], rec_value = []\<rparr>]"
  have "\<forall>r \<in> set ?rs. record_fits r" by (simp add: record_fits_def)
  from wal_truncated_prefix [OF this, of "\<lambda>_. 5" 25] show ?thesis unfolding Let_def by blast
qed

text \<open>C27: Decoding accepts only frames an encoder could have produced: an accepted buffer is the checksum of everything after it, followed by the encoding of the returned record (and possibly trailing bytes, which the checksum covers).\<close>

theorem wal_record_sound:
  assumes "record_decode crc buf = Inr r"
  shows "\<exists>trail. buf = u32_le (crc (crc_payload r @ trail)) @ crc_payload r @ trail"
  by (rule decode_sound [OF assms])

lemma wal_record_sound_witness:
  "\<exists>trail. drop 4 (record_encode (\<lambda>_. 5) \<lparr>rec_op = Put, rec_key = [1], rec_value = [2]\<rparr>) =
      u32_le 5 @ crc_payload \<lparr>rec_op = Put, rec_key = [1], rec_value = [2]\<rparr> @ trail"
  using wal_record_sound [OF record_roundtrip [of "\<lparr>rec_op = Put, rec_key = [1], rec_value = [2]\<rparr>" "\<lambda>_. 5"]]
  by (simp add: record_fits_def)

subsection \<open>Skip list and memtable\<close>

text \<open>C28: At every level of the new node, inserting into the pointer-level skip list succeeds without dereferencing a dangling pointer, running off a tower or looping, keeps every lane a sorted path through the nodes tall enough for it with nothing leaked, and refines insertion into a sorted map; the size estimate grows only for a new key.\<close>

theorem skiplist_insert_refines:
  assumes "sl_rep s as" "lvl < max_level s"
  shows "\<exists>s' as'. sl_insert_at lvl k v s = Inr s' \<and> sl_rep s' as' \<and>
    ents (arena s') as' = bt_insert k v (ents (arena s) as) \<and> max_level s' = max_level s \<and>
    sl_size s' = sl_size s + (if k \<in> fst ` set (ents (arena s) as) then 0
      else length k + length v + (lvl + 1) * size_of_ptr + size_of_node + 2 * size_of_vec)"
  using sl_insert_at_spec [OF assms, of k v] by blast

lemma skiplist_insert_refines_witness:
  "\<exists>s s' as'. sl_new 4 = Inr s \<and> sl_insert_at 2 [1] [7] s = Inr s' \<and> sl_rep s' as' \<and> ents (arena s') as' = [([1], [7])]"
proof -
  obtain s where s: "sl_new 4 = Inr s" "sl_rep s []" "ents (arena s) [] = []" "max_level s = 4"
    using sl_new_rep [of 4] by auto
  show ?thesis using skiplist_insert_refines [OF s(2), of 2 "[1]" "[7]"] s by auto
qed

text \<open>C29: get, iter and scan of a well-formed skip list return what its sorted contents say: the value of the key, all entries in order, and the entries with start <= key < end; dropping the list frees every node exactly once.\<close>

theorem skiplist_reads:
  assumes "sl_rep s as"
  shows "sl_get s k = Inr (map_of (ents (arena s) as) k) \<and> sl_iter s = Inr (ents (arena s) as) \<and>
    sl_scan s lo hi = Inr (filter (\<lambda>e. lo \<le> fst e \<and> fst e < hi) (ents (arena s) as)) \<and>
    sl_drop s = Inr (replicate (length (arena s)) None)"
  using sl_get_spec [OF assms] sl_iter_spec [OF assms] sl_scan_spec [OF assms] sl_drop_spec [OF assms] by blast

lemma skiplist_reads_witness:
  "\<exists>s. sl_new 4 = Inr s \<and> sl_get s [1] = Inr None \<and> sl_iter s = Inr [] \<and> sl_drop s = Inr [None]"
proof -
  obtain s where s: "sl_new 4 = Inr s" "sl_rep s []" using sl_new_rep [of 4] by auto
  have "length (arena s) = 1" using s(1) by (auto simp: sl_new_def node_new_def)
  then show ?thesis using skiplist_reads [OF s(2), of "[1]"] s(1) by (auto simp: ents_def)
qed

text \<open>C30: Every use of a skip list ends: from a new list with at least one lane, any sequence of insertions, a lookup, a full iteration and the drop return, so no walk along the raw pointers outlives its fuel (the number of cells), dereferences a null or freed node or frees one twice. A lookup gives the value of the last insertion of its key, the iteration gives strictly sorted keys, and the drop frees every node. Each insertion draws one random word and its level is always 0, because the lowest bit is set before the trailing zeros are counted.\<close>

theorem skiplist_runs_end:
  assumes "0 < ml"
  shows "\<exists>s s' rng' es'. sl_new ml = Inr s \<and> sl.ins_all es (s, rng) = Inr (s', rng') \<and>
    sl_get s' k = Inr (map_of (rev es) k) \<and> sl_iter s' = Inr es' \<and> sorted_keys es' \<and> map_of es' = map_of (rev es) \<and>
    sl_drop s' = Inr (replicate (length (arena s')) None) \<and> random_level rng ml = (0, xorshift rng)"
proof -
  obtain s where s: "sl_new ml = Inr s" "sl_inv s" "sl_contents s = []" using sl_inv_new [OF assms] by blast
  obtain s' rng' where r: "sl.ins_all es (s, rng) = Inr (s', rng')" "sl_inv s'"
    using sl.ins_all_ok [of "(s, rng)" es] s(2) by auto
  have get: "sl_get s' k' = Inr (map_of (rev es) k')" for k'
    using sl.get_after_ins_all [of "(s, rng)" es "(s', rng')" k'] s(2,3) r(1) by (simp add: option.case_eq_if)
  moreover obtain as where "sl_rep s' as" using r(2) by (auto simp: sl_inv_def)
  moreover note sl_get_spec [OF this] sl_iter_spec [OF this] sl_drop_spec [OF this] sl_contents_rep [OF this]
  ultimately show ?thesis
    using s(1) r(1) sl_inv_sorted [OF r(2)] random_level_zero [of rng ml] by (auto simp: random_level_def Let_def)
qed

lemma skiplist_runs_end_witness:
  "\<exists>s s' rng'. sl_new 4 = Inr s \<and> sl.ins_all [([1], [2]), ([1], [3])] (s, 9) = Inr (s', rng') \<and>
     sl_get s' [1] = Inr (Some [3])"
  using skiplist_runs_end [of 4 "[([1], [2]), ([1], [3])]" 9 "[1]"] by fastforce

text \<open>C31: A put into the memtable never fails, shadows exactly its key, whether it freezes the active list or not, freezes only when no frozen list waits and the active list exceeds the limit, and never disturbs a frozen list; get and scan return what this map says.\<close>

theorem memtable_put_get:
  assumes "mt_inv m"
  shows "\<exists>m'. mt_put k v (m, rng) = Inr (m', xorshift rng) \<and> mt_inv m' \<and> mt_lookup m' = (mt_lookup m)(k \<mapsto> v) \<and>
    (immutable m \<noteq> None \<longrightarrow> immutable m' = immutable m) \<and>
    (immutable m = None \<longrightarrow> (immutable m' \<noteq> None \<longleftrightarrow> max_size m < sl_size (active m) + grow k v (active m))) \<and>
    mt_get m' x = Inr (mt_lookup m' x) \<and>
    mt_scan m' lo hi = Inr (filter (\<lambda>e. lo \<le> fst e \<and> fst e < hi) (mt_contents m')) \<and>
    sorted_keys (mt_contents m') \<and> map_of (mt_contents m') = mt_lookup m'"
proof -
  obtain m' where m': "mt_put k v (m, rng) = Inr (m', xorshift rng)" "mt_inv m'" "mt_lookup m' = (mt_lookup m)(k \<mapsto> v)"
    "immutable m \<noteq> None \<longrightarrow> immutable m' = immutable m"
    "immutable m = None \<longrightarrow> (immutable m' \<noteq> None \<longleftrightarrow> max_size m < sl_size (active m) + grow k v (active m))"
    using mt_put_spec [OF assms, of k v rng] by (elim exE conjE) (rule that, assumption+, simp)
  show ?thesis
    by (intro exI [of _ m'] conjI m' mt_get_spec [OF m'(2)] mt_scan_spec [OF m'(2)] mt_contents_spec [OF m'(2)])
qed

lemma memtable_put_get_witness:
  "\<exists>m m'. mt_with_max_size 100 = Inr m \<and> mt_put [1] [2] (m, 9) = Inr (m', xorshift 9) \<and>
     mt_get m' [1] = Inr (Some [2]) \<and> immutable m' \<noteq> None"
proof -
  obtain m where m: "mt_with_max_size 100 = Inr m" "mt_inv m" "immutable m = None" "max_size m = 100"
    using mt_new_spec [of 100] by blast
  have "active m = \<lparr>arena = [Some \<lparr>node_key = [], node_val = [], node_next = replicate 16 None\<rparr>], head = 0,
      max_level = 16, sl_size = 24\<rparr>"
    using m(1) by (auto simp: mt_with_max_size_def sl_new_def node_new_def size_of_skiplist_def)
  then have "sl_size (active m) + grow [1] [2] (active m) = 154"
    by (simp add: grow_def sl_contents_def sl_iter_def next_at_def deref_def size_of_ptr_def size_of_node_def size_of_vec_def)
  moreover obtain m' where m': "mt_put [1] [2] (m, 9) = Inr (m', xorshift 9)" "mt_lookup m' = (mt_lookup m)([1] \<mapsto> [2])"
    "immutable m' \<noteq> None \<longleftrightarrow> max_size m < sl_size (active m) + grow [1] [2] (active m)"
    "mt_get m' [1] = Inr (mt_lookup m' [1])"
    using memtable_put_get [OF m(2), of "[1]" "[2]" 9 "[1]"] m(3) by blast
  ultimately have "mt_get m' [1] = Inr (Some [2])" "immutable m' \<noteq> None" using m(4) by simp_all
  then show ?thesis using m(1) m'(1) by blast
qed

subsection \<open>Values\<close>

text \<open>C32: A read returns the value a plain put stored exactly when that value is neither the single byte 0x00 nor at least nine bytes long with first byte 0x01: such values collide with the tombstone and the TTL markers.\<close>

theorem put_value_visible_iff:
  shows "unpack_value now (encode_with_seq v seq) = Some v \<longleftrightarrow> \<not> (v = [0] \<or> 9 \<le> length v \<and> v ! 0 = 1)"
  using unpack_plain_iff by (simp add: marker_like_def tombstone_def)

text \<open>C33: A value stored with a time to live is read back until, and not from, its expiry second; a deletion is never visible; once a stored value is invisible it stays so.\<close>

theorem ttl_expiry:
  shows "unpack_value now (encode_with_seq (ttl_encode expiry v) seq) = (if now < expiry then Some v else None) \<and>
    unpack_value now (encode_with_seq tombstone seq) = None \<and>
    (now \<le> later \<and> unpack_value now w = None \<longrightarrow> unpack_value later w = None)"
  using unpack_value_mono [of now later w] unpack_ttl [of now expiry v seq] unpack_tombstone [of now seq]
  by (cases "unpack_value later w") (auto simp: not_le)

lemma ttl_expiry_witness:
  "unpack_value 4 (encode_with_seq (ttl_encode 5 [9]) 1) = Some [9] \<and>
   unpack_value 6 (encode_with_seq (ttl_encode 5 [9]) 1) = None"
proof -
  have "unpack_value 5 (encode_with_seq (ttl_encode 5 [9]) 1) = None"
    using ttl_expiry [of 5 5 "[9]" 1] by simp
  then show ?thesis
    using ttl_expiry [of 4 5 "[9]" 1] ttl_expiry [of 5 5 "[9]" 1 6 "encode_with_seq (ttl_encode 5 [9]) 1"] by simp
qed

text \<open>C34: The half-open range that prefix_scan reads, exactly, for every prefix. A prefix whose last byte below 0xFF is followed by n bytes 0xFF: the keys with the prefix, and also every key in which that byte is one higher and the rest is below n bytes 0xFF (none for n = 0), because next_key increments the byte and keeps the tail. An empty prefix or one of 0xFF bytes only: the prefix itself and no longer key, so keys that extend it are missed.\<close>

theorem prefix_bound_exact:
  shows "(b \<noteq> 0xFF \<longrightarrow>
      (q @ b # replicate n 0xFF \<le> k \<and> k < next_key (q @ b # replicate n 0xFF) \<longleftrightarrow>
       starts_with (q @ b # replicate n 0xFF) k \<or> (\<exists>s. k = q @ (b + 1) # s \<and> s < replicate n 0xFF))) \<and>
    (replicate n 0xFF \<le> k \<and> k < next_key (replicate n 0xFF) \<longleftrightarrow> k = replicate n 0xFF)"
proof -
  have "replicate n 0xFF \<le> k \<and> k < next_key (replicate n 0xFF) \<longleftrightarrow> k = replicate n 0xFF"
    by (rule next_key_all_ff) simp
  then show ?thesis using next_key_range_ff [of b q n k] by blast
qed

lemma prefix_bound_exact_witness:
  "([1, 2] \<le> [1, 2, 255 :: u8] \<and> [1, 2, 255] < next_key [1, 2 :: u8]) \<and>
     ([1, 255] \<le> [2, 7 :: u8] \<and> [2, 7] < next_key [1, 255 :: u8]) \<and> \<not> ([255 :: u8] \<le> [255, 1] \<and> [255, 1] < next_key [255])"
  using prefix_bound_exact [of 2 "[1]" 0 "[1, 2, 255]"] prefix_bound_exact [of 1 "[]" 1 "[2, 7]"] prefix_bound_exact [of 0 "[]" 1 "[255, 1]"]
  by (simp add: starts_with_def)

subsection \<open>Blocks, filters, cache, manifest\<close>

text \<open>C35: A data block whose keys are below 64 KiB and whose values and entry count fit 32 bits is decoded to the entries it was encoded from, prefix compression undone, also when other bytes follow it; the encoding is never longer than the estimate plus its 4-byte header.\<close>

theorem block_roundtrip_trailing:
  assumes "block_fits (entries b)" "block_wf b"
  shows "block_decode (block_encode b @ ys) = Inr \<lparr>entries = entries b, encoded_size = length (block_encode b) - 4\<rparr> \<and>
    length (block_encode b) \<le> 4 + estimated_size b"
  using block_roundtrip [OF assms(1)] length_block_encode [OF assms(2)] by blast

lemma block_roundtrip_trailing_witness:
  "block_decode (block_encode (block_add [1, 2] [9] (block_add [1] [8] block_new)) @ [7]) =
    Inr \<lparr>entries = [([1], [8]), ([1, 2], [9])], encoded_size = 20\<rparr>"
proof -
  let ?b = "block_add [1, 2] [9] (block_add [1] [8] block_new)"
  have "block_fits (entries ?b)" "entries ?b = [([1], [8]), ([1, 2], [9])]"
    by (simp_all add: block_fits_def entry_fits_def block_new_def)
  moreover have "length (block_encode ?b) = 24"
    by (simp add: block_encode_def block_new_def Let_def prefix_shared_len_def)
  ultimately show ?thesis using block_roundtrip_trailing [of ?b "[7]"] by simp
qed

text \<open>C36: A built bloom filter never denies a key it was built from and never panics; it answers yes exactly when every probe of the key is a probe of some inserted key, so a filter built from no keys rejects everything. When its counts fit 32 bits, as in a table file, it is decoded to itself, also when other bytes follow it.\<close>

theorem bloom_exact_answer:
  shows "(bloom_fits (bloom_build keys bpk) \<longrightarrow>
       bloom_decode (bloom_encode (bloom_build keys bpk) @ ys) = Inr (bloom_build keys bpk)) \<and>
    (key \<in> set keys \<longrightarrow> may_contain (bloom_build keys bpk) key = Inr True) \<and>
    may_contain (bloom_build [] bpk) key = Inr False \<and>
    may_contain (bloom_build keys bpk) key = Inr (\<forall>i < optimal_hashes bpk.
     \<exists>k \<in> set keys. \<exists>j < optimal_hashes bpk.
       probe (double_hash k) (max (length keys * bpk) 64) j = probe (double_hash key) (max (length keys * bpk) 64) i)"
  using bloom_roundtrip [of "bloom_build keys bpk" ys] no_false_negative [of key keys bpk] empty_filter_rejects [of bpk key] may_contain_build [of keys bpk key] by blast

lemma bloom_exact_answer_witness:
  "may_contain (bloom_build [[1], [2, 3]] 10) [2, 3] = Inr True \<and>
     bloom_decode (bloom_encode (bloom_build [[1], [2, 3]] 10) @ [1]) = Inr (bloom_build [[1], [2, 3]] 10)"
proof -
  have "bloom_fits (bloom_build [[1], [2, 3]] 10)" by (simp add: bloom_fits_def bloom_build_def optimal_hashes_def)
  then show ?thesis using bloom_exact_answer [of "[[1], [2, 3]]" 10 "[1]" "[2, 3]"] by simp
qed

text \<open>C37: Putting a block into the cache keeps its invariant, makes the block available as the most recent one, and keeps of the other blocks exactly the longest most-recently-used part that leaves room: a block is evicted only when it and everything more recent do not fit next to the new one. The cache then holds at most its capacity in bytes, unless the new block alone is larger, and then nothing but that block.\<close>

theorem cache_lru_put:
  assumes "cache_inv c"
  shows "cache_inv (cache_put key b c) \<and> cache_contents (cache_put key b c) key = Some b \<and>
    (\<exists>n \<le> length (filter (\<lambda>k. k \<noteq> key) (order c)).
       order (cache_put key b c) = key # take n (filter (\<lambda>k. k \<noteq> key) (order c)) \<and>
       (n = 0 \<or> bytes_of c (take n (filter (\<lambda>k. k \<noteq> key) (order c))) + estimated_size b \<le> capacity c) \<and>
       (\<forall>m. n < m \<longrightarrow> m \<le> length (filter (\<lambda>k. k \<noteq> key) (order c)) \<longrightarrow>
          capacity c < bytes_of c (take m (filter (\<lambda>k. k \<noteq> key) (order c))) + estimated_size b)) \<and>
    cache_size (cache_put key b c) \<le> max (capacity c) (estimated_size b)"
  using cache_put_spec(1,3) [OF assms, of key b] cache_put_spec(4) [OF assms, of key b key]
    cache_put_size [OF assms, of key b] by (auto simp: cache_size_def)

lemma cache_lru_put_witness:
  "cache_contents (cache_put \<lparr>ck_sst_id = 1, ck_block_idx = 0\<rparr> block_new (cache_new 10)) \<lparr>ck_sst_id = 1, ck_block_idx = 0\<rparr> = Some block_new"
  using cache_lru_put [OF cache_inv_new, of "\<lparr>ck_sst_id = 1, ck_block_idx = 0\<rparr>" block_new 10] by blast

text \<open>C38: A manifest whose counts and keys fit 32 bits is decoded to the same levels of tables, except that the level recorded in every table entry comes back as 0: the position of the level list is what survives.\<close>

theorem manifest_reload:
  assumes "manifest_fits mf"
  shows "manifest_decode (manifest_encode mf) =
    Inr (mf\<lparr>levels := map (map (\<lambda>m. m\<lparr>meta_level := 0\<rparr>)) (levels mf)\<rparr>)"
  using manifest_roundtrip [OF assms] by (simp add: forget_levels_def)

lemma manifest_reload_witness:
  "manifest_decode (manifest_encode (add_sst 1 (sst_meta_new 3 1 [1] [2]) manifest_new)) =
     Inr (add_sst 1 (sst_meta_new 3 0 [1] [2]) manifest_new)"
  using manifest_reload [of "add_sst 1 (sst_meta_new 3 1 [1] [2]) manifest_new"]
  by (simp add: manifest_fits_def meta_fits_def add_sst_def sst_meta_new_def manifest_new_def Let_def)

text \<open>C39: A manifest file cut short at any byte is rejected as corrupt; it never decodes to a different manifest and never panics.\<close>

theorem manifest_torn_detected:
  assumes "manifest_fits mf" "n < length (manifest_encode mf)"
  shows "\<exists>msg. manifest_decode (take n (manifest_encode mf)) = Inl (Fail (Corruption msg))"
  by (rule torn_manifest [OF assms])

lemma manifest_torn_detected_witness:
  "\<exists>msg. manifest_decode (take 11 (manifest_encode manifest_new)) = Inl (Fail (Corruption msg))"
  by (rule manifest_torn_detected) (simp_all add: manifest_fits_def manifest_new_def manifest_encode_header)

subsection \<open>Merging and searching\<close>

text \<open>C40: Draining the merge iterator over sources that are each sorted by key terminates without panic and yields the stable sort by key of all entries: every entry once, in key order, and on equal keys the source with the lower index first.\<close>

theorem merge_is_stable_sort:
  assumes "\<forall>r \<in> set sources. sorted (map fst r)"
  shows "merge_collect (merge_new sources) = Inr (sort_key fst (concat sources))"
  by (rule merge_sorts [OF merge_new_merging assms])

lemma merge_is_stable_sort_witness:
  "merge_collect (merge_new [[([1], [7]), ([3], [8])], [([1], [9]), ([2], [5])]]) =
     Inr [([1], [7]), ([1], [9]), ([2], [5]), ([3], [8])]"
  using merge_is_stable_sort [of "[[([1], [7]), ([3], [8])], [([1], [9]), ([2], [5])]]"] by simp

end
